(* ===== verification/Prelude.thy ===== *)
theory Prelude
  imports Main "HOL-Library.Word" "HOL-Library.Monad_Syntax" "HOL-Library.Multiset"
begin

text \<open>
  What the components share: the names of the machine integers of the C++ code, lemmas on
  masked 64-bit counters (every ring of the program uses one), on list updates, and on sums of
  quantities. A result of type \<open>'a option\<close> is \<open>None\<close> where the C++ program would read or
  write outside an array (undefined behaviour) or would not return.
\<close>

unbundle bit_operations_syntax

type_synonym u8 = "8 word"
type_synonym u32 = "32 word"
type_synonym u64 = "64 word"

named_theorems queue_defs \<open>definitions of the ring queues\<close>
named_theorems pool_defs \<open>definitions of the node pool and the level queues\<close>
named_theorems book_defs \<open>definitions of the order book operations\<close>

section \<open>Masked counters\<close>

text \<open>A power of two below the word size divides the modulus, so reducing twice is reducing once.\<close>

lemma unat_take_bit_word:
  fixes x :: "'a::len word"
  shows "unat (take_bit k x) = unat x mod 2 ^ k"
  by (simp only: unsigned_take_bit_eq flip: take_bit_eq_mod)

lemma mask_eq_take_bit:
  fixes x :: u64
  shows "x AND (2 ^ k - 1) = take_bit k x"
  by (simp add: take_bit_eq_mask mask_eq_exp_minus_1)

lemma unat_sub_mod:
  fixes x y :: u64
  assumes "k \<le> 64"
  shows "int (unat (x - y)) mod 2 ^ k = (int (unat x) - int (unat y)) mod 2 ^ k"
proof -
  have "uint (x - y) = (uint x - uint y) mod 2 ^ 64"
    by (simp add: uint_word_ariths)
  moreover have "(2::int) ^ k dvd 2 ^ 64"
    using assms by (rule le_imp_power_dvd)
  ultimately show ?thesis
    by (simp add: mod_mod_cancel)
qed

lemma take_bit_eq_iff_dist:
  fixes x y :: u64
  assumes "k \<le> 64"
  shows "take_bit k x = take_bit k y \<longleftrightarrow> 2 ^ k dvd unat (x - y)"
proof -
  have two: "int (2 ^ k) = 2 ^ k" by simp
  have "take_bit k x = take_bit k y \<longleftrightarrow> unat x mod 2 ^ k = unat y mod 2 ^ k"
    by (simp only: word_eq_iff_unsigned [where 'a = nat] unat_take_bit_word)
  also have "\<dots> \<longleftrightarrow> int (unat x mod 2 ^ k) = int (unat y mod 2 ^ k)"
    by (simp only: of_nat_eq_iff)
  also have "\<dots> \<longleftrightarrow> (int (unat x) - int (unat y)) mod 2 ^ k = 0"
    by (simp only: zmod_int two mod_eq_dvd_iff dvd_eq_mod_eq_0)
  also have "\<dots> \<longleftrightarrow> int (unat (x - y)) mod 2 ^ k = 0"
    by (simp only: unat_sub_mod [OF assms])
  also have "\<dots> \<longleftrightarrow> int (2 ^ k) dvd int (unat (x - y))"
    by (simp only: two dvd_eq_mod_eq_0)
  also have "\<dots> \<longleftrightarrow> 2 ^ k dvd unat (x - y)"
    by (rule int_dvd_int_iff)
  finally show ?thesis .
qed

lemma unat_Suc_word:
  fixes x :: "'a::len word"
  assumes "Suc (unat x) < 2 ^ LENGTH('a)"
  shows "unat (x + 1) = Suc (unat x)"
  using assms by (simp add: unat_word_ariths)

section \<open>Word values as numbers\<close>

lemma unat_inject [simp]: "unat x = unat y \<longleftrightarrow> x = (y :: 'a::len word)"
  by (simp add: word_eq_iff_unsigned [where 'a = nat])

lemma sint_small:
  fixes i :: u32
  assumes "unat i < 2 ^ 31" shows "sint i = int (unat i)"
proof -
  have u: "uint i = int (unat i)" by simp
  have "int (unat i) < int (2 ^ 31)" using assms by (simp only: of_nat_less_iff)
  then have "signed_take_bit 31 (int (unat i)) = int (unat i)"
    by (intro signed_take_bit_int_eq_self) (simp_all del: of_nat_unat)
  moreover have "sint i = signed_take_bit 31 (uint i)" by (simp add: sint_uint)
  ultimately show ?thesis by (simp only: u)
qed

section \<open>Positions in a ring\<close>

text \<open>
  \<open>ring_dist P h t\<close> is the number of steps from position \<open>h\<close> to position \<open>t\<close> on a ring of \<open>P\<close>
  positions, and \<open>ring_slice f P h n\<close> reads \<open>n\<close> positions from \<open>h\<close> on.
\<close>

definition ring_dist :: "nat \<Rightarrow> nat \<Rightarrow> nat \<Rightarrow> nat" where
  "ring_dist P h t = (t + P - h) mod P"

definition ring_slice :: "(nat \<Rightarrow> 'a) \<Rightarrow> nat \<Rightarrow> nat \<Rightarrow> nat \<Rightarrow> 'a list" where
  "ring_slice f P h n = map (\<lambda>i. f ((h + i) mod P)) [0..<n]"

lemma ring_dist_bound: "0 < P \<Longrightarrow> ring_dist P h t < P"
  by (simp add: ring_dist_def)

lemma ring_dist_eq: "h < P \<Longrightarrow> t < P \<Longrightarrow> ring_dist P h t = (if h \<le> t then t - h else t + P - h)"
proof (cases "h \<le> t")
  case True
  assume "t < P"
  with True have "t + P - h = (t - h) + P" "t - h < P" by auto
  then have "(t + P - h) mod P = t - h" by (simp only: mod_add_self2) simp
  then show ?thesis using True by (simp only: ring_dist_def if_True)
next
  case False
  assume "t < P" "h < P"
  with False show ?thesis by (simp add: ring_dist_def)
qed

lemma Suc_mod_eq: "t < P \<Longrightarrow> Suc t mod P = (if Suc t = P then 0 else Suc t)"
  by (simp add: mod_Suc)

lemma ring_dist_zero: "h < P \<Longrightarrow> t < P \<Longrightarrow> ring_dist P h t = 0 \<longleftrightarrow> h = t"
  by (auto simp: ring_dist_eq)

lemma ring_dist_full: "h < P \<Longrightarrow> t < P \<Longrightarrow> Suc t mod P = h \<longleftrightarrow> ring_dist P h t = P - 1"
  by (auto simp: ring_dist_eq Suc_mod_eq split: if_splits)

lemma ring_dist_push: "h < P \<Longrightarrow> t < P \<Longrightarrow> Suc t mod P \<noteq> h \<Longrightarrow>
    ring_dist P h (Suc t mod P) = Suc (ring_dist P h t)"
  by (auto simp: ring_dist_eq Suc_mod_eq split: if_splits)

lemma ring_dist_pop: "h < P \<Longrightarrow> t < P \<Longrightarrow> h \<noteq> t \<Longrightarrow>
    Suc (ring_dist P (Suc h mod P) t) = ring_dist P h t"
  by (auto simp: ring_dist_eq Suc_mod_eq split: if_splits)

lemma ring_dist_tail: "h < P \<Longrightarrow> t < P \<Longrightarrow> (h + ring_dist P h t) mod P = t"
  by (auto simp: ring_dist_eq)

lemma mod_add_inject:
  fixes h i j P :: nat
  assumes "i \<le> j" "j < P" "(h + i) mod P = (h + j) mod P"
  shows "i = j"
proof -
  from assms have "P dvd (h + j) - (h + i)"
    by (intro mod_eq_dvd_iff_nat [THEN iffD1]) auto
  then have "P dvd j - i" by simp
  moreover from assms have "j - i < P" by simp
  ultimately have "j - i = 0" using nat_dvd_not_less by blast
  with assms show ?thesis by simp
qed

lemma length_ring_slice [simp]: "length (ring_slice f P h n) = n"
  by (simp add: ring_slice_def)

lemma ring_slice_push:
  assumes "n < P"
  shows "ring_slice (f((h + n) mod P := x)) P h (Suc n) = ring_slice f P h n @ [x]"
proof -
  have "(h + i) mod P \<noteq> (h + n) mod P" if "i < n" for i
    using mod_add_inject [of i n P h] that assms by auto
  then show ?thesis by (auto simp: ring_slice_def)
qed

lemma ring_slice_pop:
  "ring_slice f P h (Suc n) = f (h mod P) # ring_slice f P (Suc h mod P) n"
proof -
  have "map (\<lambda>i. f ((h + i) mod P)) [0..<Suc n]
      = f (h mod P) # map (\<lambda>i. f ((h + Suc i) mod P)) [0..<n]"
    by (simp only: upt_rec [of 0 "Suc n"] zero_less_Suc if_True list.map add_0_right
        map_Suc_upt [symmetric] map_map comp_def)
  then show ?thesis by (simp add: ring_slice_def mod_simps)
qed

section \<open>Masking with a capacity that is not a power of two\<close>

text \<open>
  Adding one and masking with \<open>n - 1\<close>, from 0 on, walks through the residues of the largest power
  of two that divides \<open>n\<close>: the set bits of \<open>n - 1\<close> above its run of low ones are never reached.
\<close>

fun pow2_part :: "nat \<Rightarrow> nat" where
  "pow2_part n = (if n = 0 \<or> odd n then 1 else 2 * pow2_part (n div 2))"

declare pow2_part.simps [simp del]

lemma pow2_part_form:
  assumes "0 < n"
  shows "\<exists>k m. n = 2 ^ k * (2 * m + 1) \<and> pow2_part n = 2 ^ k"
  using assms
proof (induction n rule: less_induct)
  case (less n)
  show ?case
  proof (cases "odd n")
    case True
    then obtain m where "n = 2 ^ 0 * (2 * m + 1)" by (auto elim: oddE)
    moreover have "pow2_part n = 2 ^ 0" using True by (simp add: pow2_part.simps)
    ultimately show ?thesis by blast
  next
    case False
    with less.prems have "0 < n div 2" "n div 2 < n" and n: "n = 2 * (n div 2)" by auto
    with less.IH obtain k m where h: "n div 2 = 2 ^ k * (2 * m + 1)" "pow2_part (n div 2) = 2 ^ k"
      by blast
    have "pow2_part n = 2 * pow2_part (n div 2)"
      using False less.prems by (simp add: pow2_part.simps [of n])
    then have "n = 2 ^ Suc k * (2 * m + 1) \<and> pow2_part n = 2 ^ Suc k"
      using n h by (simp only: power_Suc mult.assoc)
    then show ?thesis by blast
  qed
qed

lemma and_low_ones:
  fixes v m k :: nat
  assumes "v \<le> 2 ^ k"
  shows "v AND (2 ^ k * (2 * m + 1) - 1) = v mod 2 ^ k"
proof -
  define w :: nat where "w = 2 ^ k * (2 * m + 1) - 1"
  obtain p where P: "2 ^ k = Suc p" using not0_implies_Suc [of "2 ^ k"] by auto
  have w: "w = Suc p * (2 * m) + p"
    by (simp add: w_def P)
  have low: "take_bit k w = mask k"
    by (simp only: w take_bit_eq_mod mask_eq_exp_minus_1 P mod_mult_self4) simp
  have "w div 2 ^ k = 2 * m"
    by (simp only: w P div_mult_self4) simp
  then have high: "\<not> bit w k"
    by (simp add: bit_iff_odd)
  show ?thesis
  proof (cases "v = 2 ^ k")
    case True
    have "v AND w = 0"
      by (rule bit_eqI) (use True high in \<open>auto simp: bit_and_iff bit_exp_iff\<close>)
    then show ?thesis using True by (simp add: w_def)
  next
    case False
    with assms have v: "v AND mask k = v"
      by (simp only: take_bit_eq_mask [symmetric] take_bit_nat_eq_self_iff)
    have "v AND w = (v AND mask k) AND w" by (simp only: v)
    also have "\<dots> = v AND (w AND mask k)" by (simp only: ac_simps)
    also have "\<dots> = v AND mask k" by (simp only: take_bit_eq_mask [symmetric] low)
    also have "\<dots> = v mod 2 ^ k" by (simp only: take_bit_eq_mask [symmetric] take_bit_eq_mod)
    finally show ?thesis by (simp only: w_def)
  qed
qed

end
