(* ===== verification/Market_Types.thy ===== *)
theory Market_Types
  imports Prelude
begin

text \<open>
  The data of \<^verbatim>\<open>src/include/order.h\<close>, \<^verbatim>\<open>src/include/trade.h\<close> and \<^verbatim>\<open>src/include/market_state.h\<close>:
  orders, trades and the constants that split a symbol id into a group (upper bits) and a slot of
  the group's books (the lower \<open>SYMBOL_BITS\<close> bits). Prices and ids are 64-bit words, quantities
  and symbol ids 32-bit words, as in the structs.
\<close>

definition NULL_IDX :: u32 where "NULL_IDX = 0xFFFFFFFF"
definition SYMBOL_BITS :: nat where "SYMBOL_BITS = 10"
definition SYMBOL_MASK :: u32 where "SYMBOL_MASK = push_bit SYMBOL_BITS 1 - 1"
definition MAX_SYMBOLS :: nat where "MAX_SYMBOLS = 2 ^ SYMBOL_BITS"
definition GROUP_COUNT :: nat where "GROUP_COUNT = 2"
definition TOTAL_SYMBOLS :: nat where "TOTAL_SYMBOLS = MAX_SYMBOLS * GROUP_COUNT"

datatype OrderType = BUY | SELL

datatype OrderExecutionType = MARKET | LIMIT | STOP_LOSS | ICEBERG

record Order =
  o_order_id :: u64
  o_execution_type :: OrderExecutionType
  o_price :: u64
  o_timestamp :: u64
  o_trader_id :: u64
  o_type :: OrderType
  o_symbol_id :: u32
  o_quantity :: u32
  o_client_order_id :: u64

record Trade =
  t_trade_id :: u64
  t_timestamp_ns :: u64
  t_price :: u64
  t_buy_order_id :: u64
  t_sell_order_id :: u64
  t_symbol_id :: u32
  t_quantity :: u32

text \<open>The exceptions the engine throws.\<close>

datatype engine_exn = bad_alloc | out_of_range

text \<open>\<open>MarketState\<close> is an array of \<open>MAX_SYMBOLS\<close> last traded prices in shared memory.\<close>

type_synonym MarketState = "u64 list"

lemma symbol_mask: "SYMBOL_MASK = mask 10"
  by (simp add: SYMBOL_MASK_def SYMBOL_BITS_def mask_eq_exp_minus_1)

lemma unat_masked_symbol: "unat (s AND SYMBOL_MASK) = unat s mod 1024"
  by (simp add: symbol_mask unat_take_bit_word flip: take_bit_eq_mask)

lemma masked_symbol_bound: "unat (s AND SYMBOL_MASK) < MAX_SYMBOLS"
  by (simp add: unat_masked_symbol MAX_SYMBOLS_def SYMBOL_BITS_def)

lemma unat_NULL_IDX: "unat NULL_IDX = 2 ^ 32 - 1"
  by (simp add: NULL_IDX_def)

end
