(* ===== verification/Mem_Pool.thy ===== *)
theory Mem_Pool
  imports Market_Types
begin

text \<open>
  \<open>OrderNode\<close>, \<open>MemPool\<close> and \<open>PriceQueues\<close> of \<^verbatim>\<open>src/include/order_book.h\<close>: the nodes of all resting
  orders of a book live in one array; free nodes form a singly linked free list through \<open>next\<close>, and
  the orders of one price level form a doubly linked queue through \<open>next\<close> and \<open>back\<close>. Links are array
  indices, \<open>NULL_IDX\<close> is the null link. The theory shows that the two structures stay disjoint and
  well linked under every operation, so that no access leaves the array, and that a level is a FIFO
  queue of orders.
\<close>

section \<open>Nodes and the pool\<close>

record OrderNode =
  n_order :: Order
  n_next :: u32
  n_back :: u32

record MemPool =
  mp_nodes :: "OrderNode list"
  mp_freeHead :: u32
  mp_used :: u64
  mp_capacity :: u64

text \<open>
  The constructor receives what \<open>malloc\<close> returned: \<open>None\<close> for a null pointer, otherwise the
  \<open>capacity\<close> nodes of the block with their indeterminate contents. For capacity 0 the loop bound
  \<open>capacity-1\<close> wraps around and the loop leaves the block.
\<close>

definition link_next :: "nat \<Rightarrow> OrderNode list \<Rightarrow> OrderNode list" where
  "link_next i nodes = nodes[i := (nodes ! i)\<lparr>n_next := of_nat (i + 1)\<rparr>]"

definition MemPool_new :: "OrderNode list option \<Rightarrow> (engine_exn + MemPool) option" where
  "MemPool_new mem = (case mem of
     None \<Rightarrow> Some (Inl bad_alloc)
   | Some nodes \<Rightarrow>
       (if nodes = [] then None
        else
          let cap = length nodes;
              linked = fold link_next [0..<cap - 1] nodes;
              closed = linked[cap - 1 := (linked ! (cap - 1))\<lparr>n_next := NULL_IDX\<rparr>]
          in Some (Inr \<lparr>mp_nodes = closed, mp_freeHead = 0, mp_used = 0, mp_capacity = of_nat cap\<rparr>)))"

text \<open>\<open>getNode\<close> and \<open>deallocate\<close> take the index as an \<open>int\<close>, \<open>allocate\<close> uses it as a \<open>uint32_t\<close>.\<close>

definition node_in_bounds :: "MemPool \<Rightarrow> u32 \<Rightarrow> bool" where
  "node_in_bounds p idx \<longleftrightarrow> 0 \<le> sint idx \<and> sint idx < int (length (mp_nodes p))"

definition getNode :: "MemPool \<Rightarrow> u32 \<Rightarrow> OrderNode option" where
  "getNode p idx = (if node_in_bounds p idx then Some (mp_nodes p ! unat idx) else None)"

text \<open>A write through the pointer \<open>getNode\<close> returned.\<close>

definition updNode :: "MemPool \<Rightarrow> u32 \<Rightarrow> (OrderNode \<Rightarrow> OrderNode) \<Rightarrow> MemPool option" where
  "updNode p idx f =
     (if node_in_bounds p idx
      then Some (p\<lparr>mp_nodes := (mp_nodes p)[unat idx := f (mp_nodes p ! unat idx)]\<rparr>)
      else None)"

definition allocate :: "MemPool \<Rightarrow> (MemPool \<times> u32) option" where
  "allocate p =
     (if mp_freeHead p = NULL_IDX then Some (p, NULL_IDX)
      else
        let idx = mp_freeHead p in
        if unat idx < length (mp_nodes p) then
          let node = mp_nodes p ! unat idx in
          Some (p\<lparr>mp_freeHead := n_next node,
                  mp_nodes := (mp_nodes p)[unat idx := node\<lparr>n_next := NULL_IDX, n_back := NULL_IDX\<rparr>],
                  mp_used := mp_used p + 1\<rparr>, idx)
        else None)"

definition deallocate :: "MemPool \<Rightarrow> u32 \<Rightarrow> MemPool option" where
  "deallocate p idx =
     (if idx = NULL_IDX then Some p
      else do {
        p1 \<leftarrow> updNode p idx (\<lambda>n. n\<lparr>n_next := mp_freeHead p\<rparr>);
        Some (p1\<lparr>mp_freeHead := idx, mp_used := mp_used p1 - 1\<rparr>)
      })"

section \<open>Price level queues\<close>

record PriceQueues =
  q_head :: u32
  q_tail :: u32
  q_count :: u64
  q_heap_entry :: bool

definition PriceQueues_new :: PriceQueues where
  "PriceQueues_new = \<lparr>q_head = NULL_IDX, q_tail = NULL_IDX, q_count = 0, q_heap_entry = False\<rparr>"

definition gethead :: "PriceQueues \<Rightarrow> MemPool \<Rightarrow> OrderNode option" where
  "gethead q p = getNode p (q_head q)"

definition isEmpty :: "PriceQueues \<Rightarrow> bool" where
  "isEmpty q \<longleftrightarrow> q_count q = 0"

definition has_heap_entry :: "PriceQueues \<Rightarrow> bool" where
  "has_heap_entry q = q_heap_entry q"

definition set_heap_entry :: "PriceQueues \<Rightarrow> bool \<Rightarrow> PriceQueues" where
  "set_heap_entry q val = q\<lparr>q_heap_entry := val\<rparr>"

definition insertOrder :: "PriceQueues \<Rightarrow> MemPool \<Rightarrow> Order \<Rightarrow> (PriceQueues \<times> MemPool \<times> u32) option" where
  "insertOrder q p order = do {
     (p1, idx) \<leftarrow> allocate p;
     if idx = NULL_IDX then Some (q, p1, NULL_IDX)
     else do {
       p2 \<leftarrow> updNode p1 idx (\<lambda>n. n\<lparr>n_order := order\<rparr>);
       (q1, p4) \<leftarrow>
         (if q_head q = NULL_IDX then Some (q\<lparr>q_head := idx, q_tail := idx\<rparr>, p2)
          else do {
            p3 \<leftarrow> updNode p2 (q_tail q) (\<lambda>n. n\<lparr>n_next := idx\<rparr>);
            p4 \<leftarrow> updNode p3 idx (\<lambda>n. n\<lparr>n_back := q_tail q\<rparr>);
            Some (q\<lparr>q_tail := idx\<rparr>, p4)
          });
       Some (q1\<lparr>q_count := q_count q1 + 1\<rparr>, p4, idx)
     }
   }"

text \<open>The two conditional updates of \<open>removeOrder\<close>: the link from the front and the link from the rear.\<close>

definition unlink_front :: "PriceQueues \<Rightarrow> MemPool \<Rightarrow> u32 \<Rightarrow> u32 \<Rightarrow> u32 \<Rightarrow> (PriceQueues \<times> MemPool) option" where
  "unlink_front q p idx prev nxt =
     (if idx = q_head q then
        (if nxt \<noteq> NULL_IDX
         then do {
           p1 \<leftarrow> updNode p nxt (\<lambda>n. n\<lparr>n_back := NULL_IDX\<rparr>);
           Some (q\<lparr>q_head := nxt\<rparr>, p1)
         }
         else Some (q\<lparr>q_head := nxt\<rparr>, p))
      else do {
        p1 \<leftarrow> updNode p prev (\<lambda>n. n\<lparr>n_next := nxt\<rparr>);
        Some (q, p1)
      })"

definition unlink_rear :: "PriceQueues \<Rightarrow> MemPool \<Rightarrow> u32 \<Rightarrow> u32 \<Rightarrow> u32 \<Rightarrow> (PriceQueues \<times> MemPool) option" where
  "unlink_rear q p idx prev nxt =
     (if idx = q_tail q then Some (q\<lparr>q_tail := prev\<rparr>, p)
      else if nxt \<noteq> NULL_IDX
      then do {
        p1 \<leftarrow> updNode p nxt (\<lambda>n. n\<lparr>n_back := prev\<rparr>);
        Some (q, p1)
      }
      else Some (q, p))"

definition removeOrder :: "PriceQueues \<Rightarrow> MemPool \<Rightarrow> u32 \<Rightarrow> (PriceQueues \<times> MemPool \<times> bool) option" where
  "removeOrder q p idx =
     (if idx = NULL_IDX then Some (q, p, False)
      else do {
        node \<leftarrow> getNode p idx;
        (q1, p1) \<leftarrow> unlink_front q p idx (n_back node) (n_next node);
        (q2, p2) \<leftarrow> unlink_rear q1 p1 idx (n_back node) (n_next node);
        p3 \<leftarrow> deallocate p2 idx;
        Some (q2\<lparr>q_count := q_count q2 - 1\<rparr>, p3, True)
      })"

declare link_next_def [pool_defs] MemPool_new_def [pool_defs] allocate_def [pool_defs] deallocate_def [pool_defs]
  getNode_def [pool_defs] updNode_def [pool_defs] gethead_def [pool_defs] isEmpty_def [pool_defs]
  has_heap_entry_def [pool_defs] set_heap_entry_def [pool_defs] insertOrder_def [pool_defs]
  unlink_front_def [pool_defs] unlink_rear_def [pool_defs] removeOrder_def [pool_defs]

section \<open>Linked structure\<close>

text \<open>
  \<open>dlseg h b xs e\<close>: the nodes \<open>xs\<close> are linked both ways in the node store \<open>h\<close>, the first one back to
  \<open>b\<close> and the last one on to \<open>e\<close>. \<open>fchain h a xs\<close>: the nodes \<open>xs\<close> form the free list from \<open>a\<close>.
  \<open>pool_ok\<close> and \<open>queue_ok\<close> say that the pool's free list is \<open>fs\<close> and a level's queue is \<open>xs\<close>.
\<close>

definition nd :: "MemPool \<Rightarrow> u32 \<Rightarrow> OrderNode" where
  "nd p i = mp_nodes p ! unat i"

definition slots :: "MemPool \<Rightarrow> u32 set" where
  "slots p = {i. unat i < length (mp_nodes p)}"

primrec dlseg :: "(u32 \<Rightarrow> OrderNode) \<Rightarrow> u32 \<Rightarrow> u32 list \<Rightarrow> u32 \<Rightarrow> bool" where
  "dlseg h b [] e \<longleftrightarrow> True"
| "dlseg h b (x # xs) e \<longleftrightarrow>
     n_back (h x) = b \<and> n_next (h x) = (if xs = [] then e else hd xs) \<and> dlseg h x xs e"

primrec fchain :: "(u32 \<Rightarrow> OrderNode) \<Rightarrow> u32 \<Rightarrow> u32 list \<Rightarrow> bool" where
  "fchain h a [] \<longleftrightarrow> a = NULL_IDX"
| "fchain h a (x # xs) \<longleftrightarrow> a = x \<and> fchain h (n_next (h x)) xs"

definition pool_ok :: "MemPool \<Rightarrow> u32 list \<Rightarrow> bool" where
  "pool_ok p fs \<longleftrightarrow> length (mp_nodes p) < 2 ^ 31 \<and> fchain (nd p) (mp_freeHead p) fs \<and>
     distinct fs \<and> set fs \<subseteq> slots p"

definition queue_ok :: "MemPool \<Rightarrow> PriceQueues \<Rightarrow> u32 list \<Rightarrow> bool" where
  "queue_ok p q xs \<longleftrightarrow> dlseg (nd p) NULL_IDX xs NULL_IDX \<and> distinct xs \<and> set xs \<subseteq> slots p \<and>
     q_head q = (if xs = [] then NULL_IDX else hd xs) \<and>
     q_tail q = (if xs = [] then NULL_IDX else last xs) \<and>
     q_count q = of_nat (length xs)"

lemma dlseg_append:
  "dlseg h b (xs @ ys) e \<longleftrightarrow>
     dlseg h b xs (if ys = [] then e else hd ys) \<and> dlseg h (if xs = [] then b else last xs) ys e"
  by (induction xs arbitrary: b) auto

lemma dlseg_cong:
  assumes "\<forall>x \<in> set xs. n_next (h' x) = n_next (h x) \<and> n_back (h' x) = n_back (h x)"
  shows "dlseg h' b xs e = dlseg h b xs e"
  using assms by (induction xs arbitrary: b) auto

lemma fchain_cong:
  assumes "\<forall>x \<in> set xs. n_next (h' x) = n_next (h x)"
  shows "fchain h' a xs = fchain h a xs"
  using assms by (induction xs arbitrary: a) auto

lemma dlseg_upd [simp]: "u \<notin> set xs \<Longrightarrow> dlseg (h(u := v)) b xs e = dlseg h b xs e"
  by (rule dlseg_cong) auto

lemma fchain_upd [simp]: "u \<notin> set xs \<Longrightarrow> fchain (h(u := v)) a xs = fchain h a xs"
  by (rule fchain_cong) auto

lemma null_not_slot:
  assumes "pool_ok p fs" shows "NULL_IDX \<notin> slots p"
  using assms by (simp add: pool_ok_def slots_def unat_NULL_IDX)

lemma in_bounds_slots:
  assumes "length (mp_nodes p) < 2 ^ 31"
  shows "node_in_bounds p i \<longleftrightarrow> i \<in> slots p"
proof
  assume "i \<in> slots p"
  then have "unat i < length (mp_nodes p)" by (simp add: slots_def)
  moreover from this assms have "sint i = int (unat i)" by (intro sint_small) linarith
  ultimately show "node_in_bounds p i" by (simp only: node_in_bounds_def of_nat_less_iff) simp
next
  assume b: "node_in_bounds p i"
  then have "nat (sint i) < length (mp_nodes p)" by (auto simp: node_in_bounds_def)
  moreover have "uint i = take_bit 32 (sint i)" using uint_sint [of i] by simp
  moreover have "take_bit 32 (sint i) = sint i"
    using b assms by (intro take_bit_int_eq_self) (auto simp: node_in_bounds_def)
  moreover have "unat i = nat (uint i)" by simp
  ultimately show "i \<in> slots p" by (simp only: slots_def mem_Collect_eq)
qed

lemma updNode_ok:
  assumes "pool_ok p fs" "i \<in> slots p"
  obtains p' where "updNode p i f = Some p'" "nd p' = (nd p)(i := f (nd p i))"
    "slots p' = slots p" "mp_freeHead p' = mp_freeHead p"
    "length (mp_nodes p') = length (mp_nodes p)" "mp_used p' = mp_used p"
proof -
  let ?p' = "p\<lparr>mp_nodes := (mp_nodes p)[unat i := f (mp_nodes p ! unat i)]\<rparr>"
  have "node_in_bounds p i" using assms by (simp add: in_bounds_slots pool_ok_def)
  then have "updNode p i f = Some ?p'" by (simp add: updNode_def)
  moreover have "nd ?p' = (nd p)(i := f (nd p i))"
    using assms(2) by (auto simp: nd_def slots_def nth_list_update fun_eq_iff)
  ultimately show ?thesis by (intro that [of ?p']) (auto simp: slots_def)
qed

lemma getNode_ok:
  "pool_ok p fs \<Longrightarrow> i \<in> slots p \<Longrightarrow> getNode p i = Some (nd p i)"
  by (simp add: getNode_def in_bounds_slots pool_ok_def nd_def)

lemma pool_ok_upd:
  assumes "pool_ok p fs" "nd p' = (nd p)(i := v)" "i \<notin> set fs \<or> n_next v = n_next (nd p i)"
    "slots p' = slots p" "mp_freeHead p' = mp_freeHead p"
    "length (mp_nodes p') = length (mp_nodes p)"
  shows "pool_ok p' fs"
proof -
  have "fchain (nd p') (mp_freeHead p) fs = fchain (nd p) (mp_freeHead p) fs"
    using assms(2,3) by (intro fchain_cong) auto
  with assms show ?thesis by (simp add: pool_ok_def)
qed

lemma allocate_full: "pool_ok p [] \<Longrightarrow> allocate p = Some (p, NULL_IDX)"
  by (simp add: pool_ok_def allocate_def)

lemma allocate_ok:
  assumes "pool_ok p (f # fs)"
  obtains p' where "allocate p = Some (p', f)" "pool_ok p' fs" "slots p' = slots p"
    "nd p' = (nd p)(f := (nd p f)\<lparr>n_next := NULL_IDX, n_back := NULL_IDX\<rparr>)"
    "length (mp_nodes p') = length (mp_nodes p)"
proof -
  let ?v = "(nd p f)\<lparr>n_next := NULL_IDX, n_back := NULL_IDX\<rparr>"
  let ?p' = "p\<lparr>mp_freeHead := n_next (nd p f), mp_nodes := (mp_nodes p)[unat f := ?v],
      mp_used := mp_used p + 1\<rparr>"
  have f: "mp_freeHead p = f" "f \<in> slots p" "f \<notin> set fs" "fchain (nd p) (n_next (nd p f)) fs"
    using assms by (auto simp: pool_ok_def)
  then have "f \<noteq> NULL_IDX" using null_not_slot [OF assms] by auto
  then have al: "allocate p = Some (?p', f)"
    using f by (simp add: allocate_def slots_def nd_def Let_def)
  have nd: "nd ?p' = (nd p)(f := ?v)"
    using f(2) by (auto simp: nd_def slots_def nth_list_update fun_eq_iff)
  have "fchain (nd ?p') (n_next (nd p f)) fs"
    unfolding nd using f by simp
  then have "pool_ok ?p' fs" using assms by (auto simp: pool_ok_def slots_def)
  with al nd show ?thesis by (intro that [of ?p']) (auto simp: slots_def)
qed

lemma deallocate_ok:
  assumes "pool_ok p fs" "i \<in> slots p" "i \<notin> set fs"
  obtains p' where "deallocate p i = Some p'" "pool_ok p' (i # fs)" "slots p' = slots p"
    "nd p' = (nd p)(i := (nd p i)\<lparr>n_next := mp_freeHead p\<rparr>)"
    "length (mp_nodes p') = length (mp_nodes p)"
proof -
  have ne: "i \<noteq> NULL_IDX" using assms(1,2) null_not_slot by blast
  obtain p1 where u: "updNode p i (\<lambda>n. n\<lparr>n_next := mp_freeHead p\<rparr>) = Some p1"
    and nd1: "nd p1 = (nd p)(i := (nd p i)\<lparr>n_next := mp_freeHead p\<rparr>)"
    and s: "slots p1 = slots p" "length (mp_nodes p1) = length (mp_nodes p)"
    using updNode_ok [OF assms(1,2)] by metis
  let ?p' = "p1\<lparr>mp_freeHead := i, mp_used := mp_used p1 - 1\<rparr>"
  have "fchain (nd p1) (mp_freeHead p) fs"
    using assms nd1 by (simp add: pool_ok_def)
  then have "fchain (nd p1) i (i # fs)" using nd1 by simp
  moreover have "nd ?p' = nd p1" by (simp add: nd_def fun_eq_iff)
  moreover have "slots ?p' = slots p1" by (simp add: slots_def)
  ultimately have "pool_ok ?p' (i # fs)" using assms s by (simp add: pool_ok_def)
  then show ?thesis
    using ne u nd1 s by (intro that [of ?p']) (auto simp: deallocate_def nd_def slots_def fun_eq_iff)
qed

section \<open>The queue operations on linked structures\<close>

lemma insertOrder_full: "pool_ok p [] \<Longrightarrow> insertOrder q p ord = Some (q, p, NULL_IDX)"
  by (simp add: insertOrder_def allocate_full)

lemma insertOrder_ok:
  assumes pool: "pool_ok p (f # fs)" and que: "queue_ok p q xs" and disj: "set xs \<inter> set (f # fs) = {}"
  obtains q' p' where "insertOrder q p ord = Some (q', p', f)" "pool_ok p' fs" "queue_ok p' q' (xs @ [f])"
    "slots p' = slots p" "q_heap_entry q' = q_heap_entry q" "n_order (nd p' f) = ord"
    "\<forall>i. i \<noteq> f \<longrightarrow> n_order (nd p' i) = n_order (nd p i)"
    "\<forall>i. i \<noteq> f \<longrightarrow> i \<notin> set xs \<longrightarrow> nd p' i = nd p i"
    "length (mp_nodes p') = length (mp_nodes p)"
proof -
  obtain p1 where al: "allocate p = Some (p1, f)" and ok1: "pool_ok p1 fs" and s1: "slots p1 = slots p"
    and nd1: "nd p1 = (nd p)(f := (nd p f)\<lparr>n_next := NULL_IDX, n_back := NULL_IDX\<rparr>)"
    and l1: "length (mp_nodes p1) = length (mp_nodes p)"
    using allocate_ok [OF pool] by metis
  have f: "f \<in> slots p" "f \<notin> set fs" "f \<noteq> NULL_IDX" "f \<notin> set xs"
    using pool null_not_slot [OF pool] disj by (auto simp: pool_ok_def)
  obtain p2 where u2: "updNode p1 f (\<lambda>n. n\<lparr>n_order := ord\<rparr>) = Some p2"
    and nd2: "nd p2 = (nd p1)(f := (nd p1 f)\<lparr>n_order := ord\<rparr>)"
    and s2: "slots p2 = slots p1" "mp_freeHead p2 = mp_freeHead p1"
    "length (mp_nodes p2) = length (mp_nodes p1)"
    using updNode_ok [OF ok1, of f] f s1 by metis
  have ok2: "pool_ok p2 fs" using pool_ok_upd [OF ok1 nd2] s2 by simp
  show ?thesis
  proof (cases "xs = []")
    case True
    let ?q' = "q\<lparr>q_head := f, q_tail := f, q_count := q_count q + 1\<rparr>"
    have "insertOrder q p ord = Some (?q', p2, f)"
      using True que al u2 f by (simp add: insertOrder_def queue_ok_def)
    moreover have "queue_ok p2 ?q' (xs @ [f])"
      using True que f s1 s2 nd1 nd2 by (simp add: queue_ok_def)
    ultimately show ?thesis
      using ok2 nd1 nd2 s1 s2 l1 by (intro that [of ?q' p2]) auto
  next
    case False
    let ?t = "last xs"
    have t: "?t \<in> set xs" "q_tail q = ?t" "q_head q \<noteq> NULL_IDX" "?t \<noteq> f" "?t \<in> slots p2" "?t \<notin> set fs"
      using que null_not_slot [OF pool] f s1 s2 disj hd_in_set [OF False] last_in_set [OF False] False
      unfolding queue_ok_def by fastforce+
    obtain p3 where u3: "updNode p2 ?t (\<lambda>n. n\<lparr>n_next := f\<rparr>) = Some p3"
      and nd3: "nd p3 = (nd p2)(?t := (nd p2 ?t)\<lparr>n_next := f\<rparr>)"
      and s3: "slots p3 = slots p2" "mp_freeHead p3 = mp_freeHead p2"
      "length (mp_nodes p3) = length (mp_nodes p2)"
      using updNode_ok [OF ok2 t(5)] by metis
    have ok3: "pool_ok p3 fs" using pool_ok_upd [OF ok2 nd3] s3 t by simp
    obtain p4 where u4: "updNode p3 f (\<lambda>n. n\<lparr>n_back := ?t\<rparr>) = Some p4"
      and nd4: "nd p4 = (nd p3)(f := (nd p3 f)\<lparr>n_back := ?t\<rparr>)"
      and s4: "slots p4 = slots p3" "mp_freeHead p4 = mp_freeHead p3"
      "length (mp_nodes p4) = length (mp_nodes p3)"
      using updNode_ok [OF ok3, of f] f s1 s2 s3 by metis
    have ok4: "pool_ok p4 fs" using pool_ok_upd [OF ok3 nd4] s4 f by simp
    let ?q' = "q\<lparr>q_tail := f, q_count := q_count q + 1\<rparr>"
    have "insertOrder q p ord = Some (?q', p4, f)"
      using al u2 u3 u4 f t by (simp add: insertOrder_def)
    moreover have "queue_ok p4 ?q' (xs @ [f])"
    proof -
      obtain ys where xs: "xs = ys @ [?t]" using False by (metis append_butlast_last_id)
      have "distinct (ys @ [?t])" "f \<notin> set (ys @ [?t])"
        using que f(4) unfolding queue_ok_def xs [symmetric] by auto
      then have ny: "?t \<notin> set ys" "f \<notin> set ys" by auto
      have "dlseg (nd p) NULL_IDX (ys @ [?t]) NULL_IDX" using que xs by (simp add: queue_ok_def)
      then have "dlseg (nd p4) NULL_IDX (ys @ [?t, f]) NULL_IDX"
        using ny t f nd1 nd2 nd3 nd4 by (simp add: dlseg_append)
      moreover have "ys @ [?t, f] = xs @ [f]" by (subst xs) simp
      ultimately show ?thesis
        using que f s1 s2 s3 s4 False by (auto simp: queue_ok_def)
    qed
    ultimately show ?thesis
      using ok4 nd1 nd2 nd3 nd4 s1 s2 s3 s4 l1 t(1) by (intro that [of ?q' p4]) auto
  qed
qed

lemma unlink_front_ok:
  assumes pool: "pool_ok p fs" and que: "queue_ok p q (ys @ x # zs)"
    and disj: "set (ys @ x # zs) \<inter> set fs = {}"
    and prev: "prev = (if ys = [] then NULL_IDX else last ys)"
    and nxt: "nxt = (if zs = [] then NULL_IDX else hd zs)"
  obtains q1 p1 where "unlink_front q p x prev nxt = Some (q1, p1)" "pool_ok p1 fs"
    "slots p1 = slots p" "length (mp_nodes p1) = length (mp_nodes p)"
    "q1 = q\<lparr>q_head := (if ys @ zs = [] then NULL_IDX else hd (ys @ zs))\<rparr>"
    "nd p1 = (if ys \<noteq> [] then (nd p)(last ys := (nd p (last ys))\<lparr>n_next := nxt\<rparr>)
              else if zs \<noteq> [] then (nd p)(hd zs := (nd p (hd zs))\<lparr>n_back := NULL_IDX\<rparr>) else nd p)"
proof -
  have null: "NULL_IDX \<notin> slots p" using null_not_slot [OF pool] .
  have sub: "set (ys @ x # zs) \<subseteq> slots p" "distinct (ys @ x # zs)" using que by (auto simp: queue_ok_def)
  show ?thesis
  proof (cases "ys = []")
    case True
    show ?thesis
    proof (cases zs)
      case Nil
      then show ?thesis
        using True que pool prev nxt
        by (intro that [of "q\<lparr>q_head := NULL_IDX\<rparr>" p]) (auto simp: queue_ok_def unlink_front_def)
    next
      case (Cons z zs')
      have z: "z \<in> slots p" "z \<noteq> NULL_IDX" "z \<notin> set fs" using Cons sub null disj by auto
      obtain p1 where "updNode p z (\<lambda>n. n\<lparr>n_back := NULL_IDX\<rparr>) = Some p1"
        "nd p1 = (nd p)(z := (nd p z)\<lparr>n_back := NULL_IDX\<rparr>)" "slots p1 = slots p"
        "mp_freeHead p1 = mp_freeHead p" "length (mp_nodes p1) = length (mp_nodes p)"
        using updNode_ok [OF pool z(1)] by metis
      then show ?thesis
        using True Cons que z nxt pool_ok_upd [OF pool, of p1 z]
        by (intro that [of "q\<lparr>q_head := z\<rparr>" p1]) (auto simp: queue_ok_def unlink_front_def)
    qed
  next
    case False
    then have l: "last ys \<in> set ys" "hd ys \<in> set ys" by auto
    then have y: "last ys \<in> slots p" "last ys \<notin> set fs" "x \<noteq> hd ys"
      using sub disj by auto
    obtain p1 where "updNode p (last ys) (\<lambda>n. n\<lparr>n_next := nxt\<rparr>) = Some p1"
      "nd p1 = (nd p)(last ys := (nd p (last ys))\<lparr>n_next := nxt\<rparr>)" "slots p1 = slots p"
      "mp_freeHead p1 = mp_freeHead p" "length (mp_nodes p1) = length (mp_nodes p)"
      using updNode_ok [OF pool y(1)] by metis
    then show ?thesis
      using False que y prev pool_ok_upd [OF pool, of p1 "last ys"]
      by (intro that [of q p1]) (auto simp: queue_ok_def unlink_front_def)
  qed
qed

lemma unlink_rear_ok:
  assumes pool: "pool_ok p fs" and z: "zs \<noteq> [] \<Longrightarrow> hd zs \<in> slots p \<and> hd zs \<notin> set fs"
    and tl: "q_tail q = (if zs = [] then x else last zs)" and d: "x \<notin> set zs"
    and prev: "prev = (if ys = [] then NULL_IDX else last ys)"
    and nxt: "nxt = (if zs = [] then NULL_IDX else hd zs)"
  obtains q1 p1 where "unlink_rear q p x prev nxt = Some (q1, p1)" "pool_ok p1 fs"
    "slots p1 = slots p" "length (mp_nodes p1) = length (mp_nodes p)"
    "q1 = q\<lparr>q_tail := (if ys @ zs = [] then NULL_IDX else last (ys @ zs))\<rparr>"
    "nd p1 = (if zs \<noteq> [] then (nd p)(hd zs := (nd p (hd zs))\<lparr>n_back := prev\<rparr>) else nd p)"
proof (cases "zs = []")
  case True
  then show ?thesis
    using pool tl prev by (intro that [of "q\<lparr>q_tail := prev\<rparr>" p]) (auto simp: unlink_rear_def)
next
  case False
  then have h: "hd zs \<in> slots p" "hd zs \<notin> set fs" "hd zs \<noteq> NULL_IDX" "x \<noteq> last zs"
    using z null_not_slot [OF pool] d by auto
  obtain p1 where "updNode p (hd zs) (\<lambda>n. n\<lparr>n_back := prev\<rparr>) = Some p1"
    "nd p1 = (nd p)(hd zs := (nd p (hd zs))\<lparr>n_back := prev\<rparr>)" "slots p1 = slots p"
    "mp_freeHead p1 = mp_freeHead p" "length (mp_nodes p1) = length (mp_nodes p)"
    using updNode_ok [OF pool h(1)] by metis
  then show ?thesis
    using False tl h nxt pool_ok_upd [OF pool, of p1 "hd zs"]
    by (intro that [of q p1]) (auto simp: unlink_rear_def)
qed

lemma dlseg_set_first:
  "distinct xs \<Longrightarrow> dlseg h b xs e \<Longrightarrow> xs \<noteq> [] \<Longrightarrow>
     dlseg (h(hd xs := (h (hd xs))\<lparr>n_back := b'\<rparr>)) b' xs e"
  by (cases xs) auto

lemma dlseg_set_last:
  "distinct xs \<Longrightarrow> dlseg h b xs e \<Longrightarrow> xs \<noteq> [] \<Longrightarrow>
     dlseg (h(last xs := (h (last xs))\<lparr>n_next := e'\<rparr>)) b xs e'"
  by (cases xs rule: rev_cases) (auto simp: dlseg_append)

lemma dlseg_unlink:
  assumes d: "distinct (ys @ x # zs)" and l: "dlseg h NULL_IDX ys x" "dlseg h x zs NULL_IDX"
    and prev: "prev = (if ys = [] then NULL_IDX else last ys)"
    and nxt: "nxt = (if zs = [] then NULL_IDX else hd zs)"
    and h1: "h1 = (if ys \<noteq> [] then h(last ys := (h (last ys))\<lparr>n_next := nxt\<rparr>)
              else if zs \<noteq> [] then h(hd zs := (h (hd zs))\<lparr>n_back := NULL_IDX\<rparr>) else h)"
    and h2: "h2 = (if zs \<noteq> [] then h1(hd zs := (h1 (hd zs))\<lparr>n_back := prev\<rparr>) else h1)"
  shows "dlseg (h2(x := v)) NULL_IDX (ys @ zs) NULL_IDX"
proof -
  have x: "x \<notin> set ys" "x \<notin> set zs" and int: "set ys \<inter> set zs = {}" using d by auto
  have zy: "hd zs \<notin> set ys" if "zs \<noteq> []" using int hd_in_set [OF that] by blast
  have yz: "last ys \<notin> set zs" if "ys \<noteq> []" using int last_in_set [OF that] by blast
  have "dlseg h2 NULL_IDX ys nxt"
  proof (cases "ys = []")
    case False
    then have "dlseg h1 NULL_IDX ys nxt" using d l h1 dlseg_set_last [of ys h NULL_IDX x nxt] by simp
    then show ?thesis using h2 zy by simp
  qed simp
  moreover have "dlseg h2 prev zs NULL_IDX"
  proof (cases "zs = []")
    case False
    have "\<exists>b. dlseg h1 b zs NULL_IDX"
    proof (cases "ys = []")
      case True
      then show ?thesis using False d l h1 dlseg_set_first [of zs h x NULL_IDX NULL_IDX] by auto
    next
      case ys: False
      then show ?thesis using l h1 yz by auto
    qed
    then show ?thesis using False d h2 dlseg_set_first [of zs h1 _ NULL_IDX prev] by auto
  qed simp
  ultimately show ?thesis using x by (simp add: dlseg_append prev nxt)
qed

lemma removeOrder_ok:
  assumes pool: "pool_ok p fs" and que: "queue_ok p q (ys @ x # zs)"
    and disj: "set (ys @ x # zs) \<inter> set fs = {}"
  obtains q' p' where "removeOrder q p x = Some (q', p', True)" "pool_ok p' (x # fs)"
    "queue_ok p' q' (ys @ zs)" "slots p' = slots p" "q_heap_entry q' = q_heap_entry q"
    "\<forall>i. n_order (nd p' i) = n_order (nd p i)"
    "\<forall>i. i \<notin> set (ys @ x # zs) \<longrightarrow> nd p' i = nd p i"
    "length (mp_nodes p') = length (mp_nodes p)"
proof -
  define prev where "prev = (if ys = [] then NULL_IDX else last ys)"
  define nxt where "nxt = (if zs = [] then NULL_IDX else hd zs)"
  have d: "distinct (ys @ x # zs)" "set (ys @ x # zs) \<subseteq> slots p" "x \<in> slots p" "x \<notin> set fs"
    "dlseg (nd p) NULL_IDX ys x" "dlseg (nd p) x zs NULL_IDX" "n_back (nd p x) = prev" "n_next (nd p x) = nxt"
    using que disj by (auto simp: queue_ok_def dlseg_append prev_def nxt_def)
  obtain q1 p1 where uf: "unlink_front q p x prev nxt = Some (q1, p1)"
    and a: "pool_ok p1 fs" "slots p1 = slots p" "length (mp_nodes p1) = length (mp_nodes p)"
    "q1 = q\<lparr>q_head := (if ys @ zs = [] then NULL_IDX else hd (ys @ zs))\<rparr>"
    "nd p1 = (if ys \<noteq> [] then (nd p)(last ys := (nd p (last ys))\<lparr>n_next := nxt\<rparr>)
              else if zs \<noteq> [] then (nd p)(hd zs := (nd p (hd zs))\<lparr>n_back := NULL_IDX\<rparr>) else nd p)"
    by (rule unlink_front_ok [OF pool que disj prev_def nxt_def])
  have zz: "hd zs \<in> slots p1 \<and> hd zs \<notin> set fs" if "zs \<noteq> []"
  proof -
    have "hd zs \<in> set (ys @ x # zs)" using that by simp
    then show ?thesis using d(2) disj a(2) by blast
  qed
  have tl: "q_tail q1 = (if zs = [] then x else last zs)" using que a(4) by (auto simp: queue_ok_def)
  have xz: "x \<notin> set zs" using d by auto
  obtain q2 p2 where ur: "unlink_rear q1 p1 x prev nxt = Some (q2, p2)"
    and b: "pool_ok p2 fs" "slots p2 = slots p1" "length (mp_nodes p2) = length (mp_nodes p1)"
    "q2 = q1\<lparr>q_tail := (if ys @ zs = [] then NULL_IDX else last (ys @ zs))\<rparr>"
    "nd p2 = (if zs \<noteq> [] then (nd p1)(hd zs := (nd p1 (hd zs))\<lparr>n_back := prev\<rparr>) else nd p1)"
    by (rule unlink_rear_ok [OF a(1) zz tl xz prev_def nxt_def])
  have xs: "x \<in> slots p2" using d(3) a(2) b(2) by simp
  obtain p3 where de: "deallocate p2 x = Some p3" and c: "pool_ok p3 (x # fs)" "slots p3 = slots p2"
    "nd p3 = (nd p2)(x := (nd p2 x)\<lparr>n_next := mp_freeHead p2\<rparr>)" "length (mp_nodes p3) = length (mp_nodes p2)"
    by (rule deallocate_ok [OF b(1) xs d(4)])
  let ?q' = "q2\<lparr>q_count := q_count q2 - 1\<rparr>"
  have "x \<noteq> NULL_IDX" using d null_not_slot [OF pool] by auto
  then have "removeOrder q p x = Some (?q', p3, True)"
    using getNode_ok [OF pool d(3)] d(7,8) uf ur de by (simp add: removeOrder_def)
  moreover have "queue_ok p3 ?q' (ys @ zs)"
  proof -
    have "dlseg (nd p3) NULL_IDX (ys @ zs) NULL_IDX"
      unfolding c(3) by (rule dlseg_unlink [OF d(1,5,6) prev_def nxt_def a(5) b(5)])
    moreover have "q_count ?q' = of_nat (length (ys @ zs))"
      using que a(4) b(4) by (simp add: queue_ok_def)
    moreover have "distinct (ys @ zs)" "set (ys @ zs) \<subseteq> slots p3"
      using d(1,2) c(2) b(2) a(2) by auto
    moreover have "q_head ?q' = (if ys @ zs = [] then NULL_IDX else hd (ys @ zs))"
      "q_tail ?q' = (if ys @ zs = [] then NULL_IDX else last (ys @ zs))"
      by (simp_all add: b(4) a(4))
    ultimately show ?thesis unfolding queue_ok_def by blast
  qed
  moreover have "\<forall>i. n_order (nd p3 i) = n_order (nd p i)" by (simp add: c(3) b(5) a(5))
  moreover have "\<forall>i. i \<notin> set (ys @ x # zs) \<longrightarrow> nd p3 i = nd p i"
  proof (intro allI impI)
    fix i assume i: "i \<notin> set (ys @ x # zs)"
    then have "i \<noteq> x" "zs \<noteq> [] \<Longrightarrow> i \<noteq> hd zs" "ys \<noteq> [] \<Longrightarrow> i \<noteq> last ys" by auto
    then show "nd p3 i = nd p i" by (simp add: c(3) b(5) a(5))
  qed
  moreover have "slots p3 = slots p" "length (mp_nodes p3) = length (mp_nodes p)"
    "q_heap_entry ?q' = q_heap_entry q"
    by (simp_all add: a b c)
  ultimately show ?thesis using c(1) that by blast
qed

section \<open>A level as a list of orders\<close>

primrec chain :: "(u32 \<Rightarrow> OrderNode) \<Rightarrow> nat \<Rightarrow> u32 \<Rightarrow> u32 list" where
  "chain h 0 i = []"
| "chain h (Suc n) i = i # chain h n (n_next (h i))"

definition queue_orders :: "MemPool \<Rightarrow> PriceQueues \<Rightarrow> Order list" where
  "queue_orders p q = map (\<lambda>i. n_order (nd p i)) (chain (nd p) (unat (q_count q)) (q_head q))"

lemma chain_dlseg:
  "dlseg h b xs e \<Longrightarrow> a = (if xs = [] then a else hd xs) \<Longrightarrow> chain h (length xs) a = xs"
proof (induction xs arbitrary: a b)
  case (Cons x xs)
  then have "chain h (length xs) (n_next (h x)) = xs" by (intro Cons.IH [of x]) auto
  with Cons.prems show ?case by simp
qed simp

lemma length_slots:
  assumes "distinct xs" "set xs \<subseteq> slots p"
  shows "length xs \<le> length (mp_nodes p)"
proof -
  have "distinct (map unat xs)" using assms(1) by (simp add: distinct_map inj_on_def)
  moreover have "set (map unat xs) \<subseteq> {..<length (mp_nodes p)}" using assms(2) by (auto simp: slots_def)
  ultimately show ?thesis
    by (metis card_lessThan card_mono distinct_card finite_lessThan length_map)
qed

lemma unat_length_slots:
  assumes "pool_ok p fs" "distinct xs" "set xs \<subseteq> slots p"
  shows "unat (of_nat (length xs) :: u64) = length xs" "length xs < 2 ^ 31"
proof -
  show l: "length xs < 2 ^ 31" using length_slots [OF assms(2,3)] assms(1) by (simp add: pool_ok_def)
  then have "length xs < 2 ^ LENGTH(64)" by simp
  then show "unat (of_nat (length xs) :: u64) = length xs" by (simp only: unat_of_nat mod_less)
qed

lemma queue_ok_count:
  assumes "pool_ok p fs" "queue_ok p q xs"
  shows "unat (q_count q) = length xs" "isEmpty q \<longleftrightarrow> xs = []"
proof -
  show c: "unat (q_count q) = length xs"
    using unat_length_slots [OF assms(1), of xs] assms(2) by (simp add: queue_ok_def)
  have "isEmpty q \<longleftrightarrow> unat (q_count q) = 0" by (simp add: isEmpty_def unsigned_eq_0_iff)
  then show "isEmpty q \<longleftrightarrow> xs = []" by (simp add: c)
qed

lemma queue_orders_ok:
  assumes "pool_ok p fs" "queue_ok p q xs"
  shows "queue_orders p q = map (\<lambda>i. n_order (nd p i)) xs"
proof -
  have "chain (nd p) (length xs) (q_head q) = xs"
    using assms(2) by (intro chain_dlseg) (auto simp: queue_ok_def)
  then show ?thesis by (simp add: queue_orders_def queue_ok_count [OF assms])
qed

lemma gethead_ok:
  assumes "pool_ok p fs" "queue_ok p q (x # xs)"
  shows "gethead q p = Some (nd p x)" "q_head q = x"
  using assms getNode_ok [OF assms(1), of x] by (auto simp: queue_ok_def gethead_def)

lemma queue_ok_frame:
  assumes "queue_ok p q xs" "\<forall>i \<in> set xs. nd p' i = nd p i" "slots p' = slots p"
  shows "queue_ok p' q xs"
proof -
  have "dlseg (nd p') NULL_IDX xs NULL_IDX = dlseg (nd p) NULL_IDX xs NULL_IDX"
    using assms(2) by (intro dlseg_cong) auto
  with assms show ?thesis by (simp add: queue_ok_def)
qed

lemma queue_ok_heap_entry [simp]: "queue_ok p (set_heap_entry q v) xs = queue_ok p q xs"
  by (simp add: queue_ok_def set_heap_entry_def)

lemma queue_ok_new: "queue_ok p PriceQueues_new []"
  by (simp add: queue_ok_def PriceQueues_new_def)

section \<open>The new pool\<close>

lemma link_fold:
  assumes "n \<le> length ns"
  shows "length (fold link_next [0..<n] ns) = length ns \<and>
    (\<forall>j < length ns. fold link_next [0..<n] ns ! j =
       (if j < n then (ns ! j)\<lparr>n_next := of_nat (j + 1)\<rparr> else ns ! j))"
  using assms
proof (induction n)
  case (Suc n)
  then show ?case by (simp add: link_next_def nth_list_update del: of_nat_add)
qed simp

lemma fchain_upt:
  assumes "\<forall>i. m \<le> i \<and> Suc i < n \<longrightarrow> n_next (h (of_nat i)) = of_nat (Suc i)"
    "n_next (h (of_nat (n - 1))) = NULL_IDX" "m < n"
  shows "fchain h (of_nat m) (map of_nat [m..<n])"
  using assms
proof (induction "n - m" arbitrary: m)
  case (Suc d)
  show ?case
  proof (cases "Suc m = n")
    case True
    then show ?thesis using Suc.prems by (auto simp: upt_conv_Cons)
  next
    case False
    then have "Suc m < n" using Suc.prems by simp
    then have "fchain h (of_nat (Suc m)) (map of_nat [Suc m..<n])"
      using Suc by (intro Suc.hyps) auto
    then show ?thesis using Suc.prems \<open>Suc m < n\<close> by (simp add: upt_conv_Cons del: upt_Suc)
  qed
qed simp

lemma MemPool_new_ok:
  assumes "ns \<noteq> []" "length ns < 2 ^ 31"
  obtains p where "MemPool_new (Some ns) = Some (Inr p)" "pool_ok p (map of_nat [0..<length ns])"
    "length (mp_nodes p) = length ns"
proof -
  let ?n = "length ns"
  let ?link = "fold link_next [0..<?n - Suc 0] ns"
  let ?cl = "?link[?n - Suc 0 := (?link ! (?n - Suc 0))\<lparr>n_next := NULL_IDX\<rparr>]"
  let ?p = "\<lparr>mp_nodes = ?cl, mp_freeHead = 0, mp_used = 0, mp_capacity = of_nat ?n\<rparr>"
  have link: "length ?link = ?n" "\<And>j. j < ?n - Suc 0 \<Longrightarrow> ?link ! j = (ns ! j)\<lparr>n_next := of_nat (j + 1)\<rparr>"
    using link_fold [of "?n - Suc 0" ns] by auto
  have len: "length (mp_nodes ?p) = ?n" by (simp add: link)
  have unat: "unat (of_nat i :: u32) = i" if "i < ?n" for i
    using that assms(2) by (simp add: unat_of_nat)
  have "fchain (nd ?p) (of_nat 0) (map of_nat [0..<?n])"
  proof (rule fchain_upt)
    show "\<forall>i. 0 \<le> i \<and> Suc i < ?n \<longrightarrow> n_next (nd ?p (of_nat i)) = of_nat (Suc i)"
      by (auto simp: nd_def link unat)
    show "n_next (nd ?p (of_nat (?n - 1))) = NULL_IDX"
      using assms(1) by (simp add: nd_def link unat)
  qed (use assms in simp)
  moreover have "distinct (map (of_nat :: nat \<Rightarrow> u32) [0..<?n])"
  proof -
    have "inj_on (of_nat :: nat \<Rightarrow> u32) {0..<?n}" using unat by (metis (no_types) atLeastLessThan_iff inj_onI)
    then show ?thesis by (simp add: distinct_map)
  qed
  moreover have "set (map of_nat [0..<?n]) \<subseteq> slots ?p" using len unat by (auto simp: slots_def)
  ultimately have "pool_ok ?p (map of_nat [0..<?n])" using len assms by (simp add: pool_ok_def)
  then show ?thesis using assms len by (intro that [of ?p]) (auto simp: MemPool_new_def Let_def)
qed

section \<open>Properties of the pool and of a price level\<close>

text \<open>
  The pool constructor links all nodes of the block into the free list, in order.
\<close>

theorem new_pool_all_free:
  assumes "ns \<noteq> []" "length ns < 2 ^ 31"
  shows "\<exists>p. MemPool_new (Some ns) = Some (Inr p) \<and> pool_ok p (map of_nat [0..<length ns])"
  by (rule MemPool_new_ok [OF assms]) auto

definition pool_sample :: OrderNode where
  "pool_sample = \<lparr>n_order = \<lparr>o_order_id = 0, o_execution_type = LIMIT, o_price = 0, o_timestamp = 0, o_trader_id = 0,
     o_type = BUY, o_symbol_id = 0, o_quantity = 0, o_client_order_id = 0\<rparr>, n_next = 9, n_back = 9\<rparr>"

theorem new_pool_all_free_witness:
  "\<exists>p. MemPool_new (Some [pool_sample, pool_sample]) = Some (Inr p) \<and> pool_ok p [0, 1]"
  using new_pool_all_free [of "[pool_sample, pool_sample]"] by (simp add: upt_rec [of 0] upt_rec [of "Suc 0"])

text \<open>
  Inserting into a price level: with a free node the order is appended to the level's queue and the free list gets
  one shorter; with none the call returns the null index and changes nothing. No other node's order changes.
\<close>

theorem insertOrder_appends:
  assumes "pool_ok p fs" "queue_ok p q xs" "set xs \<inter> set fs = {}"
  shows "\<exists>q' p' idx. insertOrder q p order = Some (q', p', idx) \<and>
    (case fs of
       [] \<Rightarrow> q' = q \<and> p' = p \<and> idx = NULL_IDX
     | f # rest \<Rightarrow> idx = f \<and> pool_ok p' rest \<and> queue_ok p' q' (xs @ [f]) \<and>
         queue_orders p' q' = queue_orders p q @ [order])"
proof (cases fs)
  case Nil
  then show ?thesis using insertOrder_full assms(1) by auto
next
  case (Cons f rest)
  obtain q' p' where r: "insertOrder q p order = Some (q', p', f)" "pool_ok p' rest" "queue_ok p' q' (xs @ [f])"
    "slots p' = slots p" "q_heap_entry q' = q_heap_entry q" "n_order (nd p' f) = order"
    "\<forall>i. i \<noteq> f \<longrightarrow> n_order (nd p' i) = n_order (nd p i)"
    by (rule insertOrder_ok [OF assms(1) [unfolded Cons] assms(2,3) [unfolded Cons]])
  have "f \<notin> set xs" using assms(3) Cons by auto
  then have "map (\<lambda>i. n_order (nd p' i)) xs = map (\<lambda>i. n_order (nd p i)) xs" using r(7) by auto
  then have "queue_orders p' q' = queue_orders p q @ [order]"
    using queue_orders_ok [OF r(2,3)] queue_orders_ok [OF assms(1,2)] r(6) by simp
  then show ?thesis using r Cons by simp
qed

theorem insertOrder_appends_witness:
  "\<exists>p q' p'. MemPool_new (Some [pool_sample, pool_sample]) = Some (Inr p) \<and>
    insertOrder PriceQueues_new p (n_order pool_sample) = Some (q', p', 0) \<and> queue_orders p' q' = [n_order pool_sample]"
proof -
  obtain p where p: "MemPool_new (Some [pool_sample, pool_sample]) = Some (Inr p)"
    "pool_ok p (map of_nat [0..<length [pool_sample, pool_sample]])"
    by (rule MemPool_new_ok [of "[pool_sample, pool_sample]"]) auto
  then have ok: "pool_ok p [0, 1]" by (simp add: upt_rec [of 0] upt_rec [of "Suc 0"])
  have "queue_orders p PriceQueues_new = []" using queue_orders_ok [OF ok queue_ok_new] by simp
  then show ?thesis using p insertOrder_appends [OF ok queue_ok_new, of "n_order pool_sample"] by auto
qed

text \<open>
  Removing from a price level: whatever place the node has, the remaining orders keep their sequence, the node
  becomes the head of the free list, and no access leaves the pool.
\<close>

theorem removeOrder_removes:
  assumes "pool_ok p fs" "queue_ok p q (ys @ x # zs)" "set (ys @ x # zs) \<inter> set fs = {}"
  shows "\<exists>q' p'. removeOrder q p x = Some (q', p', True) \<and> pool_ok p' (x # fs) \<and> queue_ok p' q' (ys @ zs) \<and>
    queue_orders p' q' = take (length ys) (queue_orders p q) @ drop (Suc (length ys)) (queue_orders p q)"
proof -
  obtain q' p' where r: "removeOrder q p x = Some (q', p', True)" "pool_ok p' (x # fs)" "queue_ok p' q' (ys @ zs)"
    "slots p' = slots p" "q_heap_entry q' = q_heap_entry q" "\<forall>i. n_order (nd p' i) = n_order (nd p i)"
    by (rule removeOrder_ok [OF assms])
  have "queue_orders p' q' = take (length ys) (queue_orders p q) @ drop (Suc (length ys)) (queue_orders p q)"
    using queue_orders_ok [OF r(2,3)] queue_orders_ok [OF assms(1,2)] r(6) by simp
  then show ?thesis using r by blast
qed

theorem removeOrder_removes_witness:
  "\<exists>p q1 p1 q2 p2. MemPool_new (Some [pool_sample, pool_sample]) = Some (Inr p) \<and>
    insertOrder PriceQueues_new p (n_order pool_sample) = Some (q1, p1, 0) \<and>
    removeOrder q1 p1 0 = Some (q2, p2, True) \<and> queue_orders p2 q2 = []"
proof -
  obtain p where p: "MemPool_new (Some [pool_sample, pool_sample]) = Some (Inr p)"
    "pool_ok p (map of_nat [0..<length [pool_sample, pool_sample]])"
    by (rule MemPool_new_ok [of "[pool_sample, pool_sample]"]) auto
  then have ok: "pool_ok p [0, 1]" by (simp add: upt_rec [of 0] upt_rec [of "Suc 0"])
  obtain q1 p1 where i: "insertOrder PriceQueues_new p (n_order pool_sample) = Some (q1, p1, 0)" "pool_ok p1 [1]"
    "queue_ok p1 q1 ([] @ [0])" by (rule insertOrder_ok [OF ok queue_ok_new]) auto
  then have "queue_ok p1 q1 ([] @ 0 # [])" by simp
  from removeOrder_removes [OF i(2) this]
  obtain q2 p2 where r: "removeOrder q1 p1 0 = Some (q2, p2, True)" "queue_ok p2 q2 []" "pool_ok p2 [0, 1]" by auto
  then have "queue_orders p2 q2 = []" using queue_orders_ok by fastforce
  then show ?thesis using p(1) i(1) r(1) by blast
qed

end
