(* ===== verification/Price_Heap.thy ===== *)
theory Price_Heap
  imports Prelude
begin

text \<open>
  What the program uses of the standard library's heaps: \<open>std::priority_queue\<close> (the two price heaps
  of an order book) and \<open>std::push_heap\<close>/\<open>std::pop_heap\<close> on a vector (the stop-loss registries). Both
  take a comparison \<open>cmp\<close>, where \<open>cmp x y\<close> says that \<open>x\<close> has lower priority than \<open>y\<close>; the front is an
  element no other element beats. The model keeps the elements in priority order; which of several
  elements of equal priority comes first is not specified by the library, and no theorem
  depends on it.
\<close>

fun heap_push :: "('a \<Rightarrow> 'a \<Rightarrow> bool) \<Rightarrow> 'a \<Rightarrow> 'a list \<Rightarrow> 'a list" where
  "heap_push cmp x [] = [x]"
| "heap_push cmp x (y # ys) = (if cmp y x then x # y # ys else y # heap_push cmp x ys)"

definition heap_top :: "'a list \<Rightarrow> 'a option" where
  "heap_top h = (case h of [] \<Rightarrow> None | x # _ \<Rightarrow> Some x)"

definition heap_pop :: "'a list \<Rightarrow> 'a list" where
  "heap_pop h = tl h"

definition heap_sorted :: "('a \<Rightarrow> 'a \<Rightarrow> bool) \<Rightarrow> 'a list \<Rightarrow> bool" where
  "heap_sorted cmp h \<longleftrightarrow> sorted_wrt (\<lambda>x y. \<not> cmp x y) h"

text \<open>The contract, for any comparison the library accepts (a strict weak order).\<close>

locale priority_queue =
  fixes cmp :: "'a \<Rightarrow> 'a \<Rightarrow> bool"
    and push :: "'a \<Rightarrow> 'q \<Rightarrow> 'q"
    and top :: "'q \<Rightarrow> 'a option"
    and pop :: "'q \<Rightarrow> 'q"
    and elems :: "'q \<Rightarrow> 'a multiset"
    and inv :: "'q \<Rightarrow> bool"
  assumes elems_push: "inv q \<Longrightarrow> elems (push x q) = add_mset x (elems q)"
    and inv_push: "inv q \<Longrightarrow> inv (push x q)"
    and top_None: "inv q \<Longrightarrow> top q = None \<longleftrightarrow> elems q = {#}"
    and top_Some: "inv q \<Longrightarrow> top q = Some x \<Longrightarrow> x \<in># elems q \<and> (\<forall>y \<in># elems q. \<not> cmp x y)"
    and elems_pop: "inv q \<Longrightarrow> top q = Some x \<Longrightarrow> elems (pop q) = elems q - {#x#}"
    and inv_pop: "inv q \<Longrightarrow> inv (pop q)"
begin

lemma size_pop: "inv q \<Longrightarrow> top q = Some x \<Longrightarrow> Suc (size (elems (pop q))) = size (elems q)"
  using elems_pop [of q x] top_Some [of q x] size_Suc_Diff1 [of x "elems q"] by simp

end

lemma set_heap_push [simp]: "set (heap_push cmp x h) = insert x (set h)"
  by (induction h) auto

lemma mset_heap_push [simp]: "mset (heap_push cmp x h) = add_mset x (mset h)"
  by (induction h) auto

lemma heap_push_sorted:
  assumes asym: "\<And>x y. cmp x y \<Longrightarrow> \<not> cmp y x"
    and ntrans: "\<And>x y z. \<not> cmp x y \<Longrightarrow> \<not> cmp y z \<Longrightarrow> \<not> cmp x z"
  shows "heap_sorted cmp h \<Longrightarrow> heap_sorted cmp (heap_push cmp x h)"
proof (induction h)
  case Nil
  then show ?case by (simp add: heap_sorted_def)
next
  case (Cons y ys)
  show ?case
  proof (cases "cmp y x")
    case True
    then have "\<not> cmp x z" if "z \<in> set (y # ys)" for z
      using that asym [OF True] Cons.prems ntrans [of x y z] by (auto simp: heap_sorted_def)
    with True Cons.prems show ?thesis by (simp add: heap_sorted_def)
  next
    case False
    with Cons show ?thesis by (auto simp: heap_sorted_def)
  qed
qed

lemma heap_priority_queue:
  assumes "\<And>x y. cmp x y \<Longrightarrow> \<not> cmp y x"
    and "\<And>x y z. \<not> cmp x y \<Longrightarrow> \<not> cmp y z \<Longrightarrow> \<not> cmp x z"
  shows "priority_queue cmp (heap_push cmp) heap_top heap_pop mset (heap_sorted cmp)"
proof
  show "heap_sorted cmp (heap_push cmp x q)" if "heap_sorted cmp q" for q x
    by (rule heap_push_sorted [OF assms that])
  show "heap_sorted cmp (heap_pop q)" if "heap_sorted cmp q" for q
    using that by (cases q) (auto simp: heap_sorted_def heap_pop_def)
  show "x \<in># mset q \<and> (\<forall>y \<in># mset q. \<not> cmp x y)" if "heap_sorted cmp q" "heap_top q = Some x" for q x
    using that assms(1) [of x x] by (cases q) (auto simp: heap_sorted_def heap_top_def)
  show "mset (heap_pop q) = mset q - {#x#}" if "heap_top q = Some x" for q x
    using that by (cases q) (auto simp: heap_top_def heap_pop_def)
qed (auto simp: heap_top_def split: list.splits)

text \<open>
  \<open>BuyPriceHeap\<close> compares with \<open>std::less\<close> (the front is the highest price), \<open>SellPriceHeap\<close> with
  \<open>std::greater\<close> (the front is the lowest price).
\<close>

interpretation buy_heap: priority_queue "(<) :: u64 \<Rightarrow> u64 \<Rightarrow> bool" "heap_push (<)" heap_top heap_pop
  mset "heap_sorted (<)"
  by (rule heap_priority_queue) auto

interpretation sell_heap: priority_queue "(>) :: u64 \<Rightarrow> u64 \<Rightarrow> bool" "heap_push (>)" heap_top heap_pop
  mset "heap_sorted (>)"
  by (rule heap_priority_queue) auto

end
