(* ===== verification/Order_Book.thy ===== *)
theory Order_Book
  imports Mem_Pool Price_Heap
begin

text \<open>
  \<open>OrderBook\<close> and \<open>OrderBookManager\<close> of \<^verbatim>\<open>src/include/order_book.h\<close>. A book keeps one queue per
  price of its band \<open>[lower_limit, upper_limit]\<close>, a heap of prices per side whose last entry is
  a price outside the band (the default best price), a map from order ids to nodes, and the total
  resting quantity per side. \<open>None\<close> is an access outside an array or through a null link.
\<close>

section \<open>The book and its operations\<close>

record OrderBook =
  b_lower_limit :: u64
  b_upper_limit :: u64
  b_PRICE_LEVELS :: u64
  b_price_levels :: "PriceQueues list"
  b_next_buy_price :: "u64 list"
  b_next_sell_price :: "u64 list"
  b_pool :: MemPool
  b_orderMap :: "u64 \<rightharpoonup> u32"
  b_default_best_buy_price :: u64
  b_default_best_sell_price :: u64
  b_total_buy_qty :: u64
  b_total_sell_qty :: u64

text \<open>
  The constructor. The initialiser list does not mention \<open>total_buy_qty\<close> and \<open>total_sell_qty\<close>: their
  first values are whatever the memory held, here the arguments \<open>buy0\<close> and \<open>sell0\<close>. \<open>mem\<close> is the block
  \<open>malloc\<close> returned for the pool.
\<close>

definition OrderBook_new ::
    "OrderNode list option \<Rightarrow> u64 \<Rightarrow> u64 \<Rightarrow> u64 \<Rightarrow> u64 \<Rightarrow> (engine_exn + OrderBook) option" where
  "OrderBook_new mem buy0 sell0 lower_price upper_price = (case MemPool_new mem of
     None \<Rightarrow> None
   | Some (Inl e) \<Rightarrow> Some (Inl e)
   | Some (Inr pool) \<Rightarrow>
       (let levels = upper_price - lower_price + 1;
            dbuy = (if lower_price > 0 then lower_price - 1 else 0);
            dsell = (if upper_price = 0xFFFFFFFFFFFFFFFF then 0xFFFFFFFFFFFFFFFF else upper_price + 1)
        in Some (Inr \<lparr>b_lower_limit = lower_price, b_upper_limit = upper_price, b_PRICE_LEVELS = levels,
             b_price_levels = replicate (unat levels) PriceQueues_new,
             b_next_buy_price = heap_push (<) dbuy [], b_next_sell_price = heap_push (>) dsell [],
             b_pool = pool, b_orderMap = Map.empty,
             b_default_best_buy_price = dbuy, b_default_best_sell_price = dsell,
             b_total_buy_qty = buy0, b_total_sell_qty = sell0\<rparr>)))"

text \<open>
  \<open>static_cast<int>(price) - lower_limit\<close>: the \<open>int\<close> is converted to 64 bits with its sign, the
  difference wraps, and the result is cut to an \<open>int\<close> again.
\<close>

definition priceToIndex :: "OrderBook \<Rightarrow> u64 \<Rightarrow> int" where
  "priceToIndex b price = sint (ucast (scast (ucast price :: u32) - b_lower_limit b :: u64) :: u32)"

text \<open>\<open>price_levels[idx]\<close> with an \<open>int\<close> index, for reading and for writing.\<close>

definition getpricelevels :: "OrderBook \<Rightarrow> int \<Rightarrow> PriceQueues option" where
  "getpricelevels b idx =
     (if 0 \<le> idx \<and> idx < int (length (b_price_levels b)) then Some (b_price_levels b ! nat idx) else None)"

definition set_level :: "OrderBook \<Rightarrow> int \<Rightarrow> PriceQueues \<Rightarrow> OrderBook" where
  "set_level b idx q = b\<lparr>b_price_levels := (b_price_levels b)[nat idx := q]\<rparr>"

function bestbuyprice :: "OrderBook \<Rightarrow> (OrderBook \<times> u64) option" where
  "bestbuyprice b = (case heap_top (b_next_buy_price b) of
     None \<Rightarrow> None
   | Some best \<Rightarrow>
       (if best \<noteq> b_default_best_buy_price b then
          (case getpricelevels b (priceToIndex b best) of
             None \<Rightarrow> None
           | Some q \<Rightarrow>
               (if isEmpty q
                then bestbuyprice
                  ((set_level b (priceToIndex b best) (set_heap_entry q False))
                     \<lparr>b_next_buy_price := heap_pop (b_next_buy_price b)\<rparr>)
                else Some (b, best)))
        else Some (b, best)))"
  by pat_completeness auto
termination
  by (relation "measure (\<lambda>b. length (b_next_buy_price b))")
    (auto simp: heap_top_def heap_pop_def split: list.splits)

function bestsellprice :: "OrderBook \<Rightarrow> (OrderBook \<times> u64) option" where
  "bestsellprice b = (case heap_top (b_next_sell_price b) of
     None \<Rightarrow> None
   | Some best \<Rightarrow>
       (if best \<noteq> b_default_best_sell_price b then
          (case getpricelevels b (priceToIndex b best) of
             None \<Rightarrow> None
           | Some q \<Rightarrow>
               (if isEmpty q
                then bestsellprice
                  ((set_level b (priceToIndex b best) (set_heap_entry q False))
                     \<lparr>b_next_sell_price := heap_pop (b_next_sell_price b)\<rparr>)
                else Some (b, best)))
        else Some (b, best)))"
  by pat_completeness auto
termination
  by (relation "measure (\<lambda>b. length (b_next_sell_price b))")
    (auto simp: heap_top_def heap_pop_def split: list.splits)

declare bestbuyprice.simps [simp del] bestsellprice.simps [simp del]

text \<open>In \<open>index>=PRICE_LEVELS\<close> the \<open>int\<close> is converted to \<open>size_t\<close>.\<close>

definition addBuyOrder :: "OrderBook \<Rightarrow> Order \<Rightarrow> (OrderBook \<times> bool) option" where
  "addBuyOrder b order =
     (let index = priceToIndex b (o_price order) in
      if index < 0 \<or> word_of_int index \<ge> b_PRICE_LEVELS b then Some (b, False)
      else do {
        q \<leftarrow> getpricelevels b index;
        (q1, p1, idx) \<leftarrow> insertOrder q (b_pool b) order;
        if idx = NULL_IDX then Some ((set_level b index q1)\<lparr>b_pool := p1\<rparr>, False)
        else Some ((set_level b index (set_heap_entry q1 True))
               \<lparr>b_pool := p1,
                b_orderMap := (b_orderMap b)(o_order_id order \<mapsto> idx),
                b_next_buy_price :=
                  (if isEmpty q \<and> \<not> has_heap_entry q then heap_push (<) (o_price order) (b_next_buy_price b)
                   else b_next_buy_price b),
                b_total_buy_qty := b_total_buy_qty b + ucast (o_quantity order)\<rparr>, True)
      })"

definition addSellOrder :: "OrderBook \<Rightarrow> Order \<Rightarrow> (OrderBook \<times> bool) option" where
  "addSellOrder b order =
     (let index = priceToIndex b (o_price order) in
      if index < 0 \<or> word_of_int index \<ge> b_PRICE_LEVELS b then Some (b, False)
      else do {
        q \<leftarrow> getpricelevels b index;
        (q1, p1, idx) \<leftarrow> insertOrder q (b_pool b) order;
        if idx = NULL_IDX then Some ((set_level b index q1)\<lparr>b_pool := p1\<rparr>, False)
        else Some ((set_level b index (set_heap_entry q1 True))
               \<lparr>b_pool := p1,
                b_orderMap := (b_orderMap b)(o_order_id order \<mapsto> idx),
                b_next_sell_price :=
                  (if isEmpty q \<and> \<not> has_heap_entry q then heap_push (>) (o_price order) (b_next_sell_price b)
                   else b_next_sell_price b),
                b_total_sell_qty := b_total_sell_qty b + ucast (o_quantity order)\<rparr>, True)
      })"

text \<open>\<open>findOrder\<close> returns a pointer, null when the id is unknown.\<close>

definition findOrder :: "OrderBook \<Rightarrow> u64 \<Rightarrow> Order option option" where
  "findOrder b order_id = (case b_orderMap b order_id of
     None \<Rightarrow> Some None
   | Some idx \<Rightarrow> do { n \<leftarrow> getNode (b_pool b) idx; Some (Some (n_order n)) })"

definition removeBuyOrder :: "OrderBook \<Rightarrow> u64 \<Rightarrow> (OrderBook \<times> bool) option" where
  "removeBuyOrder b price =
     (let idx = priceToIndex b price in
      do {
        q \<leftarrow> getpricelevels b idx;
        if isEmpty q then Some (b, False)
        else do {
          h \<leftarrow> gethead q (b_pool b);
          (case b_orderMap b (o_order_id (n_order h)) of
             None \<Rightarrow> Some (b, False)
           | Some index \<Rightarrow> do {
               (q1, p1, removed) \<leftarrow> removeOrder q (b_pool b) index;
               (let b1 = (set_level b idx q1)\<lparr>b_pool := p1\<rparr> in
                if removed
                then Some (b1\<lparr>b_orderMap := (b_orderMap b)(o_order_id (n_order h) := None),
                         b_total_buy_qty := b_total_buy_qty b - ucast (o_quantity (n_order h))\<rparr>, True)
                else Some (b1, False))
             })
        }
      })"

definition removeSellOrder :: "OrderBook \<Rightarrow> u64 \<Rightarrow> (OrderBook \<times> bool) option" where
  "removeSellOrder b price =
     (let idx = priceToIndex b price in
      do {
        q \<leftarrow> getpricelevels b idx;
        if isEmpty q then Some (b, False)
        else do {
          h \<leftarrow> gethead q (b_pool b);
          (case b_orderMap b (o_order_id (n_order h)) of
             None \<Rightarrow> Some (b, False)
           | Some index \<Rightarrow> do {
               (q1, p1, removed) \<leftarrow> removeOrder q (b_pool b) index;
               (let b1 = (set_level b idx q1)\<lparr>b_pool := p1\<rparr> in
                if removed
                then Some (b1\<lparr>b_orderMap := (b_orderMap b)(o_order_id (n_order h) := None),
                         b_total_sell_qty := b_total_sell_qty b - ucast (o_quantity (n_order h))\<rparr>, True)
                else Some (b1, False))
             })
        }
      })"

definition cancelOrder :: "OrderBook \<Rightarrow> u64 \<Rightarrow> (OrderBook \<times> bool) option" where
  "cancelOrder b order_id = (case b_orderMap b order_id of
     None \<Rightarrow> Some (b, False)
   | Some idx \<Rightarrow> do {
       node \<leftarrow> getNode (b_pool b) idx;
       let i = priceToIndex b (o_price (n_order node));
       q \<leftarrow> getpricelevels b i;
       (q1, p1, removed) \<leftarrow> removeOrder q (b_pool b) idx;
       Some ((set_level b i q1)\<lparr>b_pool := p1, b_orderMap := (b_orderMap b)(order_id := None)\<rparr>, removed)
     })"

definition modifyQuantity :: "OrderBook \<Rightarrow> u64 \<Rightarrow> u32 \<Rightarrow> (OrderBook \<times> bool) option" where
  "modifyQuantity b price new_qty =
     (let idx = priceToIndex b price in
      if idx < 0 \<or> word_of_int idx \<ge> b_PRICE_LEVELS b then Some (b, False)
      else do {
        q \<leftarrow> getpricelevels b idx;
        if isEmpty q then Some (b, False)
        else do {
          p1 \<leftarrow> updNode (b_pool b) (q_head q) (\<lambda>n. n\<lparr>n_order := (n_order n)\<lparr>o_quantity := new_qty\<rparr>\<rparr>);
          Some (b\<lparr>b_pool := p1\<rparr>, True)
        }
      })"

definition getTotalBuyQty :: "OrderBook \<Rightarrow> u64" where "getTotalBuyQty b = b_total_buy_qty b"
definition getTotalSellQty :: "OrderBook \<Rightarrow> u64" where "getTotalSellQty b = b_total_sell_qty b"
definition getTotalQty :: "OrderBook \<Rightarrow> u64" where "getTotalQty b = b_total_buy_qty b + b_total_sell_qty b"

definition decreaseTotalBuyQty :: "OrderBook \<Rightarrow> u32 \<Rightarrow> OrderBook" where
  "decreaseTotalBuyQty b qty = b\<lparr>b_total_buy_qty := b_total_buy_qty b - ucast qty\<rparr>"

definition decreaseTotalSellQty :: "OrderBook \<Rightarrow> u32 \<Rightarrow> OrderBook" where
  "decreaseTotalSellQty b qty = b\<lparr>b_total_sell_qty := b_total_sell_qty b - ucast qty\<rparr>"

definition isPriceValid :: "OrderBook \<Rightarrow> u64 \<Rightarrow> bool" where
  "isPriceValid b price \<longleftrightarrow> price \<ge> b_lower_limit b \<and> price \<le> b_upper_limit b"

section \<open>The books of a group\<close>

record OrderBookManager =
  bm_books :: "OrderBook option list"
  bm_max_books :: nat

definition OrderBookManager_new :: "nat \<Rightarrow> OrderBookManager" where
  "OrderBookManager_new number_of_books =
     \<lparr>bm_books = replicate number_of_books None, bm_max_books = number_of_books\<rparr>"

definition bm_get :: "OrderBookManager \<Rightarrow> u32 \<Rightarrow> engine_exn + OrderBook" where
  "bm_get m symbol_id =
     (if unat symbol_id \<ge> bm_max_books m then Inl out_of_range
      else case bm_books m ! unat symbol_id of None \<Rightarrow> Inl out_of_range | Some b \<Rightarrow> Inr b)"

text \<open>The caller of \<open>get\<close> holds a reference: its changes are stored back.\<close>

definition bm_put :: "OrderBookManager \<Rightarrow> u32 \<Rightarrow> OrderBook \<Rightarrow> OrderBookManager" where
  "bm_put m symbol_id b = m\<lparr>bm_books := (bm_books m)[unat symbol_id := Some b]\<rparr>"

definition bm_addBook :: "OrderBookManager \<Rightarrow> u32 \<Rightarrow> OrderNode list option \<Rightarrow> u64 \<Rightarrow> u64 \<Rightarrow> u64 \<Rightarrow> u64 \<Rightarrow>
    (engine_exn + OrderBookManager) option" where
  "bm_addBook m symbol_id mem buy0 sell0 lower_price upper_price =
     (if unat symbol_id \<ge> bm_max_books m then Some (Inl out_of_range)
      else case OrderBook_new mem buy0 sell0 lower_price upper_price of
             None \<Rightarrow> None
           | Some (Inl e) \<Rightarrow> Some (Inl e)
           | Some (Inr b) \<Rightarrow> Some (Inr (bm_put m symbol_id b)))"

declare priceToIndex_def [book_defs] getpricelevels_def [book_defs] set_level_def [book_defs]
  addBuyOrder_def [book_defs] addSellOrder_def [book_defs] findOrder_def [book_defs]
  removeBuyOrder_def [book_defs] removeSellOrder_def [book_defs] cancelOrder_def [book_defs]
  modifyQuantity_def [book_defs] getTotalBuyQty_def [book_defs] getTotalSellQty_def [book_defs]
  decreaseTotalBuyQty_def [book_defs] decreaseTotalSellQty_def [book_defs] isPriceValid_def [book_defs]

end
