(* ===== verification/Book_View.thy ===== *)
theory Book_View
  imports Order_Book
begin

text \<open>
  The shape of an order book: the price band and the arithmetic of \<open>priceToIndex\<close>, and the predicate
  \<open>book_view b qs fs\<close>, which says that the node pool of \<open>b\<close> is partitioned into the level queues
  \<open>qs 0, qs 1, \<dots>\<close> and the free list \<open>fs\<close>, that every order rests at the level of its price, and that
  the id map knows exactly the resting orders. Inserting, removing and modifying nodes keep it.
\<close>


section \<open>The price band\<close>

definition band_ok :: "OrderBook \<Rightarrow> bool" where
  "band_ok b \<longleftrightarrow> 0 < b_lower_limit b \<and> b_lower_limit b \<le> b_upper_limit b \<and>
     b_upper_limit b < 0xFFFFFFFFFFFFFFFF \<and>
     b_PRICE_LEVELS b = b_upper_limit b - b_lower_limit b + 1 \<and>
     unat (b_PRICE_LEVELS b) = length (b_price_levels b) \<and> length (b_price_levels b) < 2 ^ 31 \<and>
     b_default_best_buy_price b = b_lower_limit b - 1 \<and>
     b_default_best_sell_price b = b_upper_limit b + 1"

definition price_of :: "OrderBook \<Rightarrow> nat \<Rightarrow> u64" where
  "price_of b i = b_lower_limit b + of_nat i"

lemma levels_count:
  assumes "band_ok b"
  shows "length (b_price_levels b) = Suc (unat (b_upper_limit b) - unat (b_lower_limit b))"
proof -
  have le: "unat (b_lower_limit b) \<le> unat (b_upper_limit b)" and
    up: "unat (b_upper_limit b) < 2 ^ 64 - 1"
    using assms by (auto simp: band_ok_def word_le_nat_alt word_less_nat_alt)
  have "unat (b_upper_limit b - b_lower_limit b) = unat (b_upper_limit b) - unat (b_lower_limit b)"
    using le by (simp add: unat_sub word_le_nat_alt)
  moreover from this have "unat (b_upper_limit b - b_lower_limit b + 1)
      = Suc (unat (b_upper_limit b - b_lower_limit b))"
    using up by (intro unat_Suc_word) simp
  ultimately show ?thesis using assms unfolding band_ok_def by metis
qed

lemma unat_price_of:
  assumes "band_ok b" "i < length (b_price_levels b)"
  shows "unat (price_of b i) = unat (b_lower_limit b) + i"
proof -
  have "unat (b_lower_limit b) \<le> unat (b_upper_limit b)"
    using assms(1) by (simp add: band_ok_def word_le_nat_alt)
  then have *: "unat (b_lower_limit b) + i \<le> unat (b_upper_limit b)"
    using levels_count [OF assms(1)] assms(2) by simp
  then have "unat (b_lower_limit b) + i < 2 ^ LENGTH(64)"
    using unsigned_less [of "b_upper_limit b", where 'a = nat] by linarith
  moreover from * have "i < 2 ^ LENGTH(64)"
    using unsigned_less [of "b_upper_limit b", where 'a = nat] by linarith
  ultimately show ?thesis
    by (simp add: price_of_def unat_word_ariths unat_of_nat)
qed

lemma price_of_inject:
  assumes "band_ok b" "i < length (b_price_levels b)" "j < length (b_price_levels b)"
  shows "price_of b i = price_of b j \<longleftrightarrow> i = j" "price_of b i < price_of b j \<longleftrightarrow> i < j"
    "price_of b i \<le> price_of b j \<longleftrightarrow> i \<le> j"
proof -
  note u = unat_price_of [OF assms(1,2)] unat_price_of [OF assms(1,3)]
  show "price_of b i < price_of b j \<longleftrightarrow> i < j" "price_of b i \<le> price_of b j \<longleftrightarrow> i \<le> j"
    by (simp_all add: word_less_nat_alt word_le_nat_alt u)
  show "price_of b i = price_of b j \<longleftrightarrow> i = j"
    using u by (metis add_left_cancel)
qed

lemma valid_price_of:
  assumes "band_ok b"
  shows "isPriceValid b p \<longleftrightarrow> (\<exists>i < length (b_price_levels b). p = price_of b i)"
proof
  assume "isPriceValid b p"
  then have v: "unat (b_lower_limit b) \<le> unat p" "unat p \<le> unat (b_upper_limit b)"
    by (auto simp: isPriceValid_def word_le_nat_alt)
  let ?i = "unat p - unat (b_lower_limit b)"
  have i: "?i < length (b_price_levels b)" using v levels_count [OF assms] by simp
  then have "unat (price_of b ?i) = unat p" using unat_price_of [OF assms i] v by simp
  then show "\<exists>i < length (b_price_levels b). p = price_of b i" using i by auto
next
  assume "\<exists>i < length (b_price_levels b). p = price_of b i"
  then obtain i where i: "i < length (b_price_levels b)" and p: "p = price_of b i" by blast
  have "unat (b_lower_limit b) \<le> unat (b_upper_limit b)"
    using assms by (simp add: band_ok_def word_le_nat_alt)
  with i show "isPriceValid b p"
    using levels_count [OF assms] by (simp add: isPriceValid_def word_le_nat_alt p unat_price_of [OF assms])
qed

lemma ucast_sub_down:
  fixes x y :: u64
  shows "(ucast (x - y) :: u32) = ucast x - ucast y"
proof -
  have len: "LENGTH(32) = 32" by simp
  have "take_bit 32 (uint (x - y)) = take_bit 32 (uint x - uint y)"
    by (simp add: uint_word_ariths take_bit_eq_mod mod_mod_cancel)
  then have "(word_of_int (uint (x - y)) :: u32) = word_of_int (uint x - uint y)"
    by (simp only: word_of_int_eq_iff len)
  then show ?thesis by (simp only: ucast_eq of_int_diff)
qed

lemma ucast_diff_low:
  fixes x y :: u64
  shows "(ucast (scast (ucast x :: u32) - y :: u64) :: u32) = ucast (x - y)"
proof -
  have "(ucast (scast (ucast x :: u32) :: u64) :: u32) = ucast x"
    by (rule bit_word_eqI) (auto simp: bit_simps)
  then show ?thesis by (simp add: ucast_sub_down)
qed

lemma priceToIndex_price_of:
  assumes "band_ok b" "i < length (b_price_levels b)"
  shows "priceToIndex b (price_of b i) = int i"
proof -
  have i: "i < 2 ^ 31" using assms by (simp add: band_ok_def)
  have "price_of b i - b_lower_limit b = of_nat i" by (simp add: price_of_def)
  moreover have "unat (of_nat i :: u64) = i" using i by (simp add: unat_of_nat)
  ultimately have "unat (ucast (price_of b i - b_lower_limit b) :: u32) = i"
    using i by (simp add: unsigned_ucast_eq take_bit_nat_eq_self)
  then have "sint (ucast (price_of b i - b_lower_limit b) :: u32) = int i"
    using i sint_small by metis
  then show ?thesis by (simp only: priceToIndex_def ucast_diff_low)
qed

section \<open>The structure of a book\<close>

definition ord :: "OrderBook \<Rightarrow> u32 \<Rightarrow> Order" where
  "ord b x = n_order (nd (b_pool b) x)"

abbreviation nlevels :: "OrderBook \<Rightarrow> nat" where
  "nlevels b \<equiv> length (b_price_levels b)"

definition book_view :: "OrderBook \<Rightarrow> (nat \<Rightarrow> u32 list) \<Rightarrow> u32 list \<Rightarrow> bool" where
  "book_view b qs fs \<longleftrightarrow> band_ok b \<and> pool_ok (b_pool b) fs \<and>
     (\<forall>i < nlevels b. queue_ok (b_pool b) (b_price_levels b ! i) (qs i)) \<and>
     (\<forall>i < nlevels b. \<forall>j < nlevels b. i \<noteq> j \<longrightarrow> set (qs i) \<inter> set (qs j) = {}) \<and>
     (\<forall>i < nlevels b. set (qs i) \<inter> set fs = {}) \<and>
     (\<Union>i < nlevels b. set (qs i)) \<union> set fs = slots (b_pool b) \<and>
     (\<forall>i < nlevels b. \<forall>x \<in> set (qs i). o_price (ord b x) = price_of b i) \<and>
     (\<forall>oid x. b_orderMap b oid = Some x \<longleftrightarrow> (\<exists>i < nlevels b. x \<in> set (qs i)) \<and> o_order_id (ord b x) = oid)"

lemma book_viewD:
  assumes "book_view b qs fs"
  shows "band_ok b" "pool_ok (b_pool b) fs"
    "\<And>i. i < nlevels b \<Longrightarrow> queue_ok (b_pool b) (b_price_levels b ! i) (qs i)"
    "\<And>i j. i < nlevels b \<Longrightarrow> j < nlevels b \<Longrightarrow> i \<noteq> j \<Longrightarrow> set (qs i) \<inter> set (qs j) = {}"
    "\<And>i. i < nlevels b \<Longrightarrow> set (qs i) \<inter> set fs = {}"
    "(\<Union>i < nlevels b. set (qs i)) \<union> set fs = slots (b_pool b)"
    "\<And>i x. i < nlevels b \<Longrightarrow> x \<in> set (qs i) \<Longrightarrow> o_price (ord b x) = price_of b i"
    "\<And>oid x. b_orderMap b oid = Some x \<longleftrightarrow> (\<exists>i < nlevels b. x \<in> set (qs i)) \<and> o_order_id (ord b x) = oid"
  using assms unfolding book_view_def by (elim conjE; simp)+

text \<open>Two books with the same band and the same number of levels.\<close>

definition same_band :: "OrderBook \<Rightarrow> OrderBook \<Rightarrow> bool" where
  "same_band b b' \<longleftrightarrow> b_lower_limit b' = b_lower_limit b \<and> b_upper_limit b' = b_upper_limit b \<and>
     b_PRICE_LEVELS b' = b_PRICE_LEVELS b \<and> nlevels b' = nlevels b \<and>
     b_default_best_buy_price b' = b_default_best_buy_price b \<and>
     b_default_best_sell_price b' = b_default_best_sell_price b"

lemma same_bandD:
  assumes "same_band b b'"
  shows "band_ok b' = band_ok b" "price_of b' = price_of b" "nlevels b' = nlevels b"
    "isPriceValid b' = isPriceValid b" "priceToIndex b' = priceToIndex b"
  using assms by (auto simp: same_band_def band_ok_def price_of_def isPriceValid_def priceToIndex_def fun_eq_iff)

lemma same_band_refl [simp]: "same_band b b" by (simp add: same_band_def)

lemma same_band_trans: "same_band a b \<Longrightarrow> same_band b c \<Longrightarrow> same_band a c"
  by (simp add: same_band_def)

lemma set_level_simps [simp]:
  "nlevels (set_level b i q) = nlevels b" "b_pool (set_level b i q) = b_pool b"
  "b_orderMap (set_level b i q) = b_orderMap b" "b_lower_limit (set_level b i q) = b_lower_limit b"
  "b_upper_limit (set_level b i q) = b_upper_limit b" "b_PRICE_LEVELS (set_level b i q) = b_PRICE_LEVELS b"
  "b_default_best_buy_price (set_level b i q) = b_default_best_buy_price b"
  "b_default_best_sell_price (set_level b i q) = b_default_best_sell_price b"
  "b_next_buy_price (set_level b i q) = b_next_buy_price b"
  "b_next_sell_price (set_level b i q) = b_next_sell_price b"
  "b_total_buy_qty (set_level b i q) = b_total_buy_qty b"
  "b_total_sell_qty (set_level b i q) = b_total_sell_qty b"
  "b_price_levels (set_level b (int j) q) = (b_price_levels b)[j := q]"
  by (simp_all add: set_level_def)

lemma getpricelevels_ok: "i < nlevels b \<Longrightarrow> getpricelevels b (int i) = Some (b_price_levels b ! i)"
  by (simp add: getpricelevels_def)

lemma view_empty: "book_view b qs fs \<Longrightarrow> i < nlevels b \<Longrightarrow> isEmpty (b_price_levels b ! i) \<longleftrightarrow> qs i = []"
  using queue_ok_count book_viewD by blast

lemma view_insert:
  assumes v: "book_view b qs (f # fs)" and i: "i < nlevels b"
    and pr: "o_price order = price_of b i" and fresh: "b_orderMap b (o_order_id order) = None"
  obtains q' p' where "insertOrder (b_price_levels b ! i) (b_pool b) order = Some (q', p', f)"
    "\<forall>b' h. same_band b b' \<longrightarrow> b_price_levels b' = (b_price_levels b)[i := set_heap_entry q' h] \<longrightarrow>
       b_pool b' = p' \<longrightarrow> b_orderMap b' = (b_orderMap b)(o_order_id order \<mapsto> f) \<longrightarrow>
       book_view b' (qs(i := qs i @ [f])) fs \<and> ord b' = (ord b)(f := order)"
proof -
  note D = book_viewD [OF v]
  have disj: "set (qs i) \<inter> set (f # fs) = {}" using D(5) [OF i] .
  obtain q' p' where ins: "insertOrder (b_price_levels b ! i) (b_pool b) order = Some (q', p', f)"
    and ok: "pool_ok p' fs" "queue_ok p' q' (qs i @ [f])" "slots p' = slots (b_pool b)"
    "q_heap_entry q' = q_heap_entry (b_price_levels b ! i)"
    and of': "n_order (nd p' f) = order"
    and oi: "\<forall>x. x \<noteq> f \<longrightarrow> n_order (nd p' x) = n_order (nd (b_pool b) x)"
    and fr: "\<forall>x. x \<noteq> f \<longrightarrow> x \<notin> set (qs i) \<longrightarrow> nd p' x = nd (b_pool b) x"
    and "length (mp_nodes p') = length (mp_nodes (b_pool b))"
    by (rule insertOrder_ok [OF D(2) D(3) [OF i] disj])
  have f: "f \<notin> set (qs j)" if "j < nlevels b" for j using D(5) [OF that] by auto
  have goal: "book_view b' (qs(i := qs i @ [f])) fs \<and> ord b' = (ord b)(f := order)"
    if sb: "same_band b b'" and lv: "b_price_levels b' = (b_price_levels b)[i := set_heap_entry q' h]"
      and po: "b_pool b' = p'" and om: "b_orderMap b' = (b_orderMap b)(o_order_id order \<mapsto> f)" for b' h
  proof -
    note S = same_bandD [OF sb]
    have od: "ord b' = (ord b)(f := order)" using of' oi po by (auto simp: ord_def fun_eq_iff)
    have "book_view b' (qs(i := qs i @ [f])) fs"
      unfolding book_view_def S
    proof (intro conjI allI impI ballI)
      show "band_ok b" "pool_ok (b_pool b') fs" using D(1) ok po by auto
    next
      fix j assume j: "j < nlevels b"
      show "queue_ok (b_pool b') (b_price_levels b' ! j) ((qs(i := qs i @ [f])) j)"
      proof (cases "j = i")
        case True
        then show ?thesis using ok i lv po by simp
      next
        case False
        have "\<forall>x \<in> set (qs j). nd p' x = nd (b_pool b) x"
        proof
          fix x assume x: "x \<in> set (qs j)"
          then have "x \<noteq> f" using f [OF j] by metis
          moreover have "x \<notin> set (qs i)" using x D(4) [OF j i False] by (metis disjoint_iff)
          ultimately show "nd p' x = nd (b_pool b) x" using fr by simp
        qed
        then show ?thesis using False lv po queue_ok_frame [OF D(3) [OF j]] ok(3) by simp
      qed
      show "set ((qs(i := qs i @ [f])) j) \<inter> set fs = {}"
        using D(5) [OF j] D(5) [OF i] D(2) by (auto simp: pool_ok_def)
      fix x assume "x \<in> set ((qs(i := qs i @ [f])) j)"
      then consider "x = f" "j = i" | "x \<noteq> f" "x \<in> set (qs j)"
        using f [OF j] by (cases "j = i") auto
      then show "o_price (ord b' x) = price_of b j"
        by cases (use D(7) [OF j, of x] pr in \<open>simp_all add: od\<close>)
    next
      fix j k assume "j < nlevels b" "k < nlevels b" "j \<noteq> k"
      then show "set ((qs(i := qs i @ [f])) j) \<inter> set ((qs(i := qs i @ [f])) k) = {}"
        using D(4) f by auto
    next
      have "(\<Union>j < nlevels b. set ((qs(i := qs i @ [f])) j)) = insert f (\<Union>j < nlevels b. set (qs j))"
        using i by (auto split: if_splits)
      then show "(\<Union>j < nlevels b. set ((qs(i := qs i @ [f])) j)) \<union> set fs = slots (b_pool b')"
        using D(6) ok(3) po by auto
    next
      fix oid x
      have "(\<exists>j < nlevels b. x \<in> set ((qs(i := qs i @ [f])) j)) \<longleftrightarrow> x = f \<or> (\<exists>j < nlevels b. x \<in> set (qs j))"
        using i by auto
      moreover have "b_orderMap b (o_order_id order) \<noteq> Some x" using fresh by simp
      ultimately show "b_orderMap b' oid = Some x \<longleftrightarrow>
          (\<exists>j < nlevels b. x \<in> set ((qs(i := qs i @ [f])) j)) \<and> o_order_id (ord b' x) = oid"
        using D(8) [of oid x] D(8) [of "o_order_id order" x] f by (auto simp: om od)
    qed
    with od show ?thesis by blast
  qed
  show ?thesis by (rule that [OF ins]) (use goal in blast)
qed

lemma view_remove:
  assumes v: "book_view b qs fs" and i: "i < nlevels b" and q: "qs i = ys @ x # zs"
  obtains q' p' where "removeOrder (b_price_levels b ! i) (b_pool b) x = Some (q', p', True)"
    "q_heap_entry q' = q_heap_entry (b_price_levels b ! i)"
    "\<forall>b'. same_band b b' \<longrightarrow> b_price_levels b' = (b_price_levels b)[i := q'] \<longrightarrow>
       b_pool b' = p' \<longrightarrow> b_orderMap b' = (b_orderMap b)(o_order_id (ord b x) := None) \<longrightarrow>
       book_view b' (qs(i := ys @ zs)) (x # fs) \<and> ord b' = ord b"
proof -
  note D = book_viewD [OF v]
  have qi: "queue_ok (b_pool b) (b_price_levels b ! i) (ys @ x # zs)" using D(3) [OF i] q by simp
  have disj: "set (ys @ x # zs) \<inter> set fs = {}" using D(5) [OF i] q by simp
  obtain q' p' where rem: "removeOrder (b_price_levels b ! i) (b_pool b) x = Some (q', p', True)"
    and ok: "pool_ok p' (x # fs)" "queue_ok p' q' (ys @ zs)" "slots p' = slots (b_pool b)"
    and he: "q_heap_entry q' = q_heap_entry (b_price_levels b ! i)"
    and oi: "\<forall>y. n_order (nd p' y) = n_order (nd (b_pool b) y)"
    and fr: "\<forall>y. y \<notin> set (ys @ x # zs) \<longrightarrow> nd p' y = nd (b_pool b) y"
    and "length (mp_nodes p') = length (mp_nodes (b_pool b))"
    by (rule removeOrder_ok [OF D(2) qi disj])
  have dx: "x \<notin> set ys" "x \<notin> set zs" using qi by (auto simp: queue_ok_def)
  have sub: "set ((qs(i := ys @ zs)) j) = set (qs j) - {x}" if "j < nlevels b" for j
    using D(4) [OF that i] q dx by (cases "j = i") auto
  have goal: "book_view b' (qs(i := ys @ zs)) (x # fs) \<and> ord b' = ord b"
    if sb: "same_band b b'" and lv: "b_price_levels b' = (b_price_levels b)[i := q']"
      and po: "b_pool b' = p'" and om: "b_orderMap b' = (b_orderMap b)(o_order_id (ord b x) := None)" for b'
  proof -
    note S = same_bandD [OF sb]
    have od: "ord b' = ord b" using oi po by (simp add: ord_def fun_eq_iff)
    have "book_view b' (qs(i := ys @ zs)) (x # fs)"
      unfolding book_view_def S
    proof (intro conjI allI impI ballI)
      show "band_ok b" "pool_ok (b_pool b') (x # fs)" using D(1) ok po by auto
    next
      fix j assume j: "j < nlevels b"
      show "queue_ok (b_pool b') (b_price_levels b' ! j) ((qs(i := ys @ zs)) j)"
      proof (cases "j = i")
        case True
        then show ?thesis using ok i lv po by simp
      next
        case False
        have "\<forall>y \<in> set (qs j). nd p' y = nd (b_pool b) y"
        proof
          fix y assume y: "y \<in> set (qs j)"
          have "y \<notin> set (ys @ x # zs)" using y D(4) [OF j i False] q by (metis disjoint_iff)
          then show "nd p' y = nd (b_pool b) y" using fr by simp
        qed
        then show ?thesis using False lv po queue_ok_frame [OF D(3) [OF j]] ok(3) by simp
      qed
      show "set ((qs(i := ys @ zs)) j) \<inter> set (x # fs) = {}"
        unfolding sub [OF j] using D(5) [OF j] by auto
      fix y assume "y \<in> set ((qs(i := ys @ zs)) j)"
      then show "o_price (ord b' y) = price_of b j"
        unfolding sub [OF j] using D(7) [OF j, of y] by (simp add: od)
    next
      fix j k assume "j < nlevels b" "k < nlevels b" "j \<noteq> k"
      then show "set ((qs(i := ys @ zs)) j) \<inter> set ((qs(i := ys @ zs)) k) = {}"
        using D(4) [of j k] sub by auto
    next
      have "(\<Union>j < nlevels b. set ((qs(i := ys @ zs)) j)) = (\<Union>j < nlevels b. set (qs j)) - {x}"
        using sub by auto
      moreover have "x \<in> (\<Union>j < nlevels b. set (qs j))" using i q by (intro UN_I [of i]) auto
      ultimately show "(\<Union>j < nlevels b. set ((qs(i := ys @ zs)) j)) \<union> set (x # fs) = slots (b_pool b')"
        using D(6) ok(3) po by auto
    next
      fix oid y
      have "\<And>j. j < nlevels b \<Longrightarrow> y \<in> set ((qs(i := ys @ zs)) j) \<longleftrightarrow> y \<noteq> x \<and> y \<in> set (qs j)"
        by (simp only: sub) blast
      then have "(\<exists>j < nlevels b. y \<in> set ((qs(i := ys @ zs)) j)) \<longleftrightarrow> y \<noteq> x \<and> (\<exists>j < nlevels b. y \<in> set (qs j))"
        by blast
      moreover have "b_orderMap b (o_order_id (ord b x)) = Some x"
        using D(8) [of "o_order_id (ord b x)" x] i q by auto
      ultimately show "b_orderMap b' oid = Some y \<longleftrightarrow>
          (\<exists>j < nlevels b. y \<in> set ((qs(i := ys @ zs)) j)) \<and> o_order_id (ord b' y) = oid"
        using D(8) [of oid y] by (simp only: om od fun_upd_apply) auto
    qed
    with od show ?thesis by blast
  qed
  show ?thesis by (rule that [OF rem he]) (use goal in blast)
qed

lemma view_modify:
  assumes v: "book_view b qs fs" and i: "i < nlevels b" and x: "x \<in> set (qs i)"
    and f: "o_price (f (ord b x)) = o_price (ord b x)" "o_order_id (f (ord b x)) = o_order_id (ord b x)"
  obtains p' where "updNode (b_pool b) x (\<lambda>n. n\<lparr>n_order := f (n_order n)\<rparr>) = Some p'"
    "book_view (b\<lparr>b_pool := p'\<rparr>) qs fs" "ord (b\<lparr>b_pool := p'\<rparr>) = (ord b)(x := f (ord b x))"
proof -
  note D = book_viewD [OF v]
  have xs: "x \<in> slots (b_pool b)" using D(6) i x by auto
  obtain p' where u: "updNode (b_pool b) x (\<lambda>n. n\<lparr>n_order := f (n_order n)\<rparr>) = Some p'"
    and nd: "nd p' = (nd (b_pool b))(x := (nd (b_pool b) x)\<lparr>n_order := f (n_order (nd (b_pool b) x))\<rparr>)"
    and s: "slots p' = slots (b_pool b)" "mp_freeHead p' = mp_freeHead (b_pool b)"
    "length (mp_nodes p') = length (mp_nodes (b_pool b))" "mp_used p' = mp_used (b_pool b)"
    by (rule updNode_ok [OF D(2) xs])
  have od: "ord (b\<lparr>b_pool := p'\<rparr>) = (ord b)(x := f (ord b x))" by (auto simp: ord_def nd fun_eq_iff)
  have pok: "pool_ok p' fs" by (rule pool_ok_upd [OF D(2) nd _ s(1-3)]) simp
  have qok: "queue_ok p' (b_price_levels b ! j) (qs j)" if j: "j < nlevels b" for j
  proof -
    have "dlseg (nd p') NULL_IDX (qs j) NULL_IDX = dlseg (nd (b_pool b)) NULL_IDX (qs j) NULL_IDX"
      by (rule dlseg_cong) (simp add: nd)
    then show ?thesis using D(3) [OF j] s(1) by (simp add: queue_ok_def)
  qed
  have "same_band b (b\<lparr>b_pool := p'\<rparr>)" by (simp add: same_band_def)
  note S = same_bandD [OF this]
  have "book_view (b\<lparr>b_pool := p'\<rparr>) qs fs"
    unfolding book_view_def S
  proof (intro conjI allI impI ballI)
    fix j y assume "j < nlevels b" "y \<in> set (qs j)"
    then show "o_price (ord (b\<lparr>b_pool := p'\<rparr>) y) = price_of b j" using D(7) f by (auto simp: od)
  next
    fix oid y
    show "b_orderMap (b\<lparr>b_pool := p'\<rparr>) oid = Some y \<longleftrightarrow>
        (\<exists>j < nlevels b. y \<in> set (qs j)) \<and> o_order_id (ord (b\<lparr>b_pool := p'\<rparr>) y) = oid"
      using D(8) [of oid y] f by (auto simp: od)
  qed (use D(1,4,5,6) pok qok s(1) in auto)
  then show ?thesis using that u od by blast
qed
end
