(* ===== verification/Book_Sides.thy ===== *)
theory Book_Sides
  imports Book_View
begin

text \<open>
  The two sides of a book. The code has every side operation twice (\<open>addBuyOrder\<close>/\<open>addSellOrder\<close>, \<dots>);
  here the pairs are selected by the side, so that each fact is proved once. The theory adds the
  price heaps and the heap-entry flags to the shape of a book (\<open>book_inv\<close>) and shows what the best
  price queries, insertion, removal and modification do to it.
\<close>

section \<open>The two sides of a book\<close>

primrec opp :: "OrderType \<Rightarrow> OrderType" where
  "opp BUY = SELL"
| "opp SELL = BUY"

text \<open>\<open>worse s p p'\<close>: price \<open>p\<close> ranks behind price \<open>p'\<close> on side \<open>s\<close>.\<close>

primrec worse :: "OrderType \<Rightarrow> u64 \<Rightarrow> u64 \<Rightarrow> bool" where
  "worse BUY = (<)"
| "worse SELL = (>)"

primrec heap_of :: "OrderType \<Rightarrow> OrderBook \<Rightarrow> u64 list" where
  "heap_of BUY = b_next_buy_price"
| "heap_of SELL = b_next_sell_price"

primrec set_heap :: "OrderType \<Rightarrow> u64 list \<Rightarrow> OrderBook \<Rightarrow> OrderBook" where
  "set_heap BUY h b = b\<lparr>b_next_buy_price := h\<rparr>"
| "set_heap SELL h b = b\<lparr>b_next_sell_price := h\<rparr>"

primrec default_of :: "OrderType \<Rightarrow> OrderBook \<Rightarrow> u64" where
  "default_of BUY = b_default_best_buy_price"
| "default_of SELL = b_default_best_sell_price"

primrec total_of :: "OrderType \<Rightarrow> OrderBook \<Rightarrow> u64" where
  "total_of BUY = b_total_buy_qty"
| "total_of SELL = b_total_sell_qty"

primrec set_total :: "OrderType \<Rightarrow> u64 \<Rightarrow> OrderBook \<Rightarrow> OrderBook" where
  "set_total BUY v b = b\<lparr>b_total_buy_qty := v\<rparr>"
| "set_total SELL v b = b\<lparr>b_total_sell_qty := v\<rparr>"

text \<open>The operations the code has twice, once per side.\<close>

primrec best_of :: "OrderType \<Rightarrow> OrderBook \<Rightarrow> (OrderBook \<times> u64) option" where
  "best_of BUY = bestbuyprice"
| "best_of SELL = bestsellprice"

primrec add_of :: "OrderType \<Rightarrow> OrderBook \<Rightarrow> Order \<Rightarrow> (OrderBook \<times> bool) option" where
  "add_of BUY = addBuyOrder"
| "add_of SELL = addSellOrder"

primrec remove_of :: "OrderType \<Rightarrow> OrderBook \<Rightarrow> u64 \<Rightarrow> (OrderBook \<times> bool) option" where
  "remove_of BUY = removeBuyOrder"
| "remove_of SELL = removeSellOrder"

primrec decrease_of :: "OrderType \<Rightarrow> OrderBook \<Rightarrow> u32 \<Rightarrow> OrderBook" where
  "decrease_of BUY = decreaseTotalBuyQty"
| "decrease_of SELL = decreaseTotalSellQty"

lemma side_simps [simp]:
  "opp (opp s) = s" "opp s \<noteq> s" "s \<noteq> opp s"
  "heap_of s (set_heap t h b) = (if s = t then h else heap_of s b)"
  "heap_of s (set_total t v b) = heap_of s b"
  "heap_of s (set_level b i q) = heap_of s b"
  "total_of s (set_heap t h b) = total_of s b"
  "total_of s (set_total t v b) = (if s = t then v else total_of s b)"
  "total_of s (set_level b i q) = total_of s b"
  "default_of s (set_heap t h b) = default_of s b"
  "default_of s (set_total t v b) = default_of s b"
  "default_of s (set_level b i q) = default_of s b"
  by (cases s; cases t; simp)+

lemma side_fields [simp]:
  "b_pool (set_heap s h b) = b_pool b" "b_price_levels (set_heap s h b) = b_price_levels b"
  "b_orderMap (set_heap s h b) = b_orderMap b" "b_PRICE_LEVELS (set_heap s h b) = b_PRICE_LEVELS b"
  "b_pool (set_total s v b) = b_pool b" "b_price_levels (set_total s v b) = b_price_levels b"
  "b_orderMap (set_total s v b) = b_orderMap b" "b_PRICE_LEVELS (set_total s v b) = b_PRICE_LEVELS b"
  "priceToIndex (set_heap s h b) = priceToIndex b" "priceToIndex (set_total s v b) = priceToIndex b"
  "priceToIndex (set_level b i q) = priceToIndex b"
  by (cases s; simp add: priceToIndex_def fun_eq_iff)+

lemma side_pool [simp]:
  "heap_of s (b\<lparr>b_pool := p\<rparr>) = heap_of s b" "heap_of s (b\<lparr>b_orderMap := m\<rparr>) = heap_of s b"
  "total_of s (b\<lparr>b_pool := p\<rparr>) = total_of s b" "total_of s (b\<lparr>b_orderMap := m\<rparr>) = total_of s b"
  "default_of s (b\<lparr>b_pool := p\<rparr>) = default_of s b" "default_of s (b\<lparr>b_orderMap := m\<rparr>) = default_of s b"
  by (cases s; simp)+

lemma same_band_sides [simp]:
  "same_band b (set_heap s h b') = same_band b b'" "same_band b (set_total s v b') = same_band b b'"
  "same_band b (set_level b' i q) = same_band b b'"
  "same_band b (b'\<lparr>b_pool := p\<rparr>) = same_band b b'" "same_band b (b'\<lparr>b_orderMap := m\<rparr>) = same_band b b'"
  by (cases s; simp add: same_band_def)+

lemma side_exhaust: "s = t \<or> s = opp t"
  by (cases s; cases t) auto

lemma same_band_default: "same_band b b' \<Longrightarrow> default_of s b' = default_of s b"
  by (cases s) (simp_all add: same_band_def)

interpretation side_heap: priority_queue "worse s" "heap_push (worse s)" heap_top heap_pop mset
  "heap_sorted (worse s)" for s
  by (cases s; simp; rule heap_priority_queue) auto

lemma worse_linear: "worse s p q \<or> p = q \<or> worse s q p"
  by (cases s) auto

lemma worse_asym: "worse s p q \<Longrightarrow> \<not> worse s q p"
  by (cases s) auto

text \<open>The twin operations as one, over the side.\<close>

lemma add_of_eq:
  "add_of s b order =
     (let index = priceToIndex b (o_price order) in
      if index < 0 \<or> word_of_int index \<ge> b_PRICE_LEVELS b then Some (b, False)
      else do {
        q \<leftarrow> getpricelevels b index;
        (q1, p1, idx) \<leftarrow> insertOrder q (b_pool b) order;
        if idx = NULL_IDX then Some ((set_level b index q1)\<lparr>b_pool := p1\<rparr>, False)
        else Some (set_total s (total_of s b + ucast (o_quantity order))
               (set_heap s
                 (if isEmpty q \<and> \<not> has_heap_entry q then heap_push (worse s) (o_price order) (heap_of s b)
                  else heap_of s b)
                 ((set_level b index (set_heap_entry q1 True))
               \<lparr>b_pool := p1, b_orderMap := (b_orderMap b)(o_order_id order \<mapsto> idx)\<rparr>)), True)
      })"
  by (cases s) (simp_all add: addBuyOrder_def addSellOrder_def Let_def cong: if_cong)

lemma remove_of_eq:
  "remove_of s b price =
     (let idx = priceToIndex b price in
      do {
        q \<leftarrow> getpricelevels b idx;
        if isEmpty q then Some (b, False)
        else do {
          h \<leftarrow> gethead q (b_pool b);
          (case b_orderMap b (o_order_id (n_order h)) of
             None \<Rightarrow> Some (b, False)
           | Some index \<Rightarrow> do {
               (q1, p1, removed) \<leftarrow> removeOrder q (b_pool b) index;
               (let b1 = (set_level b idx q1)\<lparr>b_pool := p1\<rparr> in
                if removed
                then Some (set_total s (total_of s b - ucast (o_quantity (n_order h)))
                        (b1\<lparr>b_orderMap := (b_orderMap b)(o_order_id (n_order h) := None)\<rparr>), True)
                else Some (b1, False))
             })
        }
      })"
  by (cases s) (simp_all add: removeBuyOrder_def removeSellOrder_def Let_def cong: if_cong option.case_cong)

lemma best_of_unfold:
  "best_of s b = (case heap_top (heap_of s b) of
     None \<Rightarrow> None
   | Some best \<Rightarrow>
       (if best \<noteq> default_of s b then
          (case getpricelevels b (priceToIndex b best) of
             None \<Rightarrow> None
           | Some q \<Rightarrow>
               (if isEmpty q
                then best_of s (set_heap s (heap_pop (heap_of s b))
                  (set_level b (priceToIndex b best) (set_heap_entry q False)))
                else Some (b, best)))
        else Some (b, best)))"
  by (cases s) (simp_all add: bestbuyprice.simps [of b] bestsellprice.simps [of b] cong: if_cong option.case_cong)

lemma decrease_of_eq: "decrease_of s b q = set_total s (total_of s b - ucast q) b"
  by (cases s) (simp_all add: decreaseTotalBuyQty_def decreaseTotalSellQty_def)

section \<open>The resting orders of a side\<close>

primrec level_order :: "OrderType \<Rightarrow> nat \<Rightarrow> nat list" where
  "level_order SELL n = [0..<n]"
| "level_order BUY n = rev [0..<n]"

text \<open>The orders of a side, the best price first and in order of arrival within a price.\<close>

definition resting :: "OrderBook \<Rightarrow> OrderType \<Rightarrow> Order list" where
  "resting b s = concat (map (\<lambda>i. filter (\<lambda>x. o_type x = s) (queue_orders (b_pool b) (b_price_levels b ! i)))
     (level_order s (length (b_price_levels b))))"

definition level_side :: "OrderBook \<Rightarrow> (nat \<Rightarrow> u32 list) \<Rightarrow> OrderType \<Rightarrow> nat \<Rightarrow> u32 list" where
  "level_side b qs s i = filter (\<lambda>x. o_type (ord b x) = s) (qs i)"

lemma set_level_order [simp]: "set (level_order s n) = {..<n}" and
  distinct_level_order [simp]: "distinct (level_order s n)"
  by (cases s; auto)+

lemma resting_view:
  assumes "book_view b qs fs"
  shows "resting b s = map (ord b) (concat (map (level_side b qs s) (level_order s (nlevels b))))"
proof -
  have *: "filter (\<lambda>x. o_type x = s) (queue_orders (b_pool b) (b_price_levels b ! i))
      = map (ord b) (level_side b qs s i)" if "i < nlevels b" for i
    using queue_orders_ok [OF book_viewD(2) [OF assms] book_viewD(3) [OF assms that]]
    by (simp add: level_side_def filter_map ord_def comp_def)
  show ?thesis
    unfolding resting_def map_concat map_map
    by (intro arg_cong [where f = concat] map_cong refl) (use * in simp)
qed

lemma set_resting:
  assumes "book_view b qs fs"
  shows "r \<in> set (resting b s) \<longleftrightarrow> (\<exists>i < nlevels b. \<exists>x \<in> set (qs i). r = ord b x \<and> o_type r = s)"
  unfolding resting_view [OF assms] by (auto simp: level_side_def)

text \<open>A level splits the levels of a side into the better and the worse ones.\<close>

lemma upt_split: "i < n \<Longrightarrow> [0..<n] = [0..<i] @ i # [Suc i..<n]"
  using upt_add_eq_append [of 0 i "n - i"] by (simp add: upt_conv_Cons)

lemma level_order_split:
  assumes "i < n"
  obtains as bs where "level_order s n = as @ i # bs" "\<forall>j \<in> set as. j < n" "\<forall>j \<in> set bs. j < n"
    "case s of SELL \<Rightarrow> (\<forall>j \<in> set as. j < i) \<and> (\<forall>j \<in> set bs. i < j)
       | BUY \<Rightarrow> (\<forall>j \<in> set as. i < j) \<and> (\<forall>j \<in> set bs. j < i)"
proof (cases s)
  case SELL
  have "[0..<n] = [0..<i] @ i # [Suc i..<n]" by (rule upt_split [OF assms])
  with SELL show ?thesis using assms by (intro that [of "[0..<i]" "[Suc i..<n]"]) auto
next
  case BUY
  from upt_split [OF assms] have "rev [0..<n] = rev [Suc i..<n] @ i # rev [0..<i]" by simp
  with BUY show ?thesis using assms by (intro that [of "rev [Suc i..<n]" "rev [0..<i]"]) auto
qed


section \<open>The invariant of a book\<close>

text \<open>
  \<open>S s\<close> are the stale levels of side \<open>s\<close>: empty levels whose price is still in the heap of \<open>s\<close>. They
  appear when the last order of a level leaves and go when \<open>bestbuyprice\<close> or \<open>bestsellprice\<close> meets them.
\<close>

definition heap_levels :: "OrderBook \<Rightarrow> (nat \<Rightarrow> u32 list) \<Rightarrow> (OrderType \<Rightarrow> nat set) \<Rightarrow> OrderType \<Rightarrow> nat set" where
  "heap_levels b qs S s = {i. i < nlevels b \<and> (level_side b qs s i \<noteq> [] \<or> i \<in> S s)}"

definition heaps_ok :: "OrderBook \<Rightarrow> (nat \<Rightarrow> u32 list) \<Rightarrow> (OrderType \<Rightarrow> nat set) \<Rightarrow> bool" where
  "heaps_ok b qs S \<longleftrightarrow> (\<forall>s. heap_sorted (worse s) (heap_of s b) \<and>
     mset (heap_of s b) = mset_set (insert (default_of s b) (price_of b ` heap_levels b qs S s)))"

definition flags_ok :: "OrderBook \<Rightarrow> (nat \<Rightarrow> u32 list) \<Rightarrow> (OrderType \<Rightarrow> nat set) \<Rightarrow> bool" where
  "flags_ok b qs S \<longleftrightarrow>
     (\<forall>i < nlevels b. q_heap_entry (b_price_levels b ! i) \<longleftrightarrow> qs i \<noteq> [] \<or> (\<exists>s. i \<in> S s)) \<and>
     (\<forall>s. \<forall>i \<in> S s. i < nlevels b \<and> qs i = [] \<and> i \<notin> S (opp s)) \<and>
     (\<forall>i < nlevels b. \<forall>s. level_side b qs s i = [] \<or> level_side b qs s i = qs i)"

definition book_inv :: "OrderBook \<Rightarrow> (nat \<Rightarrow> u32 list) \<Rightarrow> u32 list \<Rightarrow> (OrderType \<Rightarrow> nat set) \<Rightarrow> bool" where
  "book_inv b qs fs S \<longleftrightarrow> book_view b qs fs \<and> heaps_ok b qs S \<and> flags_ok b qs S"

lemma book_invD:
  assumes "book_inv b qs fs S"
  shows "book_view b qs fs"
    "heap_sorted (worse s) (heap_of s b)"
    "mset (heap_of s b) = mset_set (insert (default_of s b) (price_of b ` heap_levels b qs S s))"
    "i < nlevels b \<Longrightarrow> q_heap_entry (b_price_levels b ! i) \<longleftrightarrow> qs i \<noteq> [] \<or> (\<exists>s. i \<in> S s)"
    "i \<in> S s \<Longrightarrow> i < nlevels b" "i \<in> S s \<Longrightarrow> qs i = []" "i \<in> S s \<Longrightarrow> i \<notin> S (opp s)"
    "i < nlevels b \<Longrightarrow> level_side b qs s i = [] \<or> level_side b qs s i = qs i"
  using assms unfolding book_inv_def heaps_ok_def flags_ok_def by (elim conjE; blast)+

lemma finite_heap_levels [simp]: "finite (heap_levels b qs S s)"
  by (simp add: heap_levels_def)

lemma default_worse:
  assumes "band_ok b" "i < nlevels b"
  shows "worse s (default_of s b) (price_of b i)" "default_of s b \<noteq> price_of b i"
    "\<not> isPriceValid b (default_of s b)"
proof -
  have low: "unat (b_lower_limit b - 1) = unat (b_lower_limit b) - 1" "0 < unat (b_lower_limit b)"
    using assms(1) by (auto simp: band_ok_def unat_sub word_le_nat_alt word_less_nat_alt)
  have up: "unat (b_upper_limit b + 1) = Suc (unat (b_upper_limit b))"
    using assms(1) by (intro unat_Suc_word) (simp add: band_ok_def word_less_nat_alt)
  have le: "unat (b_lower_limit b) \<le> unat (b_upper_limit b)"
    using assms(1) by (simp add: band_ok_def word_le_nat_alt)
  have d: "b_default_best_buy_price b = b_lower_limit b - 1" "b_default_best_sell_price b = b_upper_limit b + 1"
    using assms(1) by (simp_all add: band_ok_def)
  show w: "worse s (default_of s b) (price_of b i)"
    using low up le levels_count [OF assms(1)] assms(2) unat_price_of [OF assms]
    by (cases s) (simp_all add: d word_less_nat_alt)
  show "default_of s b \<noteq> price_of b i" using worse_asym [OF w] w by auto
  show "\<not> isPriceValid b (default_of s b)"
    using low up le by (cases s) (simp_all add: d isPriceValid_def word_le_nat_alt)
qed

lemma heap_top_ok:
  assumes "book_inv b qs fs S"
  obtains (none) "heap_top (heap_of s b) = Some (default_of s b)" "heap_levels b qs S s = {}"
  | (level) i where "heap_top (heap_of s b) = Some (price_of b i)" "i \<in> heap_levels b qs S s" "i < nlevels b"
      "price_of b i \<noteq> default_of s b" "\<forall>j \<in> heap_levels b qs S s. \<not> worse s (price_of b i) (price_of b j)"
proof -
  note D = book_invD [OF assms]
  have b: "band_ok b" by (rule book_viewD [OF D(1)])
  have in_n: "j < nlevels b" if "j \<in> heap_levels b qs S s" for j using that by (simp add: heap_levels_def)
  have "heap_top (heap_of s b) \<noteq> None" 
    using side_heap.top_None [OF D(2), of s] D(3) [of s] by (simp add: mset_set_empty_iff)
  then obtain p where p: "heap_top (heap_of s b) = Some p" by blast
  have "p \<in># mset (heap_of s b) \<and> (\<forall>y \<in># mset (heap_of s b). \<not> worse s p y)"
    by (rule side_heap.top_Some [OF D(2) p])
  then have t: "p \<in> insert (default_of s b) (price_of b ` heap_levels b qs S s)"
    "\<forall>y \<in> insert (default_of s b) (price_of b ` heap_levels b qs S s). \<not> worse s p y"
    by (simp_all add: D(3))
  show ?thesis
  proof (cases "p = default_of s b")
    case True
    have "j \<notin> heap_levels b qs S s" for j using t(2) True default_worse(1) [OF b in_n] by auto
    then have "heap_levels b qs S s = {}" by blast
    then show ?thesis using True p none by simp
  next
    case False
    then obtain i where i: "i \<in> heap_levels b qs S s" "p = price_of b i" using t(1) by auto
    then show ?thesis using False p t(2) in_n by (intro level [of i]) auto
  qed
qed

lemma pop_stale:
  assumes inv: "book_inv b qs fs S" and t: "heap_top (heap_of s b) = Some (price_of b i)" and i: "i \<in> S s"
  shows "book_inv (set_heap s (heap_pop (heap_of s b))
      (set_level b (int i) (set_heap_entry (b_price_levels b ! i) False))) qs fs (S(s := S s - {i}))"
    (is "book_inv ?b qs fs ?S")
proof -
  note D = book_invD [OF inv]
  have n: "i < nlevels b" and e: "qs i = []" and o: "i \<notin> S (opp s)" using D(5-7) [OF i] by auto
  have b: "band_ok b" by (rule book_viewD [OF D(1)])
  have sb: "same_band b ?b" by simp
  note sbD = same_bandD [OF sb]
  have od: "ord ?b = ord b" by (simp add: ord_def fun_eq_iff)
  have ls: "level_side ?b qs = level_side b qs" by (simp add: level_side_def od fun_eq_iff)
  have lv: "b_price_levels ?b = (b_price_levels b)[i := set_heap_entry (b_price_levels b ! i) False]" by simp
  have he: "q_heap_entry (b_price_levels ?b ! j) \<longleftrightarrow> j \<noteq> i \<and> q_heap_entry (b_price_levels b ! j)"
    if "j < nlevels b" for j using that n by (simp add: nth_list_update set_heap_entry_def)
  have "queue_ok (b_pool b) (b_price_levels ?b ! j) (qs j) = queue_ok (b_pool b) (b_price_levels b ! j) (qs j)"
    if "j < nlevels b" for j using that n by (simp add: nth_list_update)
  then have "book_view ?b qs fs"
    using D(1) unfolding book_view_def sbD od by simp
  moreover have "heaps_ok ?b qs ?S"
  proof -
    have hl: "heap_levels ?b qs ?S t = (if t = s then heap_levels b qs S t - {i} else heap_levels b qs S t)" for t
      using e by (auto simp: heap_levels_def ls sbD level_side_def)
    have inj: "price_of b ` (heap_levels b qs S s - {i}) = price_of b ` heap_levels b qs S s - {price_of b i}"
      using price_of_inject(1) [OF b] n by (auto simp: heap_levels_def)
    have pm: "price_of b i \<in> insert (default_of s b) (price_of b ` heap_levels b qs S s)"
      using i n by (auto simp: heap_levels_def)
    have "mset (heap_pop (heap_of s b))
        = mset_set (insert (default_of s b) (price_of b ` heap_levels b qs S s)) - {#price_of b i#}"
      using side_heap.elems_pop [OF D(2) t] D(3) by simp
    also have "\<dots> = mset_set (insert (default_of s b) (price_of b ` heap_levels b qs S s) - {price_of b i})"
      using pm by (intro mset_set_Diff [symmetric, where B = "{price_of b i}", simplified]) auto
    also have "insert (default_of s b) (price_of b ` heap_levels b qs S s) - {price_of b i}
        = insert (default_of s b) (price_of b ` (heap_levels b qs S s - {i}))"
      using default_worse(2) [OF b n] inj by auto
    finally show ?thesis
      using D(2,3) side_heap.inv_pop [OF D(2)] by (simp add: heaps_ok_def hl sbD)
  qed
  moreover have "flags_ok ?b qs ?S"
    unfolding flags_ok_def sbD ls
  proof (intro conjI allI impI ballI)
    fix j assume j: "j < nlevels b"
    have "(\<exists>t. j \<in> ?S t) \<longleftrightarrow> j \<noteq> i \<and> (\<exists>t. j \<in> S t)"
    proof (cases "j = i")
      case True
      have "i \<notin> ?S t" for t using o side_exhaust [of t s] by auto
      then show ?thesis using True by simp
    next
      case False
      then show ?thesis by (auto simp: fun_upd_def)
    qed
    then show "q_heap_entry (b_price_levels ?b ! j) \<longleftrightarrow> qs j \<noteq> [] \<or> (\<exists>t. j \<in> ?S t)"
      using he [OF j] D(4) [OF j] e by auto
  qed (use D(5-8) in \<open>auto split: if_splits\<close>)
  ultimately show ?thesis by (simp add: book_inv_def)
qed


text \<open>Two books that differ only in their heaps, flags and totals.\<close>

definition same_orders :: "OrderBook \<Rightarrow> OrderBook \<Rightarrow> bool" where
  "same_orders b b' \<longleftrightarrow> same_band b b' \<and> b_pool b' = b_pool b \<and> b_orderMap b' = b_orderMap b \<and>
     (\<forall>s. total_of s b' = total_of s b)"

lemma same_orders_refl [simp]: "same_orders b b"
  by (simp add: same_orders_def)

lemma same_orders_trans: "same_orders a b \<Longrightarrow> same_orders b c \<Longrightarrow> same_orders a c"
  using same_band_trans by (auto simp: same_orders_def)

lemma same_orders_ord: "same_orders b b' \<Longrightarrow> ord b' = ord b \<and> level_side b' = level_side b"
  by (simp add: same_orders_def ord_def level_side_def fun_eq_iff)

definition best_level :: "OrderBook \<Rightarrow> (nat \<Rightarrow> u32 list) \<Rightarrow> OrderType \<Rightarrow> nat \<Rightarrow> bool" where
  "best_level b qs s i \<longleftrightarrow> i < nlevels b \<and> level_side b qs s i \<noteq> [] \<and>
     (\<forall>j < nlevels b. level_side b qs s j \<noteq> [] \<longrightarrow> \<not> worse s (price_of b i) (price_of b j))"

definition is_best_price :: "OrderBook \<Rightarrow> (nat \<Rightarrow> u32 list) \<Rightarrow> OrderType \<Rightarrow> u64 \<Rightarrow> bool" where
  "is_best_price b qs s p \<longleftrightarrow> (p = default_of s b \<and> (\<forall>i < nlevels b. level_side b qs s i = [])) \<or>
     (\<exists>i. best_level b qs s i \<and> p = price_of b i)"

lemma is_best_price_cong: "same_orders b b' \<Longrightarrow> is_best_price b' qs s p = is_best_price b qs s p"
  using same_orders_ord [of b b'] same_bandD [of b b'] same_band_default [of b b']
  by (simp add: is_best_price_def best_level_def same_orders_def)

lemma best_of_ok:
  assumes "book_inv b qs fs S"
  obtains b' S' p where "best_of s b = Some (b', p)" "book_inv b' qs fs S'" "same_orders b b'"
    "is_best_price b qs s p" "S' s \<subseteq> S s" "S' (opp s) = S (opp s)" "\<forall>i \<in> S' s. worse s (price_of b i) p"
  using assms
proof (induction "length (heap_of s b)" arbitrary: b S thesis rule: less_induct)
  case less
  note D = book_invD [OF less.prems(2)]
  have bnd: "band_ok b" by (rule book_viewD [OF D(1)])
  from less.prems(2) show thesis
  proof (cases rule: heap_top_ok [where s = s])
    case none
    have "best_of s b = Some (b, default_of s b)" by (subst best_of_unfold) (simp add: none)
    moreover have "is_best_price b qs s (default_of s b)" "S s = {}"
      using none(2) D(5) by (auto simp: is_best_price_def heap_levels_def)
    ultimately show thesis using less.prems by (intro less.prems(1) [of b "default_of s b" S]) auto
  next
    case (level i)
    have g: "getpricelevels b (priceToIndex b (price_of b i)) = Some (b_price_levels b ! i)"
      by (simp only: priceToIndex_price_of [OF bnd level(3)] getpricelevels_ok [OF level(3)])
    have emp: "isEmpty (b_price_levels b ! i) \<longleftrightarrow> qs i = []" by (rule view_empty [OF D(1) level(3)])
    show thesis
    proof (cases "qs i = []")
      case False
      then have live: "level_side b qs s i \<noteq> []" using level(2) D(6) by (auto simp: heap_levels_def)
      have "best_of s b = Some (b, price_of b i)"
        by (subst best_of_unfold) (simp add: level(1,4) g emp False)
      moreover have "is_best_price b qs s (price_of b i)"
        using live level(3,5) by (auto simp: is_best_price_def best_level_def heap_levels_def)
      moreover have "worse s (price_of b j) (price_of b i)" if "j \<in> S s" for j
      proof -
        have j: "j < nlevels b" "j \<in> heap_levels b qs S s" "j \<noteq> i"
          using that D(5,6) [OF that] False by (auto simp: heap_levels_def)
        then have "price_of b j \<noteq> price_of b i" using price_of_inject(1) [OF bnd j(1) level(3)] by simp
        then show ?thesis using worse_linear [of s "price_of b j"] level(5) j by auto
      qed
      ultimately show thesis using less.prems by (intro less.prems(1) [of b "price_of b i" S]) auto
    next
      case True
      then have iS: "i \<in> S s" using level(2) by (auto simp: heap_levels_def level_side_def)
      let ?b = "set_heap s (heap_pop (heap_of s b))
        (set_level b (int i) (set_heap_entry (b_price_levels b ! i) False))"
      have un: "best_of s b = best_of s ?b"
        by (subst best_of_unfold) (simp add: level(1,4) emp True priceToIndex_price_of [OF bnd level(3)] getpricelevels_ok [OF level(3)])
      have so: "same_orders b ?b" by (simp add: same_orders_def)
      have "length (heap_of s ?b) < length (heap_of s b)"
        using level(1) by (simp add: heap_top_def heap_pop_def split: list.splits)
      then obtain b' S' p where *: "best_of s ?b = Some (b', p)" "book_inv b' qs fs S'" "same_orders ?b b'"
        "is_best_price ?b qs s p" "S' s \<subseteq> (S(s := S s - {i})) s" "S' (opp s) = (S(s := S s - {i})) (opp s)"
        "\<forall>j \<in> S' s. worse s (price_of ?b j) p"
        using less.hyps [of ?b "S(s := S s - {i})"] pop_stale [OF less.prems(2) level(1) iS] by metis
      have "price_of ?b = price_of b" using so same_bandD by (simp add: same_orders_def)
      then show thesis
        using * un is_best_price_cong [OF so] same_orders_trans [OF so *(3)]
        by (intro less.prems(1) [of b' p S']) auto
    qed
  qed
qed

section \<open>The resting list under a change of one level\<close>

text \<open>The levels of a side around level \<open>i\<close>: those with better prices, and those with worse ones.\<close>

lemma side_split:
  assumes bnd: "band_ok b" and i: "i < nlevels b"
  obtains as bs where "level_order s (nlevels b) = as @ i # bs" "i \<notin> set as" "i \<notin> set bs"
    "\<forall>j \<in> set as. j < nlevels b \<and> worse s (price_of b i) (price_of b j)"
    "\<forall>j \<in> set bs. j < nlevels b \<and> worse s (price_of b j) (price_of b i)"
proof -
  obtain as bs where sp: "level_order s (nlevels b) = as @ i # bs" "\<forall>j \<in> set as. j < nlevels b"
    "\<forall>j \<in> set bs. j < nlevels b"
    "case s of SELL \<Rightarrow> (\<forall>j \<in> set as. j < i) \<and> (\<forall>j \<in> set bs. i < j)
       | BUY \<Rightarrow> (\<forall>j \<in> set as. i < j) \<and> (\<forall>j \<in> set bs. j < i)"
    by (rule level_order_split [OF i])
  have "distinct (as @ i # bs)" using distinct_level_order [of s "nlevels b"] sp(1) by simp
  moreover have "worse s (price_of b i) (price_of b j)" if "j \<in> set as" for j
    using that sp price_of_inject(2) [OF bnd] i by (cases s) auto
  moreover have "worse s (price_of b j) (price_of b i)" if "j \<in> set bs" for j
    using that sp price_of_inject(2) [OF bnd] i by (cases s) auto
  ultimately show thesis using sp by (intro that) auto
qed

definition side_nodes :: "OrderBook \<Rightarrow> (nat \<Rightarrow> u32 list) \<Rightarrow> OrderType \<Rightarrow> u32 list" where
  "side_nodes b qs s = concat (map (level_side b qs s) (level_order s (nlevels b)))"

lemma resting_nodes: "book_view b qs fs \<Longrightarrow> resting b s = map (ord b) (side_nodes b qs s)"
  by (simp add: resting_view side_nodes_def)

lemma best_split:
  assumes bnd: "band_ok b" and best: "best_level b qs s i"
  obtains bs where "side_nodes b qs s = level_side b qs s i @ concat (map (level_side b qs s) bs)"
    "\<And>b' qs'. same_band b b' \<Longrightarrow> \<forall>j < nlevels b. j \<noteq> i \<longrightarrow> level_side b' qs' s j = level_side b qs s j \<Longrightarrow>
      side_nodes b' qs' s = level_side b' qs' s i @ concat (map (level_side b qs s) bs)"
proof -
  have i: "i < nlevels b" using best by (simp add: best_level_def)
  obtain as bs where sp: "level_order s (nlevels b) = as @ i # bs" "i \<notin> set as" "i \<notin> set bs"
    "\<forall>j \<in> set as. j < nlevels b \<and> worse s (price_of b i) (price_of b j)"
    "\<forall>j \<in> set bs. j < nlevels b \<and> worse s (price_of b j) (price_of b i)"
    by (rule side_split [OF bnd i])
  have as: "\<forall>j \<in> set as. level_side b qs s j = []" using sp(4) best by (auto simp: best_level_def)
  have *: "side_nodes b' qs' s = level_side b' qs' s i @ concat (map (level_side b qs s) bs)"
    if "same_band b b'" "\<forall>j < nlevels b. j \<noteq> i \<longrightarrow> level_side b' qs' s j = level_side b qs s j" for b' qs'
  proof -
    have c: "level_side b' qs' s j = level_side b qs s j" if "j \<in> set as \<union> set bs" for j
    proof -
      have "j \<noteq> i" "j < nlevels b" using that sp(2-5) by auto
      then show ?thesis using \<open>\<forall>j < nlevels b. j \<noteq> i \<longrightarrow> _ j\<close> by blast
    qed
    have 1: "concat (map (level_side b' qs' s) as) = []" using as c by simp
    have 2: "map (level_side b' qs' s) bs = map (level_side b qs s) bs" using c by simp
    show ?thesis using that(1) by (simp add: side_nodes_def same_bandD(3) sp(1) 1 2)
  qed
  show thesis by (rule that [OF *]) (auto intro: *)
qed

section \<open>The operations of a side\<close>

lemma level_index:
  assumes "band_ok b" "i < nlevels b"
  shows "\<not> word_of_int (int i) \<ge> b_PRICE_LEVELS b"
proof -
  have "unat (b_PRICE_LEVELS b) = nlevels b" "i < 2 ^ 31" using assms by (auto simp: band_ok_def)
  moreover from this have "unat (of_nat i :: u64) = i" by (simp add: unat_of_nat)
  ultimately show ?thesis using assms(2) by (simp add: word_le_nat_alt)
qed

lemma add_full:
  assumes "book_inv b qs [] S" "i < nlevels b" "o_price order = price_of b i"
  shows "add_of s b order = Some (b, False)"
proof -
  note V = book_viewD [OF book_invD(1) [OF assms(1)]]
  have "insertOrder (b_price_levels b ! i) (b_pool b) order = Some (b_price_levels b ! i, b_pool b, NULL_IDX)"
    by (rule insertOrder_full [OF V(2)])
  then show ?thesis
    using level_index [OF V(1) assms(2)] getpricelevels_ok [OF assms(2)]
    by (simp add: add_of_eq assms(3) priceToIndex_price_of [OF V(1) assms(2)] set_level_def)
qed

lemma add_ok:
  assumes inv: "book_inv b qs (f # fs) S" and i: "i < nlevels b" and pr: "o_price order = price_of b i"
    and ty: "o_type order = s" and fresh: "b_orderMap b (o_order_id order) = None"
    and other: "level_side b qs (opp s) i = []" "i \<notin> S (opp s)"
  obtains b' where "add_of s b order = Some (b', True)" "same_band b b'"
    "book_inv b' (qs(i := qs i @ [f])) fs (S(s := S s - {i}))" "ord b' = (ord b)(f := order)"
    "total_of s b' = total_of s b + ucast (o_quantity order)" "total_of (opp s) b' = total_of (opp s) b"
    "\<And>t j. j < nlevels b \<Longrightarrow> level_side b' (qs(i := qs i @ [f])) t j =
       (if j = i \<and> t = s then level_side b qs t j @ [f] else level_side b qs t j)"
proof -
  note D = book_invD [OF inv]
  note V = book_viewD [OF D(1)]
  let ?q = "b_price_levels b ! i" and ?qs = "qs(i := qs i @ [f])" and ?S = "S(s := S s - {i})"
  obtain q' p' where ins: "insertOrder ?q (b_pool b) order = Some (q', p', f)"
    and view: "\<forall>b' h. same_band b b' \<longrightarrow> b_price_levels b' = (b_price_levels b)[i := set_heap_entry q' h] \<longrightarrow>
       b_pool b' = p' \<longrightarrow> b_orderMap b' = (b_orderMap b)(o_order_id order \<mapsto> f) \<longrightarrow>
       book_view b' ?qs fs \<and> ord b' = (ord b)(f := order)"
    by (rule view_insert [OF D(1) i pr fresh])
  have fN: "f \<noteq> NULL_IDX" using V(2) null_not_slot [OF V(2)] by (auto simp: pool_ok_def)
  define h where "h = (if isEmpty ?q \<and> \<not> has_heap_entry ?q then heap_push (worse s) (price_of b i) (heap_of s b)
    else heap_of s b)"
  define b' where "b' = set_total s (total_of s b + ucast (o_quantity order)) (set_heap s h
     ((set_level b (int i) (set_heap_entry q' True))
        \<lparr>b_pool := p', b_orderMap := (b_orderMap b)(o_order_id order \<mapsto> f)\<rparr>))"
  have add: "add_of s b order = Some (b', True)"
    using level_index [OF V(1) i] getpricelevels_ok [OF i] ins fN
    by (simp add: add_of_eq pr priceToIndex_price_of [OF V(1) i] b'_def h_def)
  have sb: "same_band b b'" by (simp add: b'_def)
  note sbD = same_bandD [OF sb]
  have lv: "b_price_levels b' = (b_price_levels b)[i := set_heap_entry q' True]" by (simp add: b'_def)
  have hp: "heap_of t b' = (if t = s then h else heap_of t b)" "default_of t b' = default_of t b" for t
    by (simp_all add: b'_def)
  have tot: "total_of s b' = total_of s b + ucast (o_quantity order)" "total_of (opp s) b' = total_of (opp s) b"
    by (simp_all add: b'_def)
  have "b_pool b' = p'" "b_orderMap b' = (b_orderMap b)(o_order_id order \<mapsto> f)" by (simp_all add: b'_def)
  then have vw: "book_view b' ?qs fs" and od: "ord b' = (ord b)(f := order)"
    using view [rule_format, OF sb lv] by blast+
  have ls: "level_side b' ?qs t j = (if j = i \<and> t = s then level_side b qs t j @ [f] else level_side b qs t j)"
    if j: "j < nlevels b" for t j
  proof -
    have "f \<notin> set (qs j)" using V(5) [OF j] by auto
    then have "filter (\<lambda>x. o_type (ord b' x) = t) (qs j) = filter (\<lambda>x. o_type (ord b x) = t) (qs j)"
      by (intro filter_cong) (auto simp: od)
    moreover have "ord b' f = order" by (simp add: od)
    ultimately show ?thesis using ty by (auto simp: level_side_def)
  qed
  have opp: "level_side b qs t i = []" if "t \<noteq> s" for t using that other side_exhaust [of t s] by auto
  have hl: "heap_levels b' ?qs ?S t = (if t = s then insert i (heap_levels b qs S t) else heap_levels b qs S t)" for t
    using ls i by (auto simp: heap_levels_def sbD split: if_splits)
  have oppS: "i \<notin> S t" if "t \<noteq> s" for t using that other side_exhaust [of t s] by auto
  have all: "level_side b qs s i = qs i"
    unfolding level_side_def filter_id_conv
  proof
    fix x assume x: "x \<in> set (qs i)"
    then have "o_type (ord b x) \<noteq> opp s" using other(1) by (auto simp: level_side_def filter_empty_conv)
    then show "o_type (ord b x) = s" using side_exhaust by blast
  qed
  have new: "isEmpty ?q \<and> \<not> has_heap_entry ?q \<longleftrightarrow> i \<notin> heap_levels b qs S s"
  proof -
    have "has_heap_entry ?q \<longleftrightarrow> qs i \<noteq> [] \<or> i \<in> S s"
      using D(4) [OF i] oppS unfolding has_heap_entry_def by metis
    then show ?thesis using view_empty [OF D(1) i] i all by (auto simp: heap_levels_def)
  qed
  have "heaps_ok b' ?qs ?S"
  proof -
    have "heap_sorted (worse s) h" using D(2) side_heap.inv_push [OF D(2)] by (simp add: h_def)
    moreover have "mset h = mset_set (insert (default_of s b) (price_of b ` insert i (heap_levels b qs S s)))"
    proof (cases "i \<in> heap_levels b qs S s")
      case True
      then show ?thesis using D(3) new by (simp add: insert_absorb h_def)
    next
      case False
      have "price_of b i \<notin> insert (default_of s b) (price_of b ` heap_levels b qs S s)"
        using False default_worse(2) [OF V(1) i, of s] price_of_inject(1) [OF V(1) i]
        by (auto simp: heap_levels_def)
      then have "mset_set (insert (price_of b i) (insert (default_of s b) (price_of b ` heap_levels b qs S s)))
          = add_mset (price_of b i) (mset (heap_of s b))" by (simp add: D(3))
      then show ?thesis using False new by (simp add: insert_commute h_def)
    qed
    ultimately show ?thesis using D(2,3) by (simp add: heaps_ok_def hl sbD hp)
  qed
  moreover have "flags_ok b' ?qs ?S"
    unfolding flags_ok_def sbD
  proof (intro conjI allI impI ballI)
    fix j assume j: "j < nlevels b"
    show "q_heap_entry (b_price_levels b' ! j) \<longleftrightarrow> ?qs j \<noteq> [] \<or> (\<exists>t. j \<in> ?S t)"
      using D(4) [OF j] i by (cases "j = i") (auto simp: set_heap_entry_def lv)
    fix t
    show "level_side b' ?qs t j = [] \<or> level_side b' ?qs t j = ?qs j"
      using D(8) [OF j, of t] ls [OF j, of t] opp [of t] all by (cases "j = i"; cases "t = s") simp_all
  next
    fix t j assume j: "j \<in> ?S t"
    then have "j \<in> S t" "j \<noteq> i" using oppS by (auto split: if_splits)
    then show "j < nlevels b" "?qs j = []" "j \<notin> ?S (opp t)"
      using D(5-7) by auto
  qed
  ultimately have "book_inv b' ?qs fs ?S" using vw by (simp add: book_inv_def)
  then show thesis using add od ls sb tot by (intro that [of b']) simp_all
qed


lemma remove_ok:
  assumes inv: "book_inv b qs fs S" and i: "i < nlevels b" and q: "qs i = x # xs"
    and ty: "level_side b qs s i = qs i"
  obtains b' where "remove_of s b (price_of b i) = Some (b', True)" "same_band b b'"
    "book_inv b' (qs(i := xs)) (x # fs) (if xs = [] then S(s := insert i (S s)) else S)" "ord b' = ord b"
    "total_of s b' = total_of s b - ucast (o_quantity (ord b x))" "total_of (opp s) b' = total_of (opp s) b"
proof -
  note D = book_invD [OF inv]
  note V = book_viewD [OF D(1)]
  let ?q = "b_price_levels b ! i" and ?qs = "qs(i := xs)"
  define S' where "S' = (if xs = [] then S(s := insert i (S s)) else S)"
  obtain q' p' where rem: "removeOrder ?q (b_pool b) x = Some (q', p', True)"
    and he: "q_heap_entry q' = q_heap_entry ?q"
    and view: "\<forall>b'. same_band b b' \<longrightarrow> b_price_levels b' = (b_price_levels b)[i := q'] \<longrightarrow>
       b_pool b' = p' \<longrightarrow> b_orderMap b' = (b_orderMap b)(o_order_id (ord b x) := None) \<longrightarrow>
       book_view b' (qs(i := [] @ xs)) (x # fs) \<and> ord b' = ord b"
    by (rule view_remove [OF D(1) i, of "[]" x xs]) (simp_all add: q)
  have hd: "gethead ?q (b_pool b) = Some (nd (b_pool b) x)"
    using gethead_ok [OF V(2)] V(3) [OF i] q by simp
  have om: "b_orderMap b (o_order_id (n_order (nd (b_pool b) x))) = Some x"
    using V(8) [of "o_order_id (ord b x)" x] i q by (auto simp: ord_def)
  have ne: "\<not> isEmpty ?q" using view_empty [OF D(1) i] q by simp
  define b' where "b' = set_total s (total_of s b - ucast (o_quantity (ord b x)))
    ((set_level b (int i) q')\<lparr>b_pool := p', b_orderMap := (b_orderMap b)(o_order_id (ord b x) := None)\<rparr>)"
  have rm: "remove_of s b (price_of b i) = Some (b', True)"
    using getpricelevels_ok [OF i] hd om ne rem
    by (simp add: remove_of_eq priceToIndex_price_of [OF V(1) i] b'_def ord_def)
  have sb: "same_band b b'" by (simp add: b'_def)
  note sbD = same_bandD [OF sb]
  have lv: "b_price_levels b' = (b_price_levels b)[i := q']" by (simp add: b'_def)
  have hp: "heap_of t b' = heap_of t b" "default_of t b' = default_of t b" for t by (simp_all add: b'_def)
  have "b_pool b' = p'" "b_orderMap b' = (b_orderMap b)(o_order_id (ord b x) := None)" by (simp_all add: b'_def)
  then have vw: "book_view b' ?qs (x # fs)" and od: "ord b' = ord b" using view [rule_format, OF sb lv] by simp_all
  have ts: "\<forall>y \<in> set (x # xs). o_type (ord b y) = s"
    using ty unfolding level_side_def filter_id_conv q .
  have lsi: "level_side b' ?qs t i = (if t = s then xs else [])" for t
    using ts by (auto simp: level_side_def od)
  have lso: "level_side b' ?qs t j = level_side b qs t j" if "j \<noteq> i" for t j
    using that by (simp add: level_side_def od)
  have opp: "level_side b qs t i = (if t = s then x # xs else [])" for t
    using ts q by (auto simp: level_side_def)
  have iS: "i \<notin> S t" for t using D(6) [of i t] q by auto
  have hl: "heap_levels b' ?qs S' t = heap_levels b qs S t" for t
  proof -
    have "j \<in> heap_levels b' ?qs S' t \<longleftrightarrow> j \<in> heap_levels b qs S t" for j
      using i lsi [of t] lso [of j t] opp [of t] iS [of t]
      by (cases "j = i") (simp_all add: heap_levels_def sbD S'_def)
    then show ?thesis by blast
  qed
  have "flags_ok b' ?qs S'"
    unfolding flags_ok_def sbD
  proof (intro conjI allI impI ballI)
    fix j assume j: "j < nlevels b"
    show "q_heap_entry (b_price_levels b' ! j) \<longleftrightarrow> ?qs j \<noteq> [] \<or> (\<exists>t. j \<in> S' t)"
      using D(4) [OF j] i he q by (cases "j = i") (auto simp: lv S'_def)
    fix t
    show "level_side b' ?qs t j = [] \<or> level_side b' ?qs t j = ?qs j"
      using D(8) [OF j, of t] lsi [of t] lso [of j t] by (cases "j = i") simp_all
  next
    fix t j assume j: "j \<in> S' t"
    show "j < nlevels b" "?qs j = []" "j \<notin> S' (opp t)"
      using j D(5-7) [of j t] iS i by (auto simp: S'_def split: if_splits)
  qed
  moreover have "heaps_ok b' ?qs S'" using D(2,3) by (simp add: heaps_ok_def hl hp sbD)
  ultimately have "book_inv b' ?qs (x # fs) S'" using vw by (simp add: book_inv_def)
  then show thesis
    using rm od sb by (intro that [of b']) (simp_all add: S'_def, simp_all add: b'_def)
qed

lemma modify_ok:
  assumes inv: "book_inv b qs fs S" and i: "i < nlevels b" and q: "qs i = x # xs"
  obtains b' where "modifyQuantity b (price_of b i) nq = Some (b', True)" "same_band b b'"
    "book_inv b' qs fs S" "ord b' = (ord b)(x := (ord b x)\<lparr>o_quantity := nq\<rparr>)"
    "\<forall>s. total_of s b' = total_of s b"
proof -
  note D = book_invD [OF inv]
  note V = book_viewD [OF D(1)]
  obtain p' where u: "updNode (b_pool b) x (\<lambda>n. n\<lparr>n_order := (\<lambda>r. r\<lparr>o_quantity := nq\<rparr>) (n_order n)\<rparr>) = Some p'"
    and vw: "book_view (b\<lparr>b_pool := p'\<rparr>) qs fs"
    and od: "ord (b\<lparr>b_pool := p'\<rparr>) = (ord b)(x := (\<lambda>r. r\<lparr>o_quantity := nq\<rparr>) (ord b x))"
    by (rule view_modify [OF D(1) i, of x "\<lambda>r. r\<lparr>o_quantity := nq\<rparr>"]) (simp_all add: q)
  have hd: "q_head (b_price_levels b ! i) = x" using gethead_ok(2) [OF V(2)] V(3) [OF i] q by simp
  have ne: "\<not> isEmpty (b_price_levels b ! i)" using view_empty [OF D(1) i] q by simp
  let ?b = "b\<lparr>b_pool := p'\<rparr>"
  have "modifyQuantity b (price_of b i) nq = Some (?b, True)"
    using getpricelevels_ok [OF i] level_index [OF V(1) i] u hd ne
    by (simp add: modifyQuantity_def priceToIndex_price_of [OF V(1) i])
  moreover have sb: "same_band b ?b" by simp
  moreover have "book_inv ?b qs fs S"
  proof -
    have "level_side ?b qs = level_side b qs"
      by (intro ext) (auto simp: level_side_def od intro!: filter_cong)
    then show ?thesis
      using inv vw by (simp add: book_inv_def heaps_ok_def flags_ok_def heap_levels_def same_bandD [OF sb])
  qed
  ultimately show thesis using od by (intro that [of ?b]) simp_all
qed

end
