(* ===== verification/Book_Wf.thy ===== *)
theory Book_Wf
  imports Book_Sides
begin

text \<open>
  Well-formed books, the invariant between two orders: no stale levels, the totals are the sums of the
  resting quantities, every resting quantity is positive and the best buy price is below the best sell
  price. The laws at the end (\<open>wf_best\<close>, \<open>wf_head\<close>, \<open>wf_remove_best\<close>, \<open>wf_modify\<close>, \<open>wf_add\<close>, \<open>wf_new\<close>)
  describe every operation the matching engine calls by its effect on the two resting lists.
\<close>

section \<open>Well-formed books\<close>

definition qty_sum :: "Order list \<Rightarrow> nat" where
  "qty_sum rs = (\<Sum>r\<leftarrow>rs. unat (o_quantity r))"

definition wf_book :: "OrderBook \<Rightarrow> bool" where
  "wf_book b \<longleftrightarrow> (\<exists>qs fs. book_inv b qs fs (\<lambda>_. {})) \<and>
     (\<forall>s. total_of s b = of_nat (qty_sum (resting b s)) \<and> (\<forall>r \<in> set (resting b s). 0 < o_quantity r)) \<and>
     (\<forall>x \<in> set (resting b BUY). \<forall>y \<in> set (resting b SELL). o_price x < o_price y)"

definition book_capacity :: "OrderBook \<Rightarrow> nat" where
  "book_capacity b = length (mp_nodes (b_pool b))"

text \<open>Two books of the same band and the same pool size.\<close>

definition same_shape :: "OrderBook \<Rightarrow> OrderBook \<Rightarrow> bool" where
  "same_shape b b' \<longleftrightarrow> same_band b b' \<and> book_capacity b' = book_capacity b"

lemma same_shape_refl [simp]: "same_shape b b"
  by (simp add: same_shape_def)

lemma same_shape_trans: "same_shape a b \<Longrightarrow> same_shape b c \<Longrightarrow> same_shape a c"
  using same_band_trans by (auto simp: same_shape_def)

lemma same_shape_valid: "same_shape b b' \<Longrightarrow> isPriceValid b' = isPriceValid b"
  using same_bandD(4) by (auto simp: same_shape_def)

lemma side_nodes_distinct:
  assumes v: "book_view b qs fs"
  shows "distinct (side_nodes b qs BUY @ side_nodes b qs SELL @ fs)"
    "set (side_nodes b qs BUY @ side_nodes b qs SELL @ fs) = slots (b_pool b)"
proof -
  note V = book_viewD [OF v]
  have sub: "set (level_side b qs s i) \<subseteq> set (qs i)" for s i by (auto simp: level_side_def)
  have one: "distinct (side_nodes b qs s)" for s
  proof -
    have "distinct (concat (map (level_side b qs s) is))" if "distinct is" "set is \<subseteq> {..<nlevels b}" for "is"
      using that
    proof (induction "is")
      case (Cons i "is")
      have "set (level_side b qs s i) \<inter> set (level_side b qs s j) = {}" if "j \<in> set is" for j
        using sub V(4) [of i j] that Cons.prems by fastforce
      moreover have "distinct (level_side b qs s i)"
        using V(3) [of i] Cons.prems by (auto simp: level_side_def queue_ok_def)
      ultimately show ?case using Cons by auto
    qed simp
    then show ?thesis by (simp add: side_nodes_def)
  qed
  have mem: "x \<in> set (side_nodes b qs s) \<longleftrightarrow> (\<exists>i < nlevels b. x \<in> set (qs i)) \<and> o_type (ord b x) = s" for x s
    by (auto simp: side_nodes_def level_side_def)
  have fs: "x \<notin> set fs" if "i < nlevels b" "x \<in> set (qs i)" for x i using V(5) [OF that(1)] that(2) by blast
  show "distinct (side_nodes b qs BUY @ side_nodes b qs SELL @ fs)"
    using one V(2) fs by (auto simp: mem pool_ok_def)
  have "x \<in> set (side_nodes b qs BUY) \<union> set (side_nodes b qs SELL) \<longleftrightarrow> x \<in> (\<Union>i < nlevels b. set (qs i))" for x
    using mem [of x] by (cases "o_type (ord b x)") auto
  then show "set (side_nodes b qs BUY @ side_nodes b qs SELL @ fs) = slots (b_pool b)"
    unfolding V(6) [symmetric] by auto
qed

lemma card_slots:
  assumes "length (mp_nodes p) < 2 ^ 32"
  shows "card (slots p) = length (mp_nodes p)"
proof -
  have "unat ` slots p = {..<length (mp_nodes p)}"
  proof
    show "{..<length (mp_nodes p)} \<subseteq> unat ` slots p"
    proof
      fix n assume n: "n \<in> {..<length (mp_nodes p)}"
      then have "unat (of_nat n :: u32) = n" using assms by (simp add: unat_of_nat)
      then show "n \<in> unat ` slots p" using n by (intro image_eqI [of _ _ "of_nat n"]) (auto simp: slots_def)
    qed
  qed (auto simp: slots_def)
  moreover have "inj_on unat (slots p)" by (simp add: inj_on_def)
  ultimately show ?thesis by (metis card_image card_lessThan)
qed

lemma resting_count:
  assumes v: "book_view b qs fs"
  shows "length (resting b BUY) + length (resting b SELL) + length fs = book_capacity b"
    "length (resting b s) < 2 ^ 31"
proof -
  have p: "length (mp_nodes (b_pool b)) < 2 ^ 31" using book_viewD(2) [OF v] by (simp add: pool_ok_def)
  have "length (side_nodes b qs BUY @ side_nodes b qs SELL @ fs) = card (slots (b_pool b))"
    using side_nodes_distinct [OF v] distinct_card by metis
  then show *: "length (resting b BUY) + length (resting b SELL) + length fs = book_capacity b"
    using p by (simp add: card_slots resting_nodes [OF v] book_capacity_def)
  then show "length (resting b s) < 2 ^ 31" using p by (cases s) (simp_all add: book_capacity_def)
qed

lemma same_shapeI:
  assumes "book_view b qs fs" "book_view b' qs' fs'" "same_band b b'"
    "length (resting b' s) + length (resting b' (opp s)) + length fs'
     = length (resting b s) + length (resting b (opp s)) + length fs"
  shows "same_shape b b'"
  using assms resting_count(1) [OF assms(1)] resting_count(1) [OF assms(2)]
  by (cases s) (simp_all add: same_shape_def)

lemma qty_sum_simps [simp]:
  "qty_sum [] = 0" "qty_sum (r # rs) = unat (o_quantity r) + qty_sum rs"
  "qty_sum (xs @ ys) = qty_sum xs + qty_sum ys"
  by (simp_all add: qty_sum_def)

lemma qty_sum_bound: "qty_sum rs \<le> length rs * (2 ^ 32 - 1)"
proof (induction rs)
  case (Cons r rs)
  have "unat (o_quantity r) < 2 ^ LENGTH(32)" by (rule unsigned_less)
  then show ?case using Cons by simp
qed simp

lemma total_zero_iff:
  assumes "wf_book b"
  shows "total_of s b = 0 \<longleftrightarrow> resting b s = []" "unat (total_of s b) = qty_sum (resting b s)"
proof -
  obtain qs fs where inv: "book_inv b qs fs (\<lambda>_. {})" using assms by (auto simp: wf_book_def)
  have "length (resting b s) < 2 ^ 31" by (rule resting_count(2) [OF book_invD(1) [OF inv]])
  then have "length (resting b s) * (2 ^ 32 - 1) \<le> (2 ^ 31 - 1) * (2 ^ 32 - 1)"
    by (intro mult_le_mono) auto
  then have "qty_sum (resting b s) < 2 ^ LENGTH(64)"
    using qty_sum_bound [of "resting b s"] by simp
  then show u: "unat (total_of s b) = qty_sum (resting b s)"
    using assms by (simp add: wf_book_def unat_of_nat)
  have "total_of s b = 0 \<longleftrightarrow> unat (total_of s b) = 0" by (simp add: unsigned_eq_0_iff)
  also have "\<dots> \<longleftrightarrow> resting b s = []"
  proof (cases "resting b s")
    case (Cons r rs)
    then have "0 < unat (o_quantity r)"
      using assms unfolding wf_book_def by (metis list.set_intros(1) unsigned_eq_0_iff neq0_conv word_neq_0_conv)
    then show ?thesis using Cons u by simp
  qed (use u in simp)
  finally show "total_of s b = 0 \<longleftrightarrow> resting b s = []" .
qed

lemma resting_order:
  assumes v: "book_view b qs fs" and r: "r \<in> set (resting b s)"
  shows "o_type r = s" "isPriceValid b (o_price r)"
  using r valid_price_of [OF book_viewD(1) [OF v]] book_viewD(7) [OF v]
  by (auto simp: set_resting [OF v])

lemma known_ids:
  assumes v: "book_view b qs fs"
  shows "b_orderMap b oid = None \<longleftrightarrow> (\<forall>s. oid \<notin> o_order_id ` set (resting b s))"
proof -
  have "b_orderMap b oid = None \<longleftrightarrow> (\<forall>x. \<not> ((\<exists>i < nlevels b. x \<in> set (qs i)) \<and> o_order_id (ord b x) = oid))"
    using book_viewD(8) [OF v, of oid] by (metis not_Some_eq)
  also have "\<dots> \<longleftrightarrow> (\<forall>s. oid \<notin> o_order_id ` set (resting b s))"
    unfolding image_iff Bex_def set_resting [OF v] by metis
  finally show ?thesis .
qed

text \<open>A resting list goes from better to worse prices.\<close>

lemma resting_sorted:
  assumes v: "book_view b qs fs"
  shows "sorted_wrt (\<lambda>x y. \<not> worse s (o_price x) (o_price y)) (resting b s)"
proof -
  note V = book_viewD [OF v]
  have ord: "sorted_wrt (\<lambda>i j. i \<in> {..<nlevels b} \<and> j \<in> {..<nlevels b} \<and> worse s (price_of b j) (price_of b i))
      (level_order s (nlevels b))"
    by (cases s) (auto simp: sorted_wrt_iff_nth_less rev_nth price_of_inject(2) [OF V(1)])
  have "sorted_wrt (\<lambda>x y. \<not> worse s (o_price x) (o_price y)) (map (ord b) (concat (map (level_side b qs s) is)))"
    if "sorted_wrt (\<lambda>i j. i \<in> {..<nlevels b} \<and> j \<in> {..<nlevels b} \<and> worse s (price_of b j) (price_of b i)) is"
      "set is \<subseteq> {..<nlevels b}" for "is"
    using that
  proof (induction "is")
    case (Cons i "is")
    have pr: "o_price (ord b x) = price_of b j" if "j < nlevels b" "x \<in> set (level_side b qs s j)" for x j
      using V(7) [OF that(1)] that(2) by (auto simp: level_side_def)
    have irr: "\<not> worse s p p" for p using worse_asym by blast
    have "sorted_wrt (\<lambda>x y. \<not> worse s (o_price x) (o_price y)) (map (ord b) (level_side b qs s i))"
      using pr [of i] Cons.prems by (auto simp: sorted_wrt_iff_nth_less irr)
    moreover have "\<not> worse s (o_price (ord b x)) (o_price (ord b y))"
      if "x \<in> set (level_side b qs s i)" "y \<in> set (level_side b qs s j)" "j \<in> set is" for x y j
      using that Cons.prems pr [of i x] pr [of j y] worse_asym by auto
    ultimately show ?case using Cons by (auto simp: sorted_wrt_append)
  qed simp
  then show ?thesis using ord by (simp add: resting_view [OF v])
qed

text \<open>The head of a resting list is the head of the queue at the best level.\<close>

lemma unmixed:
  assumes "book_inv b qs fs S" "i < nlevels b" "level_side b qs s i \<noteq> []"
  shows "level_side b qs s i = qs i" "level_side b qs (opp s) i = []"
proof -
  show q: "level_side b qs s i = qs i" using book_invD(8) [OF assms(1,2), of s] assms(3) by auto
  then have "\<forall>x \<in> set (qs i). o_type (ord b x) = s" by (simp add: level_side_def filter_id_conv)
  then show "level_side b qs (opp s) i = []" by (simp add: level_side_def)
qed

lemma is_best_price_resting:
  assumes inv: "book_inv b qs fs S" and p: "is_best_price b qs s p"
  shows "p = (case resting b s of [] \<Rightarrow> default_of s b | r # _ \<Rightarrow> o_price r)"
proof -
  note v = book_invD(1) [OF inv] and bnd = book_viewD(1) [OF book_invD(1) [OF inv]]
  consider "p = default_of s b" "\<forall>i < nlevels b. level_side b qs s i = []"
    | i where "best_level b qs s i" "p = price_of b i"
    using p by (auto simp: is_best_price_def)
  then show ?thesis
  proof cases
    case 1
    then have "resting b s = []" by (simp add: resting_nodes [OF v] side_nodes_def)
    with 1 show ?thesis by simp
  next
    case 2
    obtain bs where "side_nodes b qs s = level_side b qs s i @ concat (map (level_side b qs s) bs)"
      by (rule best_split [OF bnd 2(1)])
    moreover obtain x xs where "level_side b qs s i = x # xs" "x \<in> set (qs i)" "i < nlevels b"
      using 2(1) unfolding best_level_def level_side_def
      by (metis filter_is_subset list.exhaust list.set_intros(1) subset_iff)
    ultimately show ?thesis using 2(2) book_viewD(7) [OF v] by (simp add: resting_nodes [OF v])
  qed
qed

lemma resting_head:
  assumes inv: "book_inv b qs fs S" and r: "resting b s = r # rs"
  obtains i x xs where "best_level b qs s i" "i < nlevels b" "qs i = x # xs" "level_side b qs s i = qs i"
    "ord b x = r" "o_price r = price_of b i"
proof -
  note v = book_invD(1) [OF inv] and bnd = book_viewD(1) [OF book_invD(1) [OF inv]]
  obtain b' S' p where "best_of s b = Some (b', p)" "book_inv b' qs fs S'" "same_orders b b'"
    and p: "is_best_price b qs s p" and "S' s \<subseteq> S s" "S' (opp s) = S (opp s)" "\<forall>i \<in> S' s. worse s (price_of b i) p"
    by (rule best_of_ok [OF inv])
  have "\<not> (\<forall>i < nlevels b. level_side b qs s i = [])"
  proof
    assume "\<forall>i < nlevels b. level_side b qs s i = []"
    then have "side_nodes b qs s = []" by (simp add: side_nodes_def)
    then show False using r by (simp add: resting_nodes [OF v])
  qed
  then obtain i where best: "best_level b qs s i" using p unfolding is_best_price_def by blast
  obtain bs where sp: "side_nodes b qs s = level_side b qs s i @ concat (map (level_side b qs s) bs)"
    by (rule best_split [OF bnd best])
  have i: "i < nlevels b" and ne: "level_side b qs s i \<noteq> []" using best by (auto simp: best_level_def)
  have q: "level_side b qs s i = qs i" by (rule unmixed [OF inv i ne])
  with ne obtain x xs where x: "qs i = x # xs" by (cases "qs i") auto
  then have "ord b x = r" using r sp q by (simp add: resting_nodes [OF v])
  moreover have "o_price (ord b x) = price_of b i" using book_viewD(7) [OF v i] x by simp
  ultimately show thesis using that best i x q by simp
qed

definition best_resting :: "OrderBook \<Rightarrow> OrderType \<Rightarrow> u64" where
  "best_resting b s = (case resting b s of [] \<Rightarrow> default_of s b | r # _ \<Rightarrow> o_price r)"

lemma resting_cong:
  assumes "book_view b qs fs" "book_view b' qs' fs'" "same_band b b'"
    "\<forall>j < nlevels b. map (ord b') (level_side b' qs' s j) = map (ord b) (level_side b qs s j)"
  shows "resting b' s = resting b s"
proof -
  have "map (\<lambda>j. map (ord b') (level_side b' qs' s j)) (level_order s (nlevels b))
      = map (\<lambda>j. map (ord b) (level_side b qs s j)) (level_order s (nlevels b))"
    using assms(4) by simp
  then show ?thesis
    using same_bandD(3) [OF assms(3)] unfolding resting_view [OF assms(1)] resting_view [OF assms(2)]
    by (simp only: map_concat map_map comp_def)
qed

lemma wf_best:
  assumes "wf_book b"
  shows "best_of s b = Some (b, best_resting b s)"
proof -
  obtain qs fs where inv: "book_inv b qs fs (\<lambda>_. {})" using assms by (auto simp: wf_book_def)
  note D = book_invD [OF inv]
  have bnd: "band_ok b" by (rule book_viewD [OF D(1)])
  have "\<exists>p. best_of s b = Some (b, p) \<and> is_best_price b qs s p"
    using inv
  proof (cases rule: heap_top_ok [where s = s])
    case none
    have "best_of s b = Some (b, default_of s b)" by (subst best_of_unfold) (simp add: none)
    then show ?thesis using none(2) by (auto simp: is_best_price_def heap_levels_def)
  next
    case (level i)
    have ne: "qs i \<noteq> []" using level(2) by (auto simp: heap_levels_def level_side_def)
    have "best_of s b = Some (b, price_of b i)"
      by (subst best_of_unfold) (simp add: level(1,4) ne view_empty [OF D(1) level(3)]
          priceToIndex_price_of [OF bnd level(3)] getpricelevels_ok [OF level(3)])
    then show ?thesis using level by (auto simp: is_best_price_def best_level_def heap_levels_def)
  qed
  then show ?thesis using is_best_price_resting [OF inv] by (auto simp: best_resting_def)
qed

lemma wf_head:
  assumes "wf_book b" "resting b s = r # rs"
  obtains q n where "getpricelevels b (priceToIndex b (o_price r)) = Some q" "gethead q (b_pool b) = Some n"
    "n_order n = r"
proof -
  obtain qs fs where inv: "book_inv b qs fs (\<lambda>_. {})" using assms by (auto simp: wf_book_def)
  note V = book_viewD [OF book_invD(1) [OF inv]]
  obtain i x xs where i: "i < nlevels b" "qs i = x # xs" "ord b x = r" "o_price r = price_of b i"
    by (rule resting_head [OF inv assms(2)])
  have "gethead (b_price_levels b ! i) (b_pool b) = Some (nd (b_pool b) x)"
    using gethead_ok(1) [OF V(2)] V(3) [OF i(1)] i(2) by simp
  then show thesis
    using that i getpricelevels_ok [OF i(1)] priceToIndex_price_of [OF V(1) i(1)] by (simp add: ord_def)
qed

lemma wf_subset:
  assumes wf: "wf_book b" and inv: "book_inv b' qs fs (\<lambda>_. {})"
    and tot: "\<And>t. total_of t b' = of_nat (qty_sum (resting b' t))"
    and sub: "\<And>t r. r \<in> set (resting b' t) \<Longrightarrow>
      0 < o_quantity r \<and> (\<exists>r' \<in> set (resting b t). o_price r' = o_price r)"
  shows "wf_book b'"
  unfolding wf_book_def
proof (intro conjI allI ballI)
  fix x y assume "x \<in> set (resting b' BUY)" "y \<in> set (resting b' SELL)"
  then show "o_price x < o_price y" using sub wf unfolding wf_book_def by metis
qed (use inv tot sub in auto)

lemma of_nat_word32: "of_nat (unat (q :: u32)) = (ucast q :: u64)"
  by (simp add: word_eq_iff_unsigned [where 'a = nat] unat_of_nat unsigned_ucast_eq)

text \<open>
  The stale level that the removal of the last order of the best level leaves is the first one
  the next call of \<open>bestbuyprice\<close> or \<open>bestsellprice\<close> meets, so no stale level survives the pair of calls.
\<close>

lemma remove_best_inv:
  assumes inv: "book_inv b qs fs (\<lambda>_. {})" and best: "best_level b qs s i"
    and q: "qs i = x # xs" and ty: "level_side b qs s i = qs i"
  obtains b1 b2 p where "remove_of s b (price_of b i) = Some (b1, True)" "best_of s b1 = Some (b2, p)"
    "book_inv b2 (qs(i := xs)) (x # fs) (\<lambda>_. {})" "same_band b b2" "ord b2 = ord b"
    "is_best_price b2 (qs(i := xs)) s p"
    "total_of s b2 = total_of s b - ucast (o_quantity (ord b x))" "total_of (opp s) b2 = total_of (opp s) b"
    "\<forall>t. \<forall>j < nlevels b. level_side b2 (qs(i := xs)) t j = (if j = i \<and> t = s then xs else level_side b qs t j)"
proof -
  note V = book_viewD [OF book_invD(1) [OF inv]]
  have i: "i < nlevels b" using best by (simp add: best_level_def)
  let ?S = "\<lambda>_ :: OrderType. {} :: nat set"
  obtain b1 where rm: "remove_of s b (price_of b i) = Some (b1, True)" and sb1: "same_band b b1"
    and inv1: "book_inv b1 (qs(i := xs)) (x # fs) (if xs = [] then ?S(s := insert i (?S s)) else ?S)"
    and od1: "ord b1 = ord b"
    and tot1: "total_of s b1 = total_of s b - ucast (o_quantity (ord b x))" "total_of (opp s) b1 = total_of (opp s) b"
    by (rule remove_ok [OF inv i q ty])
  note sb1D = same_bandD [OF sb1]
  obtain b2 S2 p where bst: "best_of s b1 = Some (b2, p)" and inv2: "book_inv b2 (qs(i := xs)) (x # fs) S2"
    and so: "same_orders b1 b2" and p: "is_best_price b1 (qs(i := xs)) s p"
    and S2: "S2 s \<subseteq> (if xs = [] then ?S(s := insert i (?S s)) else ?S) s"
      "S2 (opp s) = (if xs = [] then ?S(s := insert i (?S s)) else ?S) (opp s)"
      "\<forall>j \<in> S2 s. worse s (price_of b1 j) p"
    by (rule best_of_ok [OF inv1])
  have ls: "level_side b1 (qs(i := xs)) t j = (if j = i \<and> t = s then xs else level_side b qs t j)"
    if "j < nlevels b" for t j
  proof -
    have "\<forall>y \<in> set (qs i). o_type (ord b y) = s" using ty by (simp add: level_side_def filter_id_conv)
    then have "filter (\<lambda>y. o_type (ord b y) = t) xs = (if t = s then xs else [])"
      "filter (\<lambda>y. o_type (ord b y) = t) (qs i) = (if t = s then qs i else [])"
      by (auto simp: q)
    then show ?thesis by (auto simp: level_side_def od1)
  qed
  have none: "S2 t = {}" for t
  proof (cases "t = s")
    case True
    have "i \<notin> S2 s"
    proof
      assume iS: "i \<in> S2 s"
      then have w: "worse s (price_of b i) p" using S2(3) sb1D by simp
      then have "p \<noteq> default_of s b1"
        using worse_asym default_worse(1) [OF V(1) i, of s] same_band_default [OF sb1, of s] by auto
      then obtain k where k: "best_level b1 (qs(i := xs)) s k" "p = price_of b k"
        using p sb1D by (auto simp: is_best_price_def)
      then have kn: "k < nlevels b" "level_side b1 (qs(i := xs)) s k \<noteq> []"
        using sb1D by (auto simp: best_level_def)
      then have "level_side b qs s k \<noteq> []" using ls [OF kn(1), of s] ty q by (auto split: if_splits)
      then show False using best kn w k(2) by (auto simp: best_level_def)
    qed
    then show ?thesis using True S2(1) by (auto split: if_splits)
  next
    case False
    then show ?thesis using S2(2) side_exhaust [of t s] by auto
  qed
  then have inv2': "book_inv b2 (qs(i := xs)) (x # fs) ?S" using inv2 by (metis (no_types) ext)
  have "same_band b b2" using so sb1 same_band_trans by (auto simp: same_orders_def)
  then show thesis
    using that [OF rm bst inv2'] tot1 so od1 same_orders_ord [OF so] ls p is_best_price_cong [OF so]
    by (simp add: same_orders_def)
qed

lemma wf_remove_best:
  assumes wf: "wf_book b" and r: "resting b s = r # rs"
  obtains b1 b2 where "remove_of s b (o_price r) = Some (b1, True)" "best_of s b1 = Some (b2, best_resting b2 s)"
    "wf_book b2" "resting b2 s = rs" "resting b2 (opp s) = resting b (opp s)" "same_shape b b2"
proof -
  obtain qs fs where inv: "book_inv b qs fs (\<lambda>_. {})" using wf by (auto simp: wf_book_def)
  note D = book_invD [OF inv]
  note V = book_viewD [OF D(1)]
  obtain i x xs where best: "best_level b qs s i" and i: "i < nlevels b" and q: "qs i = x # xs"
    and ty: "level_side b qs s i = qs i" and x: "ord b x = r" "o_price r = price_of b i"
    by (rule resting_head [OF inv r])
  obtain b1 b2 p where rm: "remove_of s b (price_of b i) = Some (b1, True)" and bst: "best_of s b1 = Some (b2, p)"
    and inv2: "book_inv b2 (qs(i := xs)) (x # fs) (\<lambda>_. {})" and sb2: "same_band b b2" and od2: "ord b2 = ord b"
    and p: "is_best_price b2 (qs(i := xs)) s p"
    and tot2: "total_of s b2 = total_of s b - ucast (o_quantity (ord b x))" "total_of (opp s) b2 = total_of (opp s) b"
    and ls: "\<forall>t. \<forall>j < nlevels b. level_side b2 (qs(i := xs)) t j = (if j = i \<and> t = s then xs else level_side b qs t j)"
    by (rule remove_best_inv [OF inv best q ty])
  note v2 = book_invD(1) [OF inv2]
  obtain bs where sp: "side_nodes b qs s = level_side b qs s i @ concat (map (level_side b qs s) bs)"
    and sp': "\<And>b' qs'. same_band b b' \<Longrightarrow> \<forall>j < nlevels b. j \<noteq> i \<longrightarrow> level_side b' qs' s j = level_side b qs s j \<Longrightarrow>
      side_nodes b' qs' s = level_side b' qs' s i @ concat (map (level_side b qs s) bs)"
    by (rule best_split [OF V(1) best]) blast
  have "side_nodes b2 (qs(i := xs)) s = xs @ concat (map (level_side b qs s) bs)"
    using sp' [OF sb2, of "qs(i := xs)"] ls i by simp
  then have res: "resting b2 s = rs"
    using r sp ty q by (simp add: resting_nodes [OF v2] resting_nodes [OF D(1)] od2)
  have opp: "resting b2 (opp s) = resting b (opp s)"
    by (rule resting_cong [OF D(1) v2 sb2]) (use ls in \<open>simp add: od2\<close>)
  have tot: "total_of t b2 = of_nat (qty_sum (resting b2 t))" for t
  proof (cases "t = s")
    case True
    have "total_of s b = of_nat (qty_sum (r # rs))" using wf r by (simp add: wf_book_def)
    then show ?thesis using True tot2 x by (simp add: res of_nat_word32)
  next
    case False
    then have "t = opp s" using side_exhaust by blast
    then show ?thesis using tot2 opp wf by (simp add: wf_book_def)
  qed
  have sub: "0 < o_quantity r' \<and> (\<exists>r'' \<in> set (resting b t). o_price r'' = o_price r')"
    if "r' \<in> set (resting b2 t)" for t r'
  proof -
    have "r' \<in> set (resting b t)" using that side_exhaust [of t s] res opp r by auto
    then show ?thesis using wf by (auto simp: wf_book_def)
  qed
  have wf2: "wf_book b2" by (rule wf_subset [OF wf inv2 tot sub])
  have "p = best_resting b2 s"
    using is_best_price_resting [OF inv2 p] by (simp add: best_resting_def)
  moreover have "same_shape b b2"
    by (rule same_shapeI [OF D(1) v2 sb2, of s]) (simp add: res opp r)
  ultimately show thesis using that rm x(2) bst wf2 res opp by simp
qed

text \<open>The resting lists when the order at the head of the best level changes in place.\<close>

lemma resting_modify:
  assumes v: "book_view b qs fs" and v2: "book_view b2 qs fs" and sb2: "same_band b b2"
    and od: "ord b2 = (ord b)(x := r')" and ty': "o_type r' = o_type (ord b x)"
    and best: "best_level b qs s i" and qi: "qs i = x # xs" and ty: "level_side b qs s i = qs i"
    and r: "resting b s = r # rs"
  shows "resting b2 (opp s) = resting b (opp s)" "resting b2 s = r' # rs"
proof -
  note V = book_viewD [OF v]
  have i: "i < nlevels b" using best by (simp add: best_level_def)
  have tyx: "o_type (ord b x) = s" using ty qi unfolding level_side_def filter_id_conv by simp
  have uniq: "x \<notin> set xs" "j < nlevels b \<Longrightarrow> j \<noteq> i \<Longrightarrow> x \<notin> set (qs j)" for j
    using V(3) [OF i] qi V(4) [of i j] i by (auto simp: queue_ok_def)
  have ls: "level_side b2 qs = level_side b qs"
    by (intro ext) (auto simp: level_side_def od ty' intro!: filter_cong)
  have oth: "map (ord b2) (level_side b qs t j) = map (ord b) (level_side b qs t j)"
    if "j < nlevels b" "t = s \<longrightarrow> j \<noteq> i" for t j
  proof -
    have "x \<notin> set (level_side b qs t j)"
      using uniq(2) [OF that(1)] that tyx by (auto simp: level_side_def)
    then show ?thesis by (auto simp: od)
  qed
  show "resting b2 (opp s) = resting b (opp s)"
    by (rule resting_cong [OF v v2 sb2]) (use oth [where t = "opp s"] in \<open>simp add: ls\<close>)
  obtain bs where sp: "side_nodes b qs s = level_side b qs s i @ concat (map (level_side b qs s) bs)"
    by (rule best_split [OF V(1) best])
  have "distinct (side_nodes b qs s)" using side_nodes_distinct(1) [OF v] by (cases s) auto
  then have "x \<notin> set (xs @ concat (map (level_side b qs s) bs))" using sp ty qi by auto
  then have mp: "map (ord b2) (xs @ concat (map (level_side b qs s) bs))
      = map (ord b) (xs @ concat (map (level_side b qs s) bs))"
    by (intro map_cong refl) (auto simp: od)
  have "side_nodes b2 qs s = side_nodes b qs s" by (simp add: side_nodes_def ls same_bandD [OF sb2])
  then have "side_nodes b2 qs s = x # (xs @ concat (map (level_side b qs s) bs))" using sp ty qi by simp
  moreover have "rs = map (ord b) (xs @ concat (map (level_side b qs s) bs))"
    using r sp ty qi by (simp add: resting_nodes [OF v])
  moreover have "ord b2 x = r'" by (simp add: od)
  ultimately show "resting b2 s = r' # rs"
    using mp by (simp only: resting_nodes [OF v2] list.map)
qed

lemma wf_modify:
  assumes wf: "wf_book b" and r: "resting b s = r # rs" and q: "0 < q" "q < o_quantity r"
  obtains b1 where "modifyQuantity b (o_price r) (o_quantity r - q) = Some (b1, True)"
    "wf_book (decrease_of s b1 q)" "resting (decrease_of s b1 q) s = r\<lparr>o_quantity := o_quantity r - q\<rparr> # rs"
    "resting (decrease_of s b1 q) (opp s) = resting b (opp s)" "same_shape b (decrease_of s b1 q)"
proof -
  obtain qs fs where inv: "book_inv b qs fs (\<lambda>_. {})" using wf by (auto simp: wf_book_def)
  note D = book_invD [OF inv]
  note V = book_viewD [OF D(1)]
  let ?nq = "o_quantity r - q"
  obtain i x xs where best: "best_level b qs s i" and i: "i < nlevels b" and qi: "qs i = x # xs"
    and ty: "level_side b qs s i = qs i" and x: "ord b x = r" "o_price r = price_of b i"
    by (rule resting_head [OF inv r])
  obtain b1 where m: "modifyQuantity b (price_of b i) ?nq = Some (b1, True)" and sb1: "same_band b b1"
    and inv1: "book_inv b1 qs fs (\<lambda>_. {})" and od1: "ord b1 = (ord b)(x := (ord b x)\<lparr>o_quantity := ?nq\<rparr>)"
    and tot1: "\<forall>t. total_of t b1 = total_of t b"
    by (rule modify_ok [OF inv i qi, of ?nq])
  define b2 where "b2 = decrease_of s b1 q"
  have sb2: "same_band b b2" using sb1 by (simp add: b2_def decrease_of_eq)
  have od2: "ord b2 = ord b1" by (simp add: b2_def decrease_of_eq ord_def fun_eq_iff)
  have inv2: "book_inv b2 qs fs (\<lambda>_. {})"
    using inv1 od2 same_bandD [of b1 b2]
    by (simp add: book_inv_def book_view_def heaps_ok_def flags_ok_def heap_levels_def level_side_def
        b2_def decrease_of_eq)
  note v2 = book_invD(1) [OF inv2]
  have od: "ord b2 = (ord b)(x := r\<lparr>o_quantity := ?nq\<rparr>)" by (simp add: od2 od1 x)
  have opp: "resting b2 (opp s) = resting b (opp s)" and res: "resting b2 s = r\<lparr>o_quantity := ?nq\<rparr> # rs"
    using resting_modify [OF D(1) v2 sb2 od _ best qi ty r] by (simp_all add: x)
  have nq: "0 < ?nq" "unat ?nq = unat (o_quantity r) - unat q"
    using q by (auto simp: word_less_nat_alt unat_sub word_le_nat_alt)
  have tot: "total_of t b2 = of_nat (qty_sum (resting b2 t))" for t
  proof (cases "t = s")
    case True
    have "total_of s b = of_nat (unat (o_quantity r)) + of_nat (qty_sum rs)" using wf r by (simp add: wf_book_def)
    moreover have "of_nat (unat ?nq) = (of_nat (unat (o_quantity r)) - of_nat (unat q) :: u64)"
      using nq(2) q by (simp only: nq(2)) (simp add: of_nat_diff word_less_nat_alt)
    ultimately show ?thesis using True tot1
      by (simp add: res) (simp add: b2_def decrease_of_eq tot1 of_nat_word32)
  next
    case False
    then have "t = opp s" using side_exhaust by blast
    then have "total_of t b2 = total_of t b" using False tot1 by (simp add: b2_def decrease_of_eq)
    then show ?thesis using \<open>t = opp s\<close> opp wf by (simp add: wf_book_def)
  qed
  have sub: "0 < o_quantity r' \<and> (\<exists>r'' \<in> set (resting b t). o_price r'' = o_price r')"
    if "r' \<in> set (resting b2 t)" for t r'
  proof (cases "t = s")
    case True
    moreover have "\<forall>r' \<in> set (r # rs). 0 < o_quantity r'" using wf r unfolding wf_book_def by metis
    ultimately show ?thesis using that r nq(1) by (auto simp: res)
  next
    case False
    then have "t = opp s" using side_exhaust by blast
    then show ?thesis using that opp wf by (auto simp: wf_book_def)
  qed
  have "wf_book b2" by (rule wf_subset [OF wf inv2 tot sub])
  moreover have "same_shape b b2"
    by (rule same_shapeI [OF D(1) v2 sb2, of s]) (simp add: res opp r)
  ultimately show thesis using that [OF m [folded x(2)]] res opp by (simp add: b2_def)
qed

text \<open>The place of a new order: behind every order of a better or an equal price.\<close>

definition insert_resting :: "OrderType \<Rightarrow> Order \<Rightarrow> Order list \<Rightarrow> Order list" where
  "insert_resting s order rs = takeWhile (\<lambda>r. \<not> worse s (o_price r) (o_price order)) rs @ order #
     dropWhile (\<lambda>r. \<not> worse s (o_price r) (o_price order)) rs"

lemma insert_resting_split:
  assumes "\<forall>r \<in> set xs. \<not> worse s (o_price r) (o_price order)" "\<forall>r \<in> set ys. worse s (o_price r) (o_price order)"
  shows "insert_resting s order (xs @ ys) = xs @ order # ys"
  using assms by (cases ys) (auto simp: insert_resting_def)

lemma set_insert_resting [simp]: "set (insert_resting s order rs) = insert order (set rs)"
proof -
  let ?P = "\<lambda>r. \<not> worse s (o_price r) (o_price order)"
  have "set rs = set (takeWhile ?P rs) \<union> set (dropWhile ?P rs)"
    by (metis set_append takeWhile_dropWhile_id)
  then show ?thesis by (simp add: insert_resting_def)
qed

lemma qty_sum_insert_resting [simp]:
  "qty_sum (insert_resting s order rs) = unat (o_quantity order) + qty_sum rs"
  unfolding insert_resting_def
  by (subst (3) takeWhile_dropWhile_id [symmetric, of _ "\<lambda>r. \<not> worse s (o_price r) (o_price order)"])
    (simp only: qty_sum_simps)

lemma length_insert_resting [simp]: "length (insert_resting s order rs) = Suc (length rs)"
  unfolding insert_resting_def
  by (metis add_Suc_right length_Cons length_append takeWhile_dropWhile_id)

lemma wf_add_full:
  assumes wf: "wf_book b" and pv: "isPriceValid b (o_price order)"
    and full: "length (resting b BUY) + length (resting b SELL) = book_capacity b"
  shows "add_of s b order = Some (b, False)"
proof -
  obtain qs fs where inv: "book_inv b qs fs (\<lambda>_. {})" using wf by (auto simp: wf_book_def)
  note v = book_invD(1) [OF inv]
  have "fs = []" using resting_count(1) [OF v] full by simp
  moreover obtain i where "i < nlevels b" "o_price order = price_of b i"
    using pv valid_price_of [OF book_viewD(1) [OF v]] by blast
  ultimately show ?thesis using add_full inv by blast
qed

text \<open>The resting lists when a node is appended to a level.\<close>

lemma resting_add:
  assumes v: "book_view b qs (f # fs)" and v': "book_view b' (qs(i := qs i @ [f])) fs" and sb: "same_band b b'"
    and i: "i < nlevels b" and p: "o_price order = price_of b i" and od: "ord b' = (ord b)(f := order)"
    and ls: "\<And>t j. j < nlevels b \<Longrightarrow> level_side b' (qs(i := qs i @ [f])) t j =
       (if j = i \<and> t = s then level_side b qs t j @ [f] else level_side b qs t j)"
  shows "resting b' (opp s) = resting b (opp s)" "resting b' s = insert_resting s order (resting b s)"
proof -
  note V = book_viewD [OF v]
  have nf: "map (ord b') (level_side b qs t j) = map (ord b) (level_side b qs t j)" if "j < nlevels b" for t j
    using V(5) [OF that] by (intro map_cong refl) (auto simp: od level_side_def)
  show "resting b' (opp s) = resting b (opp s)"
    by (rule resting_cong [OF v v' sb]) (simp add: ls nf)
  obtain as bs where sp: "level_order s (nlevels b) = as @ i # bs" "i \<notin> set as" "i \<notin> set bs"
    "\<forall>j \<in> set as. j < nlevels b \<and> worse s (price_of b i) (price_of b j)"
    "\<forall>j \<in> set bs. j < nlevels b \<and> worse s (price_of b j) (price_of b i)"
    by (rule side_split [OF V(1) i])
  let ?R = "\<lambda>js. map (ord b) (concat (map (level_side b qs s) js))"
  have old: "resting b s = (?R as @ ?R [i]) @ ?R bs" by (simp add: resting_nodes [OF v] side_nodes_def sp(1))
  have same: "map (ord b') (concat (map (level_side b' (qs(i := qs i @ [f])) s) js)) = ?R js"
    if "set js \<subseteq> {..<nlevels b}" "i \<notin> set js" for js
    using that by (induction js) (auto simp: ls nf)
  have new: "resting b' s = (?R as @ ?R [i]) @ order # ?R bs"
  proof -
    let ?L = "level_side b' (qs(i := qs i @ [f])) s"
    have "resting b' s = map (ord b') (concat (map ?L as)) @ map (ord b') (?L i) @ map (ord b') (concat (map ?L bs))"
      by (simp add: resting_nodes [OF v'] side_nodes_def same_bandD [OF sb] sp(1))
    moreover have "set as \<subseteq> {..<nlevels b}" "set bs \<subseteq> {..<nlevels b}" using sp by auto
    moreover have "ord b' f = order" by (simp add: od)
    then have "map (ord b') (?L i) = ?R [i] @ [order]" using ls [OF i, of s] nf [OF i, of s] by simp
    ultimately show ?thesis using same sp(2,3) by simp
  qed
  show "resting b' s = insert_resting s order (resting b s)"
    unfolding old new
  proof (rule insert_resting_split [symmetric])
    have lvl: "\<exists>j \<in> set js. o_price r = price_of b j"
      if "r \<in> set (?R js)" "set js \<subseteq> {..<nlevels b}" for r js
      using that V(7) by (fastforce simp: level_side_def)
    show "\<forall>r \<in> set (?R as @ ?R [i]). \<not> worse s (o_price r) (o_price order)"
    proof
      fix r assume "r \<in> set (?R as @ ?R [i])"
      then have "r \<in> set (?R (as @ [i]))" by simp
      then obtain j where "j \<in> set (as @ [i])" "o_price r = price_of b j"
        using lvl [of r "as @ [i]"] sp(4) i by auto
      then show "\<not> worse s (o_price r) (o_price order)" using sp(4) p worse_asym by auto
    qed
    show "\<forall>r \<in> set (?R bs). worse s (o_price r) (o_price order)"
    proof
      fix r assume "r \<in> set (?R bs)"
      then obtain j where "j \<in> set bs" "o_price r = price_of b j" using lvl [of r bs] sp(5) by auto
      then show "worse s (o_price r) (o_price order)" using sp(5) p by auto
    qed
  qed
qed

lemma wf_add:
  assumes wf: "wf_book b" and ty: "o_type order = s" and pv: "isPriceValid b (o_price order)"
    and fresh: "\<forall>t. o_order_id order \<notin> o_order_id ` set (resting b t)" and q: "0 < o_quantity order"
    and cross: "\<forall>y \<in> set (resting b (opp s)). worse s (o_price order) (o_price y)"
    and room: "length (resting b BUY) + length (resting b SELL) < book_capacity b"
  obtains b' where "add_of s b order = Some (b', True)" "wf_book b'" "same_shape b b'"
    "resting b' s = insert_resting s order (resting b s)" "resting b' (opp s) = resting b (opp s)"
proof -
  obtain qs fs0 where inv0: "book_inv b qs fs0 (\<lambda>_. {})" using wf by (auto simp: wf_book_def)
  then obtain f fs where inv: "book_inv b qs (f # fs) (\<lambda>_. {})"
    using resting_count(1) [OF book_invD(1) [OF inv0]] room by (cases fs0) auto
  note D = book_invD [OF inv]
  note V = book_viewD [OF D(1)]
  obtain i where i: "i < nlevels b" and p: "o_price order = price_of b i"
    using pv valid_price_of [OF V(1)] by blast
  have fr: "b_orderMap b (o_order_id order) = None" using fresh known_ids [OF D(1)] by blast
  have oth: "level_side b qs (opp s) i = []"
  proof (rule ccontr)
    assume "level_side b qs (opp s) i \<noteq> []"
    then obtain x where x: "x \<in> set (qs i)" "o_type (ord b x) = opp s"
      by (auto simp: level_side_def filter_empty_conv)
    then have "ord b x \<in> set (resting b (opp s))" using i by (auto simp: set_resting [OF D(1)])
    then have "worse s (price_of b i) (o_price (ord b x))" using cross p by auto
    then show False using V(7) [OF i x(1)] worse_asym by auto
  qed
  obtain b' where add: "add_of s b order = Some (b', True)" and sb: "same_band b b'"
    and inv': "book_inv b' (qs(i := qs i @ [f])) fs ((\<lambda>_. {})(s := {} - {i}))" and od: "ord b' = (ord b)(f := order)"
    and tot: "total_of s b' = total_of s b + ucast (o_quantity order)" "total_of (opp s) b' = total_of (opp s) b"
    and ls: "\<And>t j. j < nlevels b \<Longrightarrow> level_side b' (qs(i := qs i @ [f])) t j =
       (if j = i \<and> t = s then level_side b qs t j @ [f] else level_side b qs t j)"
    by (rule add_ok [OF inv i p ty fr oth]) auto
  have "(\<lambda>_. {})(s := {} - {i}) = (\<lambda>_. {} :: nat set)" by auto
  then have inv'': "book_inv b' (qs(i := qs i @ [f])) fs (\<lambda>_. {})" using inv' by simp
  note v' = book_invD(1) [OF inv'']
  note opp = resting_add(1) [OF D(1) v' sb i p od ls] and res = resting_add(2) [OF D(1) v' sb i p od ls]
  have uncross: "o_price x < o_price y" if "x \<in> set (resting b' BUY)" "y \<in> set (resting b' SELL)" for x y
    using that wf cross res opp unfolding wf_book_def by (cases s) auto
  have t: "total_of t b' = of_nat (qty_sum (resting b' t)) \<and> (\<forall>r \<in> set (resting b' t). 0 < o_quantity r)" for t
    using wf q res opp tot side_exhaust [of t s] unfolding wf_book_def
    by (auto simp: of_nat_word32)
  have "wf_book b'" using inv'' uncross t unfolding wf_book_def by blast
  moreover have "same_shape b b'"
    by (rule same_shapeI [OF D(1) v' sb, of s]) (simp add: res opp)
  ultimately show thesis using that add res opp by blast
qed

lemma wf_new:
  assumes "ns \<noteq> []" "length ns < 2 ^ 31" "0 < lower" "lower \<le> upper" "upper < 0xFFFFFFFFFFFFFFFF"
    "unat upper - unat lower < 2 ^ 31 - 1"
  obtains b where "OrderBook_new (Some ns) 0 0 lower upper = Some (Inr b)" "wf_book b"
    "\<And>s. resting b s = []" "book_capacity b = length ns" "b_lower_limit b = lower" "b_upper_limit b = upper"
proof -
  obtain p where p: "MemPool_new (Some ns) = Some (Inr p)" "pool_ok p (map of_nat [0..<length ns])"
    "length (mp_nodes p) = length ns"
    by (rule MemPool_new_ok [OF assms(1,2)])
  define b where "b = \<lparr>b_lower_limit = lower, b_upper_limit = upper, b_PRICE_LEVELS = upper - lower + 1,
             b_price_levels = replicate (unat (upper - lower + 1)) PriceQueues_new,
             b_next_buy_price = [lower - 1], b_next_sell_price = [upper + 1],
             b_pool = p, b_orderMap = Map.empty,
             b_default_best_buy_price = lower - 1, b_default_best_sell_price = upper + 1,
             b_total_buy_qty = 0, b_total_sell_qty = 0\<rparr>"
  have new: "OrderBook_new (Some ns) 0 0 lower upper = Some (Inr b)"
    using assms p by (auto simp: OrderBook_new_def Let_def b_def)
  have lev: "unat (upper - lower + 1) = Suc (unat upper - unat lower)"
    using assms(4,5) by (subst unat_Suc_word) (auto simp: unat_sub word_le_nat_alt word_less_nat_alt)
  have n: "nlevels b = Suc (unat upper - unat lower)" by (simp add: b_def lev)
  have bnd: "band_ok b" using assms n lev by (simp add: band_ok_def b_def)
  let ?qs = "\<lambda>_ :: nat. [] :: u32 list" and ?fs = "map of_nat [0..<length ns] :: u32 list"
  have "set ?fs = slots p"
  proof
    show "slots p \<subseteq> set ?fs"
    proof
      fix x assume "x \<in> slots p"
      then have "unat x < length ns" "x = of_nat (unat x)" using p by (auto simp: slots_def)
      then show "x \<in> set ?fs" by (metis atLeastLessThan_iff image_eqI list.set_map set_upt zero_le)
    qed
  qed (use p(2) in \<open>simp add: pool_ok_def\<close>)
  moreover have "b_price_levels b ! i = PriceQueues_new" if "i < nlevels b" for i using that by (simp add: b_def)
  moreover have "b_pool b = p" "b_orderMap b = Map.empty" by (simp_all add: b_def)
  ultimately have view: "book_view b ?qs ?fs"
    using bnd p by (simp add: book_view_def queue_ok_new)
  have "heaps_ok b ?qs (\<lambda>_. {})"
    unfolding heaps_ok_def
  proof
    fix s
    show "heap_sorted (worse s) (heap_of s b) \<and> mset (heap_of s b)
        = mset_set (insert (default_of s b) (price_of b ` heap_levels b ?qs (\<lambda>_. {}) s))"
      by (cases s) (simp_all add: heap_levels_def level_side_def, simp_all add: b_def heap_sorted_def)
  qed
  moreover have "flags_ok b ?qs (\<lambda>_. {})"
    by (simp add: flags_ok_def level_side_def) (simp add: b_def PriceQueues_new_def)
  ultimately have inv: "book_inv b ?qs ?fs (\<lambda>_. {})" using view by (simp add: book_inv_def)
  have res: "resting b s = []" for s by (simp add: resting_nodes [OF view] side_nodes_def level_side_def)
  have "total_of s b = 0" for s by (cases s) (simp_all add: b_def)
  then have "wf_book b" using inv by (auto simp: wf_book_def res)
  then show thesis using that new res p by (simp add: book_capacity_def b_def)
qed

end
