(* ===== verification/Book_Cancel.thy ===== *)
theory Book_Cancel
  imports Book_Wf
begin

text \<open>
  Queries and cancellation on a book: the best prices, \<open>findOrder\<close>, and \<open>cancelOrder\<close>, which the engine
  does not call itself. A cancelled order leaves the queues, the id map and the resting lists, but neither the
  totals nor the price heap; the concrete runs at the end show what follows from that.
\<close>

section \<open>Cancelling an order\<close>

lemma cancel_ok:
  assumes v: "book_view b qs fs" and x: "b_orderMap b oid = Some x"
  obtains b' i where "cancelOrder b oid = Some (b', True)" "i < nlevels b" "x \<in> set (qs i)" "o_order_id (ord b x) = oid"
    "book_view b' (qs(i := remove1 x (qs i))) (x # fs)" "ord b' = ord b" "same_band b b'"
    "\<And>s. total_of s b' = total_of s b" "\<And>s. heap_of s b' = heap_of s b" "b_orderMap b' = (b_orderMap b)(oid := None)"
proof -
  note V = book_viewD [OF v]
  obtain i where i: "i < nlevels b" "x \<in> set (qs i)" and oid: "o_order_id (ord b x) = oid" using V(8) x by blast
  obtain ys zs where q: "qs i = ys @ x # zs" by (meson i(2) split_list)
  have dx: "x \<notin> set ys" using V(3) [OF i(1)] q by (auto simp: queue_ok_def)
  obtain q' p' where rem: "removeOrder (b_price_levels b ! i) (b_pool b) x = Some (q', p', True)"
    and "q_heap_entry q' = q_heap_entry (b_price_levels b ! i)"
    and view: "\<forall>b'. same_band b b' \<longrightarrow> b_price_levels b' = (b_price_levels b)[i := q'] \<longrightarrow>
       b_pool b' = p' \<longrightarrow> b_orderMap b' = (b_orderMap b)(o_order_id (ord b x) := None) \<longrightarrow>
       book_view b' (qs(i := ys @ zs)) (x # fs) \<and> ord b' = ord b"
    by (rule view_remove [OF v i(1) q])
  define b' where "b' = (set_level b (int i) q')\<lparr>b_pool := p', b_orderMap := (b_orderMap b)(oid := None)\<rparr>"
  have "x \<in> slots (b_pool b)" using V(3) [OF i(1)] i(2) by (auto simp: queue_ok_def)
  then have "getNode (b_pool b) x = Some (nd (b_pool b) x)" by (rule getNode_ok [OF V(2)])
  moreover have "o_price (n_order (nd (b_pool b) x)) = price_of b i" using V(7) [OF i] by (simp add: ord_def)
  ultimately have c: "cancelOrder b oid = Some (b', True)"
    using x getpricelevels_ok [OF i(1)] priceToIndex_price_of [OF V(1) i(1)] rem
    by (simp add: cancelOrder_def b'_def)
  have sb: "same_band b b'" by (simp add: b'_def)
  have "book_view b' (qs(i := ys @ zs)) (x # fs) \<and> ord b' = ord b"
    using view [rule_format, OF sb] by (simp add: b'_def oid)
  moreover have "remove1 x (qs i) = ys @ zs" using dx q by (simp add: remove1_append)
  ultimately show thesis using c i oid sb by (intro that [of b' i]) (simp_all, simp_all add: b'_def)
qed

lemma cancel_resting:
  assumes v: "book_view b qs fs" and v': "book_view b' (qs(i := remove1 x (qs i))) fs'" and sb: "same_band b b'"
    and i: "i < nlevels b" "x \<in> set (qs i)" and od: "ord b' = ord b" and oid: "o_order_id (ord b x) = oid"
  shows "resting b' s = filter (\<lambda>r. o_order_id r \<noteq> oid) (resting b s)"
proof -
  note V = book_viewD [OF v]
  have dis: "distinct (qs i)" using V(3) [OF i(1)] by (simp add: queue_ok_def)
  have uniq: "o_order_id (ord b y) = oid \<longleftrightarrow> y = x" if "y \<in> set (qs j)" "j < nlevels b" for y j
  proof
    assume "o_order_id (ord b y) = oid"
    then have "b_orderMap b oid = Some y" "b_orderMap b oid = Some x" using V(8) that i oid by blast+
    then show "y = x" by simp
  qed (use oid in simp)
  have lvl: "map (ord b') (level_side b' (qs(i := remove1 x (qs i))) s j)
      = filter (\<lambda>r. o_order_id r \<noteq> oid) (map (ord b) (level_side b qs s j))" if j: "j < nlevels b" for j
  proof -
    have "(qs(i := remove1 x (qs i))) j = filter (\<lambda>y. y \<noteq> x) (qs j)"
    proof (cases "j = i")
      case True
      then show ?thesis using dis by (simp add: distinct_remove1_removeAll removeAll_filter_not_eq) metis
    next
      case False
      then have "x \<notin> set (qs j)" using V(4) [OF j i(1)] i(2) by auto
      then have "filter (\<lambda>y. y \<noteq> x) (qs j) = qs j" by (auto simp: filter_id_conv)
      then show ?thesis using False by simp
    qed
    moreover have "filter (\<lambda>y. o_order_id (ord b y) \<noteq> oid \<and> o_type (ord b y) = s) (qs j)
        = filter (\<lambda>y. y \<noteq> x \<and> o_type (ord b y) = s) (qs j)"
      using uniq j by (intro filter_cong) auto
    ultimately show ?thesis
      by (simp add: level_side_def od filter_map comp_def conj_commute del: fun_upd_apply)
  qed
  have "concat (map (\<lambda>j. map (ord b') (level_side b' (qs(i := remove1 x (qs i))) s j)) (level_order s (nlevels b)))
      = concat (map (\<lambda>j. filter (\<lambda>r. o_order_id r \<noteq> oid) (map (ord b) (level_side b qs s j))) (level_order s (nlevels b)))"
    using lvl by (intro arg_cong [where f = concat] map_cong refl) simp
  then show ?thesis
    unfolding resting_view [OF v] resting_view [OF v'] same_bandD(3) [OF sb] map_concat filter_concat map_map comp_def .
qed


section \<open>A concrete book\<close>

definition sample_order :: "u64 \<Rightarrow> OrderType \<Rightarrow> u64 \<Rightarrow> u32 \<Rightarrow> Order" where
  "sample_order oid ty price qty = \<lparr>o_order_id = oid, o_execution_type = LIMIT, o_price = price, o_timestamp = 0,
     o_trader_id = 0, o_type = ty, o_symbol_id = 0, o_quantity = qty, o_client_order_id = oid\<rparr>"

definition sample_node :: OrderNode where
  "sample_node = \<lparr>n_order = sample_order 0 BUY 0 0, n_next = 0, n_back = 0\<rparr>"

definition sample_book :: OrderBook where
  "sample_book = (case OrderBook_new (Some [sample_node, sample_node, sample_node]) 0 0 10 12 of Some (Inr b) \<Rightarrow> b)"

lemma sample_book_wf:
  "wf_book sample_book" "resting sample_book s = []" "book_capacity sample_book = 3"
  "isPriceValid sample_book p \<longleftrightarrow> 10 \<le> p \<and> p \<le> 12"
proof -
  obtain b where b: "OrderBook_new (Some [sample_node, sample_node, sample_node]) 0 0 10 12 = Some (Inr b)" "wf_book b"
    "\<And>s. resting b s = []" "book_capacity b = length [sample_node, sample_node, sample_node]"
    "b_lower_limit b = 10" "b_upper_limit b = 12"
    by (rule wf_new [of "[sample_node, sample_node, sample_node]" 10 12]) auto
  then have "sample_book = b" by (simp add: sample_book_def)
  with b show "wf_book sample_book" "resting sample_book s = []" "book_capacity sample_book = 3"
    "isPriceValid sample_book p \<longleftrightarrow> 10 \<le> p \<and> p \<le> 12"
    by (simp_all add: isPriceValid_def)
qed

lemma sample_add:
  obtains b where "addSellOrder sample_book (sample_order 1 SELL 11 5) = Some (b, True)" "wf_book b"
    "resting b SELL = [sample_order 1 SELL 11 5]" "resting b BUY = []" "same_shape sample_book b"
proof -
  let ?o = "sample_order 1 SELL 11 5"
  obtain b where "add_of SELL sample_book ?o = Some (b, True)" "wf_book b" "same_shape sample_book b"
    "resting b SELL = insert_resting SELL ?o (resting sample_book SELL)" "resting b (opp SELL) = resting sample_book (opp SELL)"
    by (rule wf_add [OF sample_book_wf(1), of ?o SELL])
      (simp_all add: sample_book_wf, simp_all add: sample_order_def)
  then show thesis by (intro that [of b]) (simp_all add: sample_book_wf insert_resting_def)
qed

section \<open>Properties of the book\<close>

text \<open>
  A new book is well formed: with a positive lower limit, an upper limit below the largest 64-bit value, fewer
  than \<open>2^31\<close> levels and nodes, and totals that happen to start at zero (the constructor does not set
  them), every operation starts from an empty book that satisfies the invariant.
\<close>

theorem new_book_wf:
  assumes "ns \<noteq> []" "length ns < 2 ^ 31" "0 < lower" "lower \<le> upper" "upper < 0xFFFFFFFFFFFFFFFF"
    "unat upper - unat lower < 2 ^ 31 - 1"
  shows "\<exists>b. OrderBook_new (Some ns) 0 0 lower upper = Some (Inr b) \<and> wf_book b \<and>
    resting b BUY = [] \<and> resting b SELL = [] \<and> book_capacity b = length ns"
  by (rule wf_new [OF assms]) auto

theorem new_book_wf_witness:
  "\<exists>b. OrderBook_new (Some [sample_node, sample_node]) 0 0 10 12 = Some (Inr b) \<and> wf_book b"
proof -
  have "\<exists>b. OrderBook_new (Some [sample_node, sample_node]) 0 0 10 12 = Some (Inr b) \<and> wf_book b \<and>
    resting b BUY = [] \<and> resting b SELL = [] \<and> book_capacity b = length [sample_node, sample_node]"
    by (rule new_book_wf) simp_all
  then show ?thesis by blast
qed

text \<open>
  The best prices: on a well-formed book both queries return the price at the front of the resting list, which
  no resting order of the side beats, or the default outside the band when the side is empty, and do not
  change the book.
\<close>

theorem best_prices:
  assumes "wf_book b"
  shows "bestbuyprice b = Some (b, case resting b BUY of [] \<Rightarrow> b_default_best_buy_price b | r # _ \<Rightarrow> o_price r) \<and>
    bestsellprice b = Some (b, case resting b SELL of [] \<Rightarrow> b_default_best_sell_price b | r # _ \<Rightarrow> o_price r) \<and>
    (\<forall>r rs. resting b BUY = r # rs \<longrightarrow> (\<forall>x \<in> set rs. o_price x \<le> o_price r)) \<and>
    (\<forall>r rs. resting b SELL = r # rs \<longrightarrow> (\<forall>x \<in> set rs. o_price r \<le> o_price x))"
proof -
  obtain qs fs where inv: "book_inv b qs fs (\<lambda>_. {})" using assms by (auto simp: wf_book_def)
  note srt = resting_sorted [OF book_invD(1) [OF inv]]
  show ?thesis
    using wf_best [OF assms, of BUY] wf_best [OF assms, of SELL] srt [of BUY] srt [of SELL]
    by (auto simp: best_resting_def not_less split: list.splits)
qed

theorem best_prices_witness:
  "\<exists>b. addSellOrder sample_book (sample_order 1 SELL 11 5) = Some (b, True) \<and> bestsellprice b = Some (b, 11)"
proof -
  obtain b where b: "addSellOrder sample_book (sample_order 1 SELL 11 5) = Some (b, True)" "wf_book b"
    "resting b SELL = [sample_order 1 SELL 11 5]" by (rule sample_add)
  then show ?thesis using best_prices [OF b(2)] by (simp add: sample_order_def)
qed

text \<open>
  C36. Cancelling: an unknown id is reported and changes nothing; a known order, and no other, disappears from
  the resting lists and from the id map. The cached totals keep counting the cancelled quantity.
\<close>

theorem cancelOrder_effect:
  assumes "wf_book b"
  shows "\<exists>b'. cancelOrder b oid = Some (b', \<exists>s. oid \<in> o_order_id ` set (resting b s)) \<and>
    (\<forall>s. resting b' s = filter (\<lambda>r. o_order_id r \<noteq> oid) (resting b s)) \<and> b_orderMap b' oid = None \<and>
    getTotalBuyQty b' = getTotalBuyQty b \<and> getTotalSellQty b' = getTotalSellQty b"
proof -
  obtain qs fs where inv: "book_inv b qs fs (\<lambda>_. {})" using assms by (auto simp: wf_book_def)
  note v = book_invD(1) [OF inv]
  show ?thesis
  proof (cases "b_orderMap b oid")
    case None
    then have n: "\<forall>s. oid \<notin> o_order_id ` set (resting b s)" using known_ids [OF v] by blast
    then have "\<forall>s. filter (\<lambda>r. o_order_id r \<noteq> oid) (resting b s) = resting b s"
      by (auto simp: filter_id_conv image_iff)
    then show ?thesis using None n by (intro exI [of _ b]) (simp add: cancelOrder_def)
  next
    case (Some x)
    then have "\<exists>s. oid \<in> o_order_id ` set (resting b s)" using known_ids [OF v, of oid] by simp
    moreover obtain b' i where b': "cancelOrder b oid = Some (b', True)" and "i < nlevels b" "x \<in> set (qs i)"
      "o_order_id (ord b x) = oid" "book_view b' (qs(i := remove1 x (qs i))) (x # fs)" "ord b' = ord b" "same_band b b'"
      and t: "\<And>s. total_of s b' = total_of s b" and "b_orderMap b' = (b_orderMap b)(oid := None)"
      by (rule cancel_ok [OF v Some]) blast
    moreover from this have "\<forall>s. resting b' s = filter (\<lambda>r. o_order_id r \<noteq> oid) (resting b s)"
      using cancel_resting [OF v] by blast
    ultimately show ?thesis
      using t [of BUY] t [of SELL] by (intro exI [of _ b']) (simp add: getTotalBuyQty_def getTotalSellQty_def)
  qed
qed

theorem cancelOrder_effect_witness:
  "\<exists>b b'. addSellOrder sample_book (sample_order 1 SELL 11 5) = Some (b, True) \<and> cancelOrder b 1 = Some (b', True) \<and>
    resting b' SELL = []"
proof -
  obtain b where b: "addSellOrder sample_book (sample_order 1 SELL 11 5) = Some (b, True)" "wf_book b"
    "resting b SELL = [sample_order 1 SELL 11 5]" by (rule sample_add)
  have "\<exists>s. 1 \<in> o_order_id ` set (resting b s)" by (rule exI [of _ SELL]) (simp add: b sample_order_def)
  then obtain b' where "cancelOrder b 1 = Some (b', True)" "\<forall>s. resting b' s = filter (\<lambda>r. o_order_id r \<noteq> 1) (resting b s)"
    using cancelOrder_effect [OF b(2), of 1] by auto
  then show ?thesis using b by (auto simp: sample_order_def)
qed


end
