(* ===== verification/Ring_Queue.thy ===== *)
theory Ring_Queue
  imports Prelude
begin

text \<open>
  The queues of the program. \<open>RingBuffer\<close> (\<^verbatim>\<open>src/src/producer_consumer.cpp\<close>) carries client orders
  to the order management system and engine orders to each group; its indices are masked with
  \<open>capacity - 1\<close>. The three \<open>spsc_queue\<close> classes (\<^verbatim>\<open>src/src/spsc_queue.cpp\<close>,
  \<^verbatim>\<open>src/src/listener.cpp\<close>, \<^verbatim>\<open>src/src/trade_processor.cpp\<close>) keep free-running 64-bit counters
  and mask them on access; they differ in the number of slots and in the element type only.
  The interface all of them promise is the locale \<open>bounded_fifo\<close>: a queue of bounded size that
  never loses, duplicates or reorders what it accepted.
\<close>

section \<open>The interface: a bounded queue\<close>

datatype 'a fifo_op = Push 'a | Pop

text \<open>
  A run of operations on a queue: the state it ends in, the elements whose push returned true,
  and the elements that were popped, both in order. \<open>None\<close> if an access leaves the array.
\<close>

fun fifo_run :: "('q \<Rightarrow> 'a \<Rightarrow> ('q \<times> bool) option) \<Rightarrow> ('q \<Rightarrow> ('q \<times> 'a option) option) \<Rightarrow>
    'a fifo_op list \<Rightarrow> 'q \<Rightarrow> ('q \<times> 'a list \<times> 'a list) option" where
  "fifo_run push pop [] q = Some (q, [], [])"
| "fifo_run push pop (Push x # ops) q =
     (case push q x of None \<Rightarrow> None
      | Some (q', ok) \<Rightarrow>
          (case fifo_run push pop ops q' of None \<Rightarrow> None
           | Some (r, acc, out) \<Rightarrow> Some (r, (if ok then x # acc else acc), out)))"
| "fifo_run push pop (Pop # ops) q =
     (case pop q of None \<Rightarrow> None
      | Some (q', v) \<Rightarrow>
          (case fifo_run push pop ops q' of None \<Rightarrow> None
           | Some (r, acc, out) \<Rightarrow>
               Some (r, acc, (case v of None \<Rightarrow> out | Some y \<Rightarrow> y # out))))"

locale bounded_fifo =
  fixes push :: "'q \<Rightarrow> 'a \<Rightarrow> ('q \<times> bool) option"
    and pop :: "'q \<Rightarrow> ('q \<times> 'a option) option"
    and contents :: "'q \<Rightarrow> 'a list"
    and inv :: "'q \<Rightarrow> bool"
    and room :: "'q \<Rightarrow> nat"
  assumes room_bound: "inv q \<Longrightarrow> length (contents q) \<le> room q"
    and push_accept: "inv q \<Longrightarrow> length (contents q) < room q \<Longrightarrow>
      \<exists>q'. push q x = Some (q', True) \<and> inv q' \<and> contents q' = contents q @ [x] \<and> room q' = room q"
    and push_reject: "inv q \<Longrightarrow> length (contents q) = room q \<Longrightarrow> push q x = Some (q, False)"
    and pop_empty: "inv q \<Longrightarrow> contents q = [] \<Longrightarrow> pop q = Some (q, None)"
    and pop_front: "inv q \<Longrightarrow> contents q = x # xs \<Longrightarrow>
      \<exists>q'. pop q = Some (q', Some x) \<and> inv q' \<and> contents q' = xs \<and> room q' = room q"
begin

lemma push_total:
  assumes "inv q"
  obtains q' ok where "push q x = Some (q', ok)" "inv q'" "room q' = room q"
    "contents q' = (if ok then contents q @ [x] else contents q)"
    "ok \<longleftrightarrow> length (contents q) < room q"
proof (cases "length (contents q) < room q")
  case True
  then show ?thesis using push_accept [OF assms True, of x] that by fastforce
next
  case False
  with room_bound [OF assms] have "length (contents q) = room q" by simp
  then show ?thesis using push_reject [OF assms, of x] that assms by fastforce
qed

lemma pop_total:
  assumes "inv q"
  obtains q' v where "pop q = Some (q', v)" "inv q'" "room q' = room q"
    "contents q = (case v of None \<Rightarrow> [] | Some y \<Rightarrow> [y]) @ contents q'"
    "v = None \<longleftrightarrow> contents q = []"
proof (cases "contents q")
  case Nil
  then show ?thesis using pop_empty [OF assms] that assms by fastforce
next
  case (Cons x xs)
  then show ?thesis using pop_front [OF assms Cons] that by fastforce
qed

text \<open>
  The whole history: every run ends, and what was in the queue followed by what was accepted is
  what came out followed by what is left.
\<close>

lemma run_history:
  assumes "inv q"
  shows "\<exists>r acc out. fifo_run push pop ops q = Some (r, acc, out) \<and> inv r \<and> room r = room q \<and>
           contents q @ acc = out @ contents r"
  using assms
proof (induction ops arbitrary: q)
  case Nil
  then show ?case by simp
next
  case (Cons a ops)
  show ?case
  proof (cases a)
    case (Push x)
    obtain q' ok where p: "push q x = Some (q', ok)" "inv q'" "room q' = room q"
      and c: "contents q' = (if ok then contents q @ [x] else contents q)"
      using push_total [OF Cons.prems, of x] by metis
    obtain r acc out where "fifo_run push pop ops q' = Some (r, acc, out)" "inv r"
      "room r = room q'" "contents q' @ acc = out @ contents r"
      using Cons.IH [OF p(2)] by blast
    then show ?thesis using Push p c by (cases ok) auto
  next
    case Pop
    obtain q' v where p: "pop q = Some (q', v)" "inv q'" "room q' = room q"
      and c: "contents q = (case v of None \<Rightarrow> [] | Some y \<Rightarrow> [y]) @ contents q'"
      using pop_total [OF Cons.prems] by metis
    obtain r acc out where "fifo_run push pop ops q' = Some (r, acc, out)" "inv r"
      "room r = room q'" "contents q' @ acc = out @ contents r"
      using Cons.IH [OF p(2)] by blast
    then show ?thesis using Pop p c by (cases v) auto
  qed
qed

end

section \<open>RingBuffer\<close>

record 'a RingBuffer =
  rb_buffer :: "'a list"
  rb_capacity :: u64
  rb_head :: u32
  rb_tail :: u32

text \<open>\<open>buffer.resize(capacity)\<close> fills the vector with value-initialised elements.\<close>

definition RingBuffer_new :: "u64 \<Rightarrow> 'a \<Rightarrow> 'a RingBuffer" where
  "RingBuffer_new cap zero =
     \<lparr>rb_buffer = replicate (unat cap) zero, rb_capacity = cap, rb_head = 0, rb_tail = 0\<rparr>"

definition rb_next :: "'a RingBuffer \<Rightarrow> u32 \<Rightarrow> u32" where
  "rb_next q i = ucast ((ucast (i + 1) :: u64) AND (rb_capacity q - 1))"

definition RingBuffer_push :: "'a RingBuffer \<Rightarrow> 'a \<Rightarrow> ('a RingBuffer \<times> bool) option" where
  "RingBuffer_push q item =
     (let cur_tail = rb_tail q; next_tail = rb_next q cur_tail in
      if next_tail = rb_head q then Some (q, False)
      else if unat cur_tail < length (rb_buffer q)
      then Some (q\<lparr>rb_buffer := (rb_buffer q)[unat cur_tail := item], rb_tail := next_tail\<rparr>, True)
      else None)"

definition RingBuffer_pop :: "'a RingBuffer \<Rightarrow> ('a RingBuffer \<times> 'a option) option" where
  "RingBuffer_pop q =
     (let cur_head = rb_head q in
      if cur_head = rb_tail q then Some (q, None)
      else if unat cur_head < length (rb_buffer q)
      then Some (q\<lparr>rb_head := rb_next q cur_head\<rparr>, Some (rb_buffer q ! unat cur_head))
      else None)"

declare RingBuffer_new_def [queue_defs] rb_next_def [queue_defs]
  RingBuffer_push_def [queue_defs] RingBuffer_pop_def [queue_defs]

subsection \<open>RingBuffer is a bounded queue\<close>

text \<open>
  The usable size is the largest power of two dividing the capacity, less one (the slot that tells
  a full ring from an empty one). \<open>rb_contents\<close> reads the slots from head to tail.
\<close>

definition rb_period :: "'a RingBuffer \<Rightarrow> nat" where
  "rb_period q = pow2_part (length (rb_buffer q))"

definition rb_inv :: "'a RingBuffer \<Rightarrow> bool" where
  "rb_inv q \<longleftrightarrow> unat (rb_capacity q) = length (rb_buffer q) \<and> 0 < length (rb_buffer q) \<and>
     rb_period q \<le> 2 ^ 32 \<and> unat (rb_head q) < rb_period q \<and> unat (rb_tail q) < rb_period q"

definition rb_contents :: "'a RingBuffer \<Rightarrow> 'a list" where
  "rb_contents q = ring_slice ((!) (rb_buffer q)) (rb_period q) (unat (rb_head q))
     (ring_dist (rb_period q) (unat (rb_head q)) (unat (rb_tail q)))"

definition rb_room :: "'a RingBuffer \<Rightarrow> nat" where
  "rb_room q = rb_period q - 1"

lemma pow2_part_le: "0 < n \<Longrightarrow> pow2_part n \<le> n"
  using pow2_part_form [of n] by auto

lemma unat_rb_next:
  assumes "rb_inv q" "unat i < rb_period q"
  shows "unat (rb_next q i) = Suc (unat i) mod rb_period q"
proof -
  let ?P = "rb_period q"
  from assms(1) have "0 < length (rb_buffer q)" unfolding rb_inv_def by (elim conjE)
  then obtain k m where n: "length (rb_buffer q) = 2 ^ k * (2 * m + 1)" and P: "?P = 2 ^ k"
    using pow2_part_form unfolding rb_period_def by blast
  have cap: "unat (rb_capacity q - 1) = 2 ^ k * (2 * m + 1) - 1"
    using assms(1) n \<open>0 < length (rb_buffer q)\<close>
    by (subst unat_sub) (auto simp: rb_inv_def word_le_nat_alt Suc_le_eq)
  have le: "2 ^ k \<le> (2::nat) ^ 32" using assms(1) P by (simp add: rb_inv_def)
  show ?thesis
  proof (cases "Suc (unat i) < 2 ^ 32")
    case True
    then have "unat (ucast (i + 1) :: u64) = Suc (unat i)"
      by (simp add: unsigned_ucast_eq take_bit_nat_eq_self unat_Suc_word)
    then have "unat ((ucast (i + 1) :: u64) AND (rb_capacity q - 1)) = Suc (unat i) mod 2 ^ k"
      using and_low_ones [of "Suc (unat i)" k m] assms(2) P cap by (simp add: unsigned_and_eq)
    moreover have "Suc (unat i) mod 2 ^ k < (2::nat) ^ 32"
      using le by (meson less_le_trans mod_less_divisor zero_less_numeral zero_less_power)
    ultimately show ?thesis by (simp add: rb_next_def unsigned_ucast_eq take_bit_nat_eq_self P)
  next
    case False
    then have i: "Suc (unat i) = 2 ^ 32" using unsigned_less [of i, where 'a = nat] by simp
    then have "unat (i + 1) = 0" by (simp add: unat_word_ariths)
    then have "i + 1 = 0" by (simp add: unsigned_eq_0_iff)
    moreover have "2 ^ k = (2::nat) ^ 32" using le assms(2) P i by simp
    ultimately show ?thesis by (simp add: rb_next_def P i)
  qed
qed

lemma rb_tail_in_bounds:
  assumes "rb_inv q"
  shows "unat (rb_tail q) < length (rb_buffer q)" "unat (rb_head q) < length (rb_buffer q)"
  using assms pow2_part_le [of "length (rb_buffer q)"] by (auto simp: rb_inv_def rb_period_def)

lemma rb_push_accept:
  assumes inv: "rb_inv q" and room: "length (rb_contents q) < rb_room q"
  shows "\<exists>q'. RingBuffer_push q x = Some (q', True) \<and> rb_inv q' \<and>
           rb_contents q' = rb_contents q @ [x] \<and> rb_room q' = rb_room q"
proof -
  let ?P = "rb_period q" and ?h = "unat (rb_head q)" and ?t = "unat (rb_tail q)"
  have ht: "?h < ?P" "?t < ?P" using inv by (auto simp: rb_inv_def)
  have nt: "unat (rb_next q (rb_tail q)) = Suc ?t mod ?P" using unat_rb_next inv ht by blast
  have nf: "Suc ?t mod ?P \<noteq> ?h"
    using room ht ring_dist_full [OF ht] by (simp add: rb_contents_def rb_room_def)
  then have ne: "rb_next q (rb_tail q) \<noteq> rb_head q" using nt by metis
  define q' where "q' = q\<lparr>rb_buffer := (rb_buffer q)[?t := x], rb_tail := rb_next q (rb_tail q)\<rparr>"
  have push: "RingBuffer_push q x = Some (q', True)"
    using ne rb_tail_in_bounds [OF inv] by (simp add: RingBuffer_push_def q'_def Let_def)
  have per: "rb_period q' = ?P" by (simp add: q'_def rb_period_def)
  have inv': "rb_inv q'"
    using inv ht nt per by (auto simp: rb_inv_def q'_def)
  have upd: "(!) ((rb_buffer q)[?t := x]) = ((!) (rb_buffer q))(?t := x)"
    using rb_tail_in_bounds [OF inv] by (intro ext) (simp add: nth_list_update)
  have n: "ring_dist ?P ?h ?t < ?P" using ht ring_dist_bound by (metis gr_zeroI not_less0)
  have "rb_contents q' = ring_slice (((!) (rb_buffer q))((?h + ring_dist ?P ?h ?t) mod ?P := x)) ?P ?h
      (Suc (ring_dist ?P ?h ?t))"
    by (simp add: rb_contents_def per) (simp add: q'_def upd nt ring_dist_push [OF ht nf] ring_dist_tail [OF ht])
  then show ?thesis
    using push inv' per ring_slice_push [OF n] by (simp add: rb_contents_def rb_room_def)
qed

lemma rb_push_reject:
  assumes inv: "rb_inv q" and full: "length (rb_contents q) = rb_room q"
  shows "RingBuffer_push q x = Some (q, False)"
proof -
  have ht: "unat (rb_head q) < rb_period q" "unat (rb_tail q) < rb_period q"
    using inv by (auto simp: rb_inv_def)
  then have "Suc (unat (rb_tail q)) mod rb_period q = unat (rb_head q)"
    using full ring_dist_full [OF ht] by (simp add: rb_contents_def rb_room_def)
  then have "unat (rb_next q (rb_tail q)) = unat (rb_head q)" using unat_rb_next inv ht by metis
  then have "rb_next q (rb_tail q) = rb_head q" by simp
  then show ?thesis by (simp add: RingBuffer_push_def Let_def)
qed

lemma rb_pop_front:
  assumes inv: "rb_inv q" and c: "rb_contents q = x # xs"
  shows "\<exists>q'. RingBuffer_pop q = Some (q', Some x) \<and> rb_inv q' \<and> rb_contents q' = xs \<and>
           rb_room q' = rb_room q"
proof -
  let ?P = "rb_period q" and ?h = "unat (rb_head q)" and ?t = "unat (rb_tail q)"
  have ht: "?h < ?P" "?t < ?P" using inv by (auto simp: rb_inv_def)
  have ne: "?h \<noteq> ?t"
    using c ring_dist_zero [OF ht] by (auto simp: rb_contents_def ring_slice_def)
  then have ne': "rb_head q \<noteq> rb_tail q" by auto
  define q' where "q' = q\<lparr>rb_head := rb_next q (rb_head q)\<rparr>"
  have nh: "unat (rb_next q (rb_head q)) = Suc ?h mod ?P" using unat_rb_next inv ht by blast
  have per: "rb_period q' = ?P" by (simp add: q'_def rb_period_def)
  have inv': "rb_inv q'" using inv ht nh per by (auto simp: rb_inv_def q'_def)
  have "rb_contents q = ring_slice ((!) (rb_buffer q)) ?P ?h (Suc (ring_dist ?P (Suc ?h mod ?P) ?t))"
    by (simp only: rb_contents_def ring_dist_pop [OF ht ne])
  also have "\<dots> = rb_buffer q ! ?h # rb_contents q'"
    unfolding ring_slice_pop using ht by (simp add: rb_contents_def per) (simp add: q'_def nh)
  finally have "x = rb_buffer q ! ?h" "xs = rb_contents q'" using c by auto
  moreover have "RingBuffer_pop q = Some (q', Some (rb_buffer q ! ?h))"
    using ne' rb_tail_in_bounds [OF inv] by (simp add: RingBuffer_pop_def q'_def Let_def)
  ultimately show ?thesis using inv' per by (simp add: rb_room_def)
qed

interpretation rb: bounded_fifo RingBuffer_push RingBuffer_pop rb_contents rb_inv rb_room
proof unfold_locales
  fix q :: "'a RingBuffer"
  assume inv: "rb_inv q"
  then have ht: "unat (rb_head q) < rb_period q" "unat (rb_tail q) < rb_period q"
    by (auto simp: rb_inv_def)
  show "length (rb_contents q) \<le> rb_room q"
    using ring_dist_bound [of "rb_period q" "unat (rb_head q)" "unat (rb_tail q)"] ht
    by (simp add: rb_contents_def rb_room_def)
  show "RingBuffer_pop q = Some (q, None)" if "rb_contents q = []"
    using that ring_dist_zero [OF ht]
    by (auto simp: rb_contents_def RingBuffer_pop_def ring_slice_def)
qed (rule rb_push_accept rb_push_reject rb_pop_front; assumption)+

lemma rb_inv_new:
  assumes "0 < unat cap" "pow2_part (unat cap) \<le> 2 ^ 32"
  shows "rb_inv (RingBuffer_new cap z)" "rb_contents (RingBuffer_new cap z) = []"
    "rb_room (RingBuffer_new cap z) = pow2_part (unat cap) - 1"
proof -
  have "0 < pow2_part (unat cap)" using pow2_part_form [OF assms(1)] by auto
  then show "rb_inv (RingBuffer_new cap z)"
    using assms by (simp add: rb_inv_def RingBuffer_new_def rb_period_def)
qed (simp_all add: RingBuffer_new_def rb_contents_def rb_room_def ring_dist_def ring_slice_def rb_period_def)

section \<open>The single-producer single-consumer queues\<close>

text \<open>\<open>k\<close> is the binary logarithm of the number of slots; the array is indexed by a masked counter.\<close>

record 'a spsc =
  sq_array :: "u64 \<Rightarrow> 'a"
  sq_head :: u64
  sq_tail :: u64

definition spsc_new :: "(u64 \<Rightarrow> 'a) \<Rightarrow> 'a spsc" where
  "spsc_new mem = \<lparr>sq_array = mem, sq_head = 0, sq_tail = 0\<rparr>"

definition spsc_push :: "nat \<Rightarrow> 'a spsc \<Rightarrow> 'a \<Rightarrow> ('a spsc \<times> bool) option" where
  "spsc_push k q msg =
     (if (sq_tail q + 1) AND (2 ^ k - 1) \<noteq> sq_head q AND (2 ^ k - 1)
      then Some (q\<lparr>sq_array := (sq_array q)(sq_tail q AND (2 ^ k - 1) := msg),
                  sq_tail := sq_tail q + 1\<rparr>, True)
      else Some (q, False))"

definition spsc_pop :: "nat \<Rightarrow> 'a spsc \<Rightarrow> ('a spsc \<times> 'a option) option" where
  "spsc_pop k q =
     (if sq_tail q \<noteq> sq_head q
      then Some (q\<lparr>sq_head := sq_head q + 1\<rparr>, Some (sq_array q (sq_head q AND (2 ^ k - 1))))
      else Some (q, None))"

definition spsc_empty :: "'a spsc \<Rightarrow> bool" where
  "spsc_empty q \<longleftrightarrow> sq_head q = sq_tail q"

declare spsc_new_def [queue_defs] spsc_push_def [queue_defs] spsc_pop_def [queue_defs]
  spsc_empty_def [queue_defs]

subsection \<open>The spsc queues are bounded queues\<close>

definition spsc_inv :: "nat \<Rightarrow> 'a spsc \<Rightarrow> bool" where
  "spsc_inv k q \<longleftrightarrow> unat (sq_tail q - sq_head q) < 2 ^ k"

definition spsc_contents :: "nat \<Rightarrow> 'a spsc \<Rightarrow> 'a list" where
  "spsc_contents k q = map (\<lambda>i. sq_array q (take_bit k (sq_head q + of_nat i)))
     [0..<unat (sq_tail q - sq_head q)]"

lemma take_bit_offset_inject:
  fixes h :: u64
  assumes "k \<le> 64" "i < j" "j < 2 ^ k"
  shows "take_bit k (h + of_nat i) \<noteq> take_bit k (h + of_nat j)"
proof
  assume "take_bit k (h + of_nat i) = take_bit k (h + of_nat j)"
  then have "2 ^ k dvd unat ((h + of_nat j) - (h + of_nat i))"
    using take_bit_eq_iff_dist [OF assms(1)] by metis
  moreover have "(h + of_nat j) - (h + of_nat i) = of_nat (j - i)"
    using assms(2) by (simp add: of_nat_diff)
  moreover have "unat (of_nat (j - i) :: u64) = j - i"
  proof -
    have "j - i < 2 ^ 64"
      using assms power_increasing [OF assms(1), of "2::nat"] by linarith
    then show ?thesis by (simp add: unat_of_nat)
  qed
  ultimately have "2 ^ k dvd j - i" by (simp only:)
  then show False using assms nat_dvd_not_less [of "j - i" "2 ^ k"] by simp
qed

lemma unat_tail_succ:
  fixes h t :: u64
  assumes "k < 64" "unat (t - h) < 2 ^ k"
  shows "unat (t + 1 - h) = Suc (unat (t - h))"
proof -
  have "(2::nat) ^ k < 2 ^ 64" using assms(1) by (rule power_strict_increasing) simp
  then have "Suc (unat (t - h)) < 2 ^ LENGTH(64)" using assms(2) by simp
  moreover have "t + 1 - h = (t - h) + 1" by simp
  ultimately show ?thesis by (simp only: unat_Suc_word)
qed

lemma dvd_Suc_iff: "d < P \<Longrightarrow> P dvd Suc d \<longleftrightarrow> d = P - (1::nat)"
  using dvd_imp_le [of P "Suc d"] by auto

lemma spsc_full_iff:
  fixes h t :: u64
  assumes "k < 64" "unat (t - h) < 2 ^ k"
  shows "take_bit k (t + 1) = take_bit k h \<longleftrightarrow> unat (t - h) = 2 ^ k - 1"
proof -
  have "take_bit k (t + 1) = take_bit k h \<longleftrightarrow> 2 ^ k dvd unat (t + 1 - h)"
    using assms(1) by (intro take_bit_eq_iff_dist) simp
  then show ?thesis by (simp only: unat_tail_succ [OF assms] dvd_Suc_iff [OF assms(2)])
qed

lemma spsc_push_cases:
  assumes k: "0 < k" "k < 64" and inv: "spsc_inv k q"
  shows "length (spsc_contents k q) < 2 ^ k - 1 \<Longrightarrow>
      \<exists>q'. spsc_push k q x = Some (q', True) \<and> spsc_inv k q' \<and>
           spsc_contents k q' = spsc_contents k q @ [x]"
    and "length (spsc_contents k q) = 2 ^ k - 1 \<Longrightarrow> spsc_push k q x = Some (q, False)"
proof -
  let ?d = "unat (sq_tail q - sq_head q)"
  have d: "?d < 2 ^ k" using inv by (simp add: spsc_inv_def)
  have full: "take_bit k (sq_tail q + 1) = take_bit k (sq_head q) \<longleftrightarrow> ?d = 2 ^ k - 1"
    by (rule spsc_full_iff [OF k(2) d])
  have d': "unat (sq_tail q + 1 - sq_head q) = Suc ?d" by (rule unat_tail_succ [OF k(2) d])
  have tail: "sq_head q + of_nat ?d = sq_tail q" by simp
  show "\<exists>q'. spsc_push k q x = Some (q', True) \<and> spsc_inv k q' \<and>
           spsc_contents k q' = spsc_contents k q @ [x]" if "length (spsc_contents k q) < 2 ^ k - 1"
  proof -
    have lt: "?d < 2 ^ k - 1" using that by (simp add: spsc_contents_def)
    have "map (\<lambda>i. ((sq_array q)(take_bit k (sq_tail q) := x)) (take_bit k (sq_head q + of_nat i))) [0..<?d]
        = spsc_contents k q"
      unfolding spsc_contents_def
    proof (rule map_cong [OF refl])
      fix i assume "i \<in> set [0..<?d]"
      then have "take_bit k (sq_head q + of_nat i) \<noteq> take_bit k (sq_head q + of_nat ?d)"
        using take_bit_offset_inject [of k i ?d "sq_head q"] k d by auto
      then show "((sq_array q)(take_bit k (sq_tail q) := x)) (take_bit k (sq_head q + of_nat i))
          = sq_array q (take_bit k (sq_head q + of_nat i))"
        by (simp only: tail) simp
    qed
    moreover have "spsc_push k q x = Some (q\<lparr>sq_array := (sq_array q)(take_bit k (sq_tail q) := x),
        sq_tail := sq_tail q + 1\<rparr>, True)"
      using lt full by (simp add: spsc_push_def mask_eq_take_bit)
    moreover have "Suc ?d < 2 ^ k" using lt by linarith
    ultimately show ?thesis
      by (simp only: spsc_inv_def spsc_contents_def) (simp add: d' tail)
  qed
  show "spsc_push k q x = Some (q, False)" if "length (spsc_contents k q) = 2 ^ k - 1"
    using that full by (simp add: spsc_push_def mask_eq_take_bit spsc_contents_def)
qed

lemma spsc_pop_cases:
  assumes inv: "spsc_inv k q"
  shows "spsc_contents k q = [] \<Longrightarrow> spsc_pop k q = Some (q, None)"
    and "spsc_contents k q = x # xs \<Longrightarrow>
      \<exists>q'. spsc_pop k q = Some (q', Some x) \<and> spsc_inv k q' \<and> spsc_contents k q' = xs"
proof -
  let ?d = "unat (sq_tail q - sq_head q)"
  show "spsc_pop k q = Some (q, None)" if "spsc_contents k q = []"
    using that by (simp add: spsc_pop_def spsc_contents_def unsigned_eq_0_iff)
  show "\<exists>q'. spsc_pop k q = Some (q', Some x) \<and> spsc_inv k q' \<and> spsc_contents k q' = xs"
    if c: "spsc_contents k q = x # xs"
  proof -
    obtain n where n: "?d = Suc n" using c by (cases ?d) (auto simp: spsc_contents_def)
    then have ne: "sq_tail q \<noteq> sq_head q" by auto
    have "unat (sq_tail q - sq_head q - 1) = n"
      using n ne by (simp only: unat_minus_one right_minus_eq simp_thms)
    moreover have "sq_tail q - (sq_head q + 1) = sq_tail q - sq_head q - 1" by simp
    ultimately have d': "unat (sq_tail q - (sq_head q + 1)) = n" by (simp only:)
    have "[0..<Suc n] = 0 # map Suc [0..<n]" by (simp add: upt_conv_Cons map_Suc_upt del: upt_Suc)
    then have "spsc_contents k q = sq_array q (take_bit k (sq_head q)) #
        map (\<lambda>i. sq_array q (take_bit k (sq_head q + 1 + of_nat i))) [0..<n]"
      by (simp only: spsc_contents_def n list.map map_map comp_def of_nat_Suc add.assoc) simp
    then have "x = sq_array q (take_bit k (sq_head q))"
      "xs = map (\<lambda>i. sq_array q (take_bit k (sq_head q + 1 + of_nat i))) [0..<n]"
      using c by auto
    moreover have "n < 2 ^ k" using inv n by (simp add: spsc_inv_def)
    ultimately show ?thesis
      using ne d' by (simp add: spsc_contents_def spsc_pop_def spsc_inv_def mask_eq_take_bit)
  qed
qed

lemma spsc_bounded_fifo:
  assumes "0 < k" "k < 64"
  shows "bounded_fifo (spsc_push k) (spsc_pop k) (spsc_contents k) (spsc_inv k) (\<lambda>_. 2 ^ k - 1)"
proof
  fix q :: "'a spsc"
  assume "spsc_inv k q"
  then show "length (spsc_contents k q) \<le> 2 ^ k - 1" by (simp add: spsc_inv_def spsc_contents_def)
qed (simp_all add: spsc_push_cases [OF assms] spsc_pop_cases)

text \<open>
  \<open>queue_buffer_size\<close> is \<open>1 << 20\<close> in \<^verbatim>\<open>spsc_queue.h\<close> and \<^verbatim>\<open>listener.h\<close>; \<open>mem_regions\<close> is 32 in
  \<^verbatim>\<open>trade_processor.h\<close>.
\<close>

interpretation sq: bounded_fifo "spsc_push 20" "spsc_pop 20" "spsc_contents 20" "spsc_inv 20"
  "\<lambda>_. 2 ^ 20 - 1"
  by (rule spsc_bounded_fifo) simp_all

interpretation rq: bounded_fifo "spsc_push 5" "spsc_pop 5" "spsc_contents 5" "spsc_inv 5"
  "\<lambda>_. 2 ^ 5 - 1"
  by (rule spsc_bounded_fifo) simp_all

lemma spsc_inv_new: "spsc_inv k (spsc_new mem)" "spsc_contents k (spsc_new mem) = []"
  by (simp_all add: spsc_inv_def spsc_contents_def spsc_new_def)

section \<open>Properties of the queues\<close>

text \<open>
  The order queue is a bounded FIFO for every capacity: any sequence of pushes and pops on a new
  \<open>RingBuffer\<close> ends without leaving the vector, what was accepted comes out in order, and at most one less
  than the largest power of two dividing the capacity is kept.
\<close>

theorem ring_buffer_history:
  assumes "0 < unat cap" "pow2_part (unat cap) \<le> 2 ^ 32"
  shows "\<exists>r acc out. fifo_run RingBuffer_push RingBuffer_pop ops (RingBuffer_new cap z) = Some (r, acc, out) \<and>
    acc = out @ rb_contents r \<and> length (rb_contents r) < pow2_part (unat cap)"
proof -
  note new = rb_inv_new [OF assms, of z]
  obtain r acc out where r: "fifo_run RingBuffer_push RingBuffer_pop ops (RingBuffer_new cap z) = Some (r, acc, out)"
    "rb_inv r" "rb_room r = rb_room (RingBuffer_new cap z)" "rb_contents (RingBuffer_new cap z) @ acc = out @ rb_contents r"
    using rb.run_history [OF new(1), of ops] by blast
  have "0 < pow2_part (unat cap)" using pow2_part_form [OF assms(1)] by auto
  then have "length (rb_contents r) < pow2_part (unat cap)" using rb.room_bound [OF r(2)] r(3) new(3) by simp
  then show ?thesis using r new(2) by simp
qed

theorem ring_buffer_history_witness:
  "\<exists>r acc out. fifo_run RingBuffer_push RingBuffer_pop [Push (1 :: nat), Push 2, Pop, Push 3] (RingBuffer_new 8 0) = Some (r, acc, out) \<and>
    acc = out @ rb_contents r"
proof -
  have "pow2_part 8 = 8" by code_simp
  then show ?thesis using ring_buffer_history [of 8 "[Push 1, Push 2, Pop, Push 3]" "0 :: nat"] by auto
qed

text \<open>
  With the default capacity of 10000 the order management system's queue holds at most 15 orders: 10000 is not a
  power of two, and masking with 9999 keeps the indices below 16.
\<close>

theorem default_capacity_holds_15:
  "\<exists>r acc out. fifo_run RingBuffer_push RingBuffer_pop ops (RingBuffer_new 10000 z) = Some (r, acc, out) \<and>
    acc = out @ rb_contents r \<and> length (rb_contents r) \<le> 15"
proof -
  have p: "pow2_part 10000 = 16"
    by (simp add: pow2_part.simps [of 10000] pow2_part.simps [of 5000] pow2_part.simps [of 2500]
        pow2_part.simps [of 1250] pow2_part.simps [of 625])
  have c: "unat (10000 :: u64) = 10000" by simp
  note new = rb_inv_new [of "10000 :: u64" z, unfolded c p]
  obtain r acc out where r: "fifo_run RingBuffer_push RingBuffer_pop ops (RingBuffer_new 10000 z) = Some (r, acc, out)"
    "rb_inv r" "rb_room r = rb_room (RingBuffer_new 10000 z)" "rb_contents (RingBuffer_new 10000 z) @ acc = out @ rb_contents r"
    using rb.run_history [of "RingBuffer_new 10000 z" ops] new by auto
  then show ?thesis using rb.room_bound [OF r(2)] new by simp
qed

text \<open>
  The market data queue is a bounded FIFO: any sequence of pushes and pops on a new queue ends, what was accepted
  comes out in order, nothing is lost or duplicated when the 64-bit counters wrap around, and at most
  \<open>2^20 - 1\<close> messages are kept.
\<close>

theorem spsc_queue_history:
  "\<exists>r acc out. fifo_run (spsc_push 20) (spsc_pop 20) ops (spsc_new mem) = Some (r, acc, out) \<and>
    acc = out @ spsc_contents 20 r \<and> length (spsc_contents 20 r) < 2 ^ 20"
proof -
  obtain r acc out where r: "fifo_run (spsc_push 20) (spsc_pop 20) ops (spsc_new mem) = Some (r, acc, out)"
    "spsc_inv 20 r" "spsc_contents 20 (spsc_new mem) @ acc = out @ spsc_contents 20 r"
    using sq.run_history [OF spsc_inv_new(1), of ops mem] by blast
  then show ?thesis using sq.room_bound [OF r(2)] spsc_inv_new(2) [of 20 mem] by simp
qed

text \<open>
  The queue accepts a message exactly when fewer than \<open>2^20 - 1\<close> are waiting, wherever its counters stand.
\<close>

theorem spsc_push_accepts:
  assumes "spsc_inv 20 q"
  shows "\<exists>q'. spsc_push 20 q x = Some (q', length (spsc_contents 20 q) < 2 ^ 20 - 1) \<and> spsc_inv 20 q' \<and>
    spsc_contents 20 q' = (if length (spsc_contents 20 q) < 2 ^ 20 - 1 then spsc_contents 20 q @ [x] else spsc_contents 20 q)"
proof -
  obtain q' ok where "spsc_push 20 q x = Some (q', ok)" "spsc_inv 20 q'"
    "spsc_contents 20 q' = (if ok then spsc_contents 20 q @ [x] else spsc_contents 20 q)"
    "ok \<longleftrightarrow> length (spsc_contents 20 q) < 2 ^ 20 - 1"
    by (rule sq.push_total [OF assms])
  then show ?thesis by auto
qed

theorem spsc_push_accepts_witness:
  "\<exists>q'. spsc_push 20 (spsc_new (\<lambda>_. 0 :: nat)) 7 = Some (q', True) \<and> spsc_contents 20 q' = [7]"
  using spsc_push_accepts [OF spsc_inv_new(1), of "\<lambda>_. 0 :: nat" 7] by (auto simp: spsc_inv_new)

end
