(* ===== verification/Trade_Ring.thy ===== *)
theory Trade_Ring
  imports Market_Types
begin

text \<open>
  The trade ring of \<^verbatim>\<open>src/src/trade_ring_buffer.cpp\<close>: a shared-memory ring of \<open>RING_SIZE\<close> slots. The
  matching engine is the only producer; every consumer keeps its own position. A slot carries the
  trade and a sequence number, odd while the producer writes the slot. Slots are indexed by
  the 64-bit index of the handle, which masking keeps below \<open>RING_SIZE\<close>.
\<close>

section \<open>The ring and its handles\<close>

definition RING_SIZE :: u64 where "RING_SIZE = 2 ^ 20"
definition MOD :: u64 where "MOD = 2 ^ 60"

record item_node =
  curr_trade :: Trade
  seq :: u64

type_synonym trade_ring = "u64 \<Rightarrow> item_node"

record trade_ring_buffer =
  tb_index :: u64
  tb_next_expected_seq :: u64
  tb_is_producer :: bool
  tb_buffer_id :: u32

text \<open>The constructor; the kernel fills a new shared memory object with zero bytes.\<close>

definition trade_ring_buffer_new :: "bool \<Rightarrow> u32 \<Rightarrow> trade_ring_buffer" where
  "trade_ring_buffer_new IsProducer buffer_id =
     \<lparr>tb_index = 0, tb_next_expected_seq = 1, tb_is_producer = IsProducer, tb_buffer_id = buffer_id\<rparr>"

definition zero_trade :: Trade where
  "zero_trade = \<lparr>t_trade_id = 0, t_timestamp_ns = 0, t_price = 0, t_buy_order_id = 0, t_sell_order_id = 0,
     t_symbol_id = 0, t_quantity = 0\<rparr>"

definition zero_ring :: trade_ring where
  "zero_ring = (\<lambda>_. \<lparr>curr_trade = zero_trade, seq = 0\<rparr>)"

definition update_index_and_seq :: "trade_ring_buffer \<Rightarrow> trade_ring_buffer" where
  "update_index_and_seq h =
     (let next_seq = (tb_next_expected_seq h + 1) AND (MOD - 1) in
      h\<lparr>tb_index := (tb_index h + 1) AND (RING_SIZE - 1),
        tb_next_expected_seq := next_seq OR (if next_seq = 0 then 1 else 0)\<rparr>)"

text \<open>
  The three writes of \<open>add_trade\<close> in their order: the odd sequence number, the payload, the final
  even sequence number.
\<close>

definition mark_writing :: "trade_ring \<Rightarrow> trade_ring_buffer \<Rightarrow> trade_ring" where
  "mark_writing ring h = ring(tb_index h := (ring (tb_index h))\<lparr>seq := push_bit 1 (tb_next_expected_seq h) OR 1\<rparr>)"

definition write_payload :: "trade_ring \<Rightarrow> trade_ring_buffer \<Rightarrow> Trade \<Rightarrow> trade_ring" where
  "write_payload ring h recent_trade = ring(tb_index h := (ring (tb_index h))\<lparr>curr_trade := recent_trade\<rparr>)"

definition mark_done :: "trade_ring \<Rightarrow> trade_ring_buffer \<Rightarrow> trade_ring" where
  "mark_done ring h = ring(tb_index h := (ring (tb_index h))\<lparr>seq := push_bit 1 (tb_next_expected_seq h) + 2\<rparr>)"

definition add_trade :: "Trade \<Rightarrow> trade_ring \<times> trade_ring_buffer \<Rightarrow> trade_ring \<times> trade_ring_buffer" where
  "add_trade recent_trade rh = (case rh of (ring, h) \<Rightarrow>
     (mark_done (write_payload (mark_writing ring h) h recent_trade) h, update_index_and_seq h))"

definition any_new_trade :: "trade_ring \<Rightarrow> trade_ring_buffer \<Rightarrow> bool" where
  "any_new_trade ring h \<longleftrightarrow> seq (ring (tb_index h)) \<ge> tb_next_expected_seq h"

definition lagged_out :: "trade_ring \<Rightarrow> trade_ring_buffer \<Rightarrow> bool" where
  "lagged_out ring h \<longleftrightarrow>
     ((seq (ring (tb_index h)) + MOD) - tb_next_expected_seq h) AND (MOD - 1) \<ge> RING_SIZE"

text \<open>
  \<open>get_trade\<close> when no write of the slot is in progress: the first pass of the loop reads the same
  sequence number twice.
\<close>

definition get_trade :: "trade_ring \<Rightarrow> trade_ring_buffer \<Rightarrow> (trade_ring_buffer \<times> Trade) option" where
  "get_trade ring h =
     (if bit (seq (ring (tb_index h))) 0 then None
      else Some (update_index_and_seq h, curr_trade (ring (tb_index h))))"

section \<open>What the producer leaves in the ring\<close>

lemma ring_mask: "x AND (RING_SIZE - 1) = take_bit 20 x" "x AND (MOD - 1) = take_bit 60 x"
  by (simp_all only: RING_SIZE_def MOD_def mask_eq_take_bit)

text \<open>The handle after \<open>n\<close> updates, producer or consumer.\<close>

definition handle_at :: "trade_ring_buffer \<Rightarrow> nat \<Rightarrow> bool" where
  "handle_at h n \<longleftrightarrow> unat (tb_index h) = n mod 2 ^ 20 \<and> unat (tb_next_expected_seq h) = n + 1"

lemma handle_at_new: "handle_at (trade_ring_buffer_new p i) 0"
  by (simp add: handle_at_def trade_ring_buffer_new_def)

lemma handle_at_update:
  assumes "handle_at h n" "n + 2 < 2 ^ 60"
  shows "handle_at (update_index_and_seq h) (n + 1)"
proof -
  have i: "unat (tb_index h) = n mod 2 ^ 20" and s: "unat (tb_next_expected_seq h) = n + 1"
    using assms by (auto simp: handle_at_def)
  have "n mod 2 ^ 20 < 2 ^ 20" by simp
  then have "unat (tb_index h + 1) = Suc (n mod 2 ^ 20)" using i by (subst unat_Suc_word) auto
  then have "unat (take_bit 20 (tb_index h + 1)) = (n + 1) mod 2 ^ 20"
    by (simp add: unat_take_bit_word mod_Suc_eq)
  moreover have "unat (tb_next_expected_seq h + 1) = n + 2" using s assms by (subst unat_Suc_word) auto
  then have t: "unat (take_bit 60 (tb_next_expected_seq h + 1)) = n + 2"
    using assms by (simp add: unat_take_bit_word)
  then have "take_bit 60 (tb_next_expected_seq h + 1) \<noteq> 0" by (metis add_eq_0_iff_both_eq_0 unsigned_0 zero_neq_numeral)
  ultimately show ?thesis using t by (simp add: handle_at_def update_index_and_seq_def Let_def ring_mask)
qed

definition ring_holds :: "trade_ring \<Rightarrow> Trade list \<Rightarrow> bool" where
  "ring_holds ring ts \<longleftrightarrow> (\<forall>i. unat i < 2 ^ 20 \<longrightarrow>
     (\<forall>m < length ts. length ts \<le> m + 2 ^ 20 \<longrightarrow> m mod 2 ^ 20 = unat i \<longrightarrow>
        ring i = \<lparr>curr_trade = ts ! m, seq = of_nat (2 * m + 4)\<rparr>) \<and>
     (length ts \<le> unat i \<longrightarrow> seq (ring i) = 0))"

lemma ring_holds_zero: "ring_holds zero_ring []"
  by (simp add: ring_holds_def zero_ring_def)

lemma add_trade_ring:
  assumes "handle_at h n"
  shows "add_trade t (ring, h) =
    (ring(tb_index h := \<lparr>curr_trade = t, seq = of_nat (2 * n + 4)\<rparr>), update_index_and_seq h)"
proof -
  have "tb_next_expected_seq h = of_nat (n + 1)" using assms by (metis handle_at_def of_nat_unat ucast_id)
  then have "push_bit 1 (tb_next_expected_seq h) + 2 = of_nat (2 * n + 4)" by (simp add: push_bit_eq_mult)
  then show ?thesis
    by (cases "ring (tb_index h)") (simp add: add_trade_def mark_done_def write_payload_def mark_writing_def algebra_simps)
qed

lemma add_trade_ok:
  assumes h: "handle_at h (length ts)" and r: "ring_holds ring ts" and n: "length ts + 2 < 2 ^ 60"
    and a: "add_trade t (ring, h) = (ring', h')"
  shows "ring_holds ring' (ts @ [t])" "handle_at h' (length (ts @ [t]))"
proof -
  let ?n = "length ts"
  have ring': "ring' = ring(tb_index h := \<lparr>curr_trade = t, seq = of_nat (2 * ?n + 4)\<rparr>)"
    and h': "h' = update_index_and_seq h" using a add_trade_ring [OF h] by auto
  show "handle_at h' (length (ts @ [t]))" using handle_at_update [OF h n] h' by simp
  have idx: "unat (tb_index h) = ?n mod 2 ^ 20" using h by (simp add: handle_at_def)
  show "ring_holds ring' (ts @ [t])"
    unfolding ring_holds_def
  proof (intro allI impI conjI)
    fix i :: u64 and m assume i: "unat i < 2 ^ 20" and m: "m < length (ts @ [t])" "length (ts @ [t]) \<le> m + 2 ^ 20"
      "m mod 2 ^ 20 = unat i"
    show "ring' i = \<lparr>curr_trade = (ts @ [t]) ! m, seq = of_nat (2 * m + 4)\<rparr>"
    proof (cases "m = ?n")
      case True
      then have "i = tb_index h" using idx m by (metis unat_inject)
      then show ?thesis using True ring' by simp
    next
      case False
      then have lt: "m < ?n" "?n - m < 2 ^ 20" using m by auto
      have "tb_index h \<noteq> i"
      proof
        assume "tb_index h = i"
        then have "(m + 0) mod 2 ^ 20 = (m + (?n - m)) mod 2 ^ 20" using idx m(3) lt by simp
        then have "0 = ?n - m" using lt by (intro mod_add_inject [of 0 "?n - m" "2 ^ 20" m]) auto
        then show False using lt by simp
      qed
      then show ?thesis using r i m lt by (simp add: ring_holds_def ring' nth_append)
    qed
  next
    fix i :: u64 assume i: "unat i < 2 ^ 20" "length (ts @ [t]) \<le> unat i"
    then have "tb_index h \<noteq> i" using idx by auto
    then show "seq (ring' i) = 0" using r i by (simp add: ring_holds_def ring')
  qed
qed

text \<open>All trades published so far, from the empty ring on.\<close>

definition publish_all :: "trade_ring \<times> trade_ring_buffer \<Rightarrow> Trade list \<Rightarrow> trade_ring \<times> trade_ring_buffer" where
  "publish_all rh ts = fold add_trade ts rh"

lemma publish_all_simps [simp]:
  "publish_all rh [] = rh" "publish_all rh (t # ts) = publish_all (add_trade t rh) ts"
  "publish_all rh (xs @ ys) = publish_all (publish_all rh xs) ys"
  by (simp_all add: publish_all_def)

lemma publish_all_ok:
  assumes "handle_at h (length us)" "ring_holds ring us" "length us + length ts + 2 \<le> 2 ^ 60"
    "publish_all (ring, h) ts = (ring', h')"
  shows "ring_holds ring' (us @ ts) \<and> handle_at h' (length (us @ ts))"
  using assms
proof (induction ts arbitrary: us ring h)
  case (Cons t ts)
  obtain r1 h1 where a: "add_trade t (ring, h) = (r1, h1)" by fastforce
  show ?case using Cons.IH [of h1 "us @ [t]" r1] add_trade_ok [of h us ring t r1 h1] Cons.prems a by simp
qed simp

section \<open>What a consumer sees\<close>

text \<open>
  The slot of a consumer that has read \<open>j\<close> of the \<open>n\<close> trades so far and was not lapped: it holds
  trade \<open>j\<close> when there is one, otherwise what was left there one round ago.
\<close>

lemma consumer_slot:
  assumes r: "ring_holds ring ts" and h: "handle_at h j" and j: "j \<le> length ts" "length ts \<le> j + 2 ^ 20"
  shows "j < length ts \<Longrightarrow> ring (tb_index h) = \<lparr>curr_trade = ts ! j, seq = of_nat (2 * j + 4)\<rparr>"
    "j = length ts \<Longrightarrow> seq (ring (tb_index h)) = of_nat (if j < 2 ^ 20 then 0 else 2 * (j - 2 ^ 20) + 4)"
proof -
  have i: "unat (tb_index h) = j mod 2 ^ 20" "unat (tb_index h) < 2 ^ 20" using h by (simp_all add: handle_at_def)
  show "ring (tb_index h) = \<lparr>curr_trade = ts ! j, seq = of_nat (2 * j + 4)\<rparr>" if "j < length ts"
    using r that j i unfolding ring_holds_def by (metis (no_types))
  assume e: "j = length ts"
  show "seq (ring (tb_index h)) = of_nat (if j < 2 ^ 20 then 0 else 2 * (j - 2 ^ 20) + 4)"
  proof (cases "j < 2 ^ 20")
    case True
    then have "length ts \<le> unat (tb_index h)" using i e by simp
    then show ?thesis using r i True unfolding ring_holds_def by simp
  next
    case False
    define m where "m = j - 2 ^ 20"
    have m: "j = m + 2 ^ 20" using False by (simp add: m_def)
    then have "m < length ts" "length ts \<le> m + 2 ^ 20" "m mod 2 ^ 20 = unat (tb_index h)" using e i by auto
    then have "ring (tb_index h) = \<lparr>curr_trade = ts ! m, seq = of_nat (2 * m + 4)\<rparr>"
      using r i unfolding ring_holds_def by blast
    then show ?thesis using False by (simp add: m)
  qed
qed

lemma consumer_any_new:
  assumes r: "ring_holds ring ts" and h: "handle_at h j" and j: "j \<le> length ts" "length ts \<le> j + 2 ^ 20"
    and n: "length ts < 2 ^ 60"
  shows "any_new_trade ring h \<longleftrightarrow> j < length ts \<or> 2 * 2 ^ 20 \<le> j + 3"
proof -
  have s: "unat (tb_next_expected_seq h) = j + 1" using h by (simp add: handle_at_def)
  have a: "any_new_trade ring h \<longleftrightarrow> j + 1 \<le> unat (seq (ring (tb_index h)))"
    by (simp add: any_new_trade_def word_le_nat_alt s)
  show ?thesis
  proof (cases "j < length ts")
    case True
    have "unat (of_nat (2 * j + 4) :: u64) = 2 * j + 4" using True n by (simp only: unat_of_nat) simp
    then show ?thesis using a True consumer_slot(1) [OF r h j] by simp
  next
    case False
    then have e: "j = length ts" using j by simp
    let ?v = "if j < 2 ^ 20 then 0 else 2 * (j - 2 ^ 20) + 4 :: nat"
    have "unat (of_nat ?v :: u64) = ?v" using e n by (simp only: unat_of_nat) simp
    then have "any_new_trade ring h \<longleftrightarrow> j + 1 \<le> ?v" using a consumer_slot(2) [OF r h j e] by simp
    then show ?thesis using False by (auto split: if_splits)
  qed
qed

lemma consumer_get:
  assumes r: "ring_holds ring ts" and h: "handle_at h j" and j: "j < length ts" "length ts \<le> j + 2 ^ 20"
  shows "get_trade ring h = Some (update_index_and_seq h, ts ! j)"
proof -
  have "of_nat (2 * j + 4) = (push_bit 1 (of_nat (j + 2)) :: u64)" by (simp add: push_bit_eq_mult)
  then have "\<not> bit (of_nat (2 * j + 4) :: u64) 0" by (simp only: bit_push_bit_iff) simp
  then show ?thesis
    using consumer_slot(1) [OF r h less_imp_le [OF j(1)] j(2) j(1)] by (simp only: get_trade_def) simp
qed

section \<open>Properties of the trade ring\<close>

text \<open>
  Trades reach the consumer: after any \<open>n\<close> trades since start, a consumer that has read \<open>j < n\<close> of them and is
  at most one ring behind sees that there is a new trade, reads trade \<open>j\<close>, and moves on to \<open>j + 1\<close>.
\<close>

theorem consumer_reads_next:
  assumes "publish_all (zero_ring, trade_ring_buffer_new True i) ts = (ring, h)" "length ts + 2 \<le> 2 ^ 60"
    "handle_at c j" "j < length ts" "length ts \<le> j + 2 ^ 20"
  shows "any_new_trade ring c \<and> get_trade ring c = Some (update_index_and_seq c, ts ! j) \<and>
    handle_at (update_index_and_seq c) (j + 1)"
proof -
  have r: "ring_holds ring ts"
    using publish_all_ok [of "trade_ring_buffer_new True i" "[]" zero_ring ts ring h] assms(1,2) handle_at_new ring_holds_zero
    by simp
  have "any_new_trade ring c" using consumer_any_new [OF r assms(3)] assms(2,4,5) by simp
  moreover have "get_trade ring c = Some (update_index_and_seq c, ts ! j)"
    by (rule consumer_get [OF r assms(3-5)])
  moreover have "handle_at (update_index_and_seq c) (j + 1)" using handle_at_update [OF assms(3)] assms(2,4) by simp
  ultimately show ?thesis by simp
qed

theorem consumer_reads_next_witness:
  "\<exists>ring h. publish_all (zero_ring, trade_ring_buffer_new True 0) [zero_trade\<lparr>t_price := 7\<rparr>] = (ring, h) \<and>
    get_trade ring (trade_ring_buffer_new False 0)
      = Some (update_index_and_seq (trade_ring_buffer_new False 0), zero_trade\<lparr>t_price := 7\<rparr>)"
proof -
  obtain ring h where p: "publish_all (zero_ring, trade_ring_buffer_new True 0) [zero_trade\<lparr>t_price := 7\<rparr>] = (ring, h)"
    by fastforce
  then show ?thesis using consumer_reads_next [OF p _ handle_at_new, of False 0] by simp
qed

text \<open>
  A consumer that has read everything sees no new trade until \<open>2^21 - 3\<close> trades have been published; from then
  on \<open>any_new_trade\<close> is true although there is none, because the slot still holds the doubled sequence number of
  the round before, which has caught up with the single one expected.
\<close>

theorem caught_up_consumer:
  assumes "publish_all (zero_ring, trade_ring_buffer_new True i) ts = (ring, h)" "length ts + 2 \<le> 2 ^ 60"
    "handle_at c (length ts)"
  shows "any_new_trade ring c \<longleftrightarrow> 2 ^ 21 - 3 \<le> length ts"
proof -
  have r: "ring_holds ring ts"
    using publish_all_ok [of "trade_ring_buffer_new True i" "[]" zero_ring ts ring h] assms(1,2) handle_at_new ring_holds_zero
    by simp
  have "any_new_trade ring c \<longleftrightarrow> length ts < length ts \<or> 2 * 2 ^ 20 \<le> length ts + 3"
    by (rule consumer_any_new [OF r assms(3)]) (use assms(2) in auto)
  then show ?thesis by auto
qed

theorem caught_up_consumer_witness:
  "\<exists>ring h. publish_all (zero_ring, trade_ring_buffer_new True 0) [] = (ring, h) \<and>
    \<not> any_new_trade ring (trade_ring_buffer_new False 0)"
proof -
  have p: "publish_all (zero_ring, trade_ring_buffer_new True 0) [] = (zero_ring, trade_ring_buffer_new True 0)" by simp
  then show ?thesis using caught_up_consumer [OF p, of "trade_ring_buffer_new False 0"] handle_at_new by auto
qed

end
