(* ===== verification/Matching.thy ===== *)
theory Matching
  imports Book_Wf Ring_Queue Trade_Ring
begin

text \<open>
  \<open>GroupProcessor\<close> of \<^verbatim>\<open>src/src/producer_consumer.cpp\<close>: a group owns the books of its symbols, a queue
  of incoming orders and the producer end of a trade ring, and matches one order after the other.
  \<open>std::cout\<close> output and the members \<open>order_count\<close> and \<open>symbol_count\<close>, which nothing reads, are left out.
  The array of last traded prices is shared with the other group and the order management system.
\<close>

section \<open>The group processor\<close>

record GroupProcessor =
  g_bookmanager :: "OrderBookManager option"
  g_ring :: trade_ring
  g_trade_buffer :: trade_ring_buffer
  g_group_queue :: "Order RingBuffer"
  g_next_trade_id :: u64
  g_group_no :: u32
  g_terminate_flag :: bool
  g_is_running_flag :: bool
  g_shared_ltp :: MarketState

text \<open>\<open>blank\<close> is the value-initialised \<open>Order\<close> in the slots of the new queue.\<close>

definition GroupProcessor_new :: "Order \<Rightarrow> u32 \<Rightarrow> u64 \<Rightarrow> trade_ring \<Rightarrow> MarketState \<Rightarrow> GroupProcessor" where
  "GroupProcessor_new blank group_no queue_capacity ring shared_ptr =
     \<lparr>g_bookmanager = None, g_ring = ring, g_trade_buffer = trade_ring_buffer_new True group_no,
      g_group_queue = RingBuffer_new queue_capacity blank, g_next_trade_id = 1, g_group_no = group_no,
      g_terminate_flag = False, g_is_running_flag = False, g_shared_ltp = shared_ptr\<rparr>"

definition setup_book_manager :: "GroupProcessor \<Rightarrow> GroupProcessor" where
  "setup_book_manager g = g\<lparr>g_bookmanager := Some (OrderBookManager_new MAX_SYMBOLS)\<rparr>"

definition gp_terminate :: "GroupProcessor \<Rightarrow> GroupProcessor" where
  "gp_terminate g = g\<lparr>g_terminate_flag := True\<rparr>"

definition gp_is_running :: "GroupProcessor \<Rightarrow> bool" where
  "gp_is_running g = g_is_running_flag g"

definition enqueue_order :: "GroupProcessor \<Rightarrow> Order \<Rightarrow> (GroupProcessor \<times> bool) option" where
  "enqueue_order g order = do {
     (q, ok) \<leftarrow> RingBuffer_push (g_group_queue g) order;
     Some (g\<lparr>g_group_queue := q\<rparr>, ok)
   }"

definition publish_trade :: "GroupProcessor \<Rightarrow> Trade \<Rightarrow> GroupProcessor" where
  "publish_trade g trade = (case add_trade trade (g_ring g, g_trade_buffer g) of
     (ring, tb) \<Rightarrow> g\<lparr>g_ring := ring, g_trade_buffer := tb\<rparr>)"

text \<open>The statements around a fill: the trade takes the next id, is published, and sets the last price.\<close>

definition execute_trade :: "GroupProcessor \<Rightarrow> Order \<Rightarrow> u64 \<Rightarrow> u64 \<Rightarrow> u64 \<Rightarrow> u32 \<Rightarrow> GroupProcessor" where
  "execute_trade g order best_price buy_id sell_id quantity =
     (let g1 = publish_trade (g\<lparr>g_next_trade_id := g_next_trade_id g + 1\<rparr>)
        \<lparr>t_trade_id = g_next_trade_id g, t_timestamp_ns = o_timestamp order, t_price = best_price,
         t_buy_order_id = buy_id, t_sell_order_id = sell_id,
         t_symbol_id = o_symbol_id order, t_quantity = quantity\<rparr>
      in g1\<lparr>g_shared_ltp := (g_shared_ltp g1)[unat (o_symbol_id order AND SYMBOL_MASK) := best_price]\<rparr>)"

text \<open>
  The four matching loops. The result carries the order as the loop leaves it and whether the loop
  left the function with \<open>return\<close>. \<open>None\<close> is an access outside an array, a null head, or no end.
\<close>

partial_function (option) buy_loop ::
    "GroupProcessor \<Rightarrow> OrderBook \<Rightarrow> Order \<Rightarrow> u64 \<Rightarrow> (GroupProcessor \<times> OrderBook \<times> Order \<times> bool) option" where
  "buy_loop g book order best_price =
     (if o_quantity order > 0 \<and> getTotalSellQty book > 0 \<and> best_price \<le> o_price order then do {
        level \<leftarrow> getpricelevels book (priceToIndex book best_price);
        head \<leftarrow> gethead level (b_pool book);
        (if o_quantity (n_order head) > o_quantity order then do {
           (book1, _) \<leftarrow> modifyQuantity book best_price (o_quantity (n_order head) - o_quantity order);
           Some (execute_trade g order best_price (o_client_order_id order)
                   (o_client_order_id (n_order head)) (o_quantity order),
                 decreaseTotalSellQty book1 (o_quantity order), order, True)
         }
         else do {
           (book1, _) \<leftarrow> removeSellOrder book best_price;
           (book2, best_price2) \<leftarrow> bestsellprice book1;
           buy_loop (execute_trade g order best_price (o_client_order_id order)
                   (o_client_order_id (n_order head)) (o_quantity (n_order head)))
             book2 (order\<lparr>o_quantity := o_quantity order - o_quantity (n_order head)\<rparr>) best_price2
         })
      }
      else Some (g, book, order, False))"

partial_function (option) sell_loop ::
    "GroupProcessor \<Rightarrow> OrderBook \<Rightarrow> Order \<Rightarrow> u64 \<Rightarrow> (GroupProcessor \<times> OrderBook \<times> Order \<times> bool) option" where
  "sell_loop g book order best_price =
     (if o_quantity order > 0 \<and> getTotalBuyQty book > 0 \<and> best_price \<ge> o_price order then do {
        level \<leftarrow> getpricelevels book (priceToIndex book best_price);
        head \<leftarrow> gethead level (b_pool book);
        (if o_quantity (n_order head) > o_quantity order then do {
           (book1, _) \<leftarrow> modifyQuantity book best_price (o_quantity (n_order head) - o_quantity order);
           Some (execute_trade g order best_price (o_client_order_id (n_order head))
                   (o_client_order_id order) (o_quantity order),
                 decreaseTotalBuyQty book1 (o_quantity order), order, True)
         }
         else do {
           (book1, _) \<leftarrow> removeBuyOrder book best_price;
           (book2, best_price2) \<leftarrow> bestbuyprice book1;
           sell_loop (execute_trade g order best_price (o_client_order_id (n_order head))
                   (o_client_order_id order) (o_quantity (n_order head)))
             book2 (order\<lparr>o_quantity := o_quantity order - o_quantity (n_order head)\<rparr>) best_price2
         })
      }
      else Some (g, book, order, False))"

partial_function (option) market_buy_loop ::
    "GroupProcessor \<Rightarrow> OrderBook \<Rightarrow> Order \<Rightarrow> u64 \<Rightarrow> (GroupProcessor \<times> OrderBook \<times> Order \<times> bool) option" where
  "market_buy_loop g book order best_price =
     (if o_quantity order > 0 \<and> getTotalSellQty book > 0 \<and> isPriceValid book best_price then do {
        level \<leftarrow> getpricelevels book (priceToIndex book best_price);
        head \<leftarrow> gethead level (b_pool book);
        (if o_quantity (n_order head) > o_quantity order then do {
           (book1, _) \<leftarrow> modifyQuantity book best_price (o_quantity (n_order head) - o_quantity order);
           Some (execute_trade g order best_price (o_client_order_id order)
                   (o_client_order_id (n_order head)) (o_quantity order),
                 decreaseTotalSellQty book1 (o_quantity order), order, True)
         }
         else do {
           (book1, _) \<leftarrow> removeSellOrder book best_price;
           (book2, best_price2) \<leftarrow> bestsellprice book1;
           market_buy_loop (execute_trade g order best_price (o_client_order_id order)
                   (o_client_order_id (n_order head)) (o_quantity (n_order head)))
             book2 (order\<lparr>o_quantity := o_quantity order - o_quantity (n_order head)\<rparr>) best_price2
         })
      }
      else Some (g, book, order, False))"

partial_function (option) market_sell_loop ::
    "GroupProcessor \<Rightarrow> OrderBook \<Rightarrow> Order \<Rightarrow> u64 \<Rightarrow> (GroupProcessor \<times> OrderBook \<times> Order \<times> bool) option" where
  "market_sell_loop g book order best_price =
     (if o_quantity order > 0 \<and> getTotalBuyQty book > 0 \<and> isPriceValid book best_price then do {
        level \<leftarrow> getpricelevels book (priceToIndex book best_price);
        head \<leftarrow> gethead level (b_pool book);
        (if o_quantity (n_order head) > o_quantity order then do {
           (book1, _) \<leftarrow> modifyQuantity book best_price (o_quantity (n_order head) - o_quantity order);
           Some (execute_trade g order best_price (o_client_order_id (n_order head))
                   (o_client_order_id order) (o_quantity order),
                 decreaseTotalBuyQty book1 (o_quantity order), order, True)
         }
         else do {
           (book1, _) \<leftarrow> removeBuyOrder book best_price;
           (book2, best_price2) \<leftarrow> bestbuyprice book1;
           market_sell_loop (execute_trade g order best_price (o_client_order_id (n_order head))
                   (o_client_order_id order) (o_quantity (n_order head)))
             book2 (order\<lparr>o_quantity := o_quantity order - o_quantity (n_order head)\<rparr>) best_price2
         })
      }
      else Some (g, book, order, False))"

text \<open>
  \<open>OrderBook &book = bookmanager->get(order.symbol_id & SYMBOL_MASK)\<close> followed by the body of a handler
  that changes the book through the reference. A null \<open>bookmanager\<close> is undefined behaviour.
\<close>

definition with_book :: "GroupProcessor \<Rightarrow> Order \<Rightarrow>
    (GroupProcessor \<Rightarrow> OrderBook \<Rightarrow> (GroupProcessor \<times> OrderBook) option) \<Rightarrow> (engine_exn + GroupProcessor) option" where
  "with_book g order f = (case g_bookmanager g of
     None \<Rightarrow> None
   | Some m \<Rightarrow> (case bm_get m (o_symbol_id order AND SYMBOL_MASK) of
       Inl e \<Rightarrow> Some (Inl e)
     | Inr book \<Rightarrow> do {
         (g1, book1) \<leftarrow> f g book;
         Some (Inr (g1\<lparr>g_bookmanager := Some (bm_put m (o_symbol_id order AND SYMBOL_MASK) book1)\<rparr>))
       }))"

definition buy_body :: "Order \<Rightarrow> GroupProcessor \<Rightarrow> OrderBook \<Rightarrow> (GroupProcessor \<times> OrderBook) option" where
  "buy_body order g book =
     (if getTotalSellQty book = 0 then do { (book1, _) \<leftarrow> addBuyOrder book order; Some (g, book1) }
      else do {
        (book1, best) \<leftarrow> bestsellprice book;
        if best > o_price order then do { (book2, _) \<leftarrow> addBuyOrder book1 order; Some (g, book2) }
        else do {
          (book2, best_price) \<leftarrow> bestsellprice book1;
          (g3, book3, order3, returned) \<leftarrow> buy_loop g book2 order best_price;
          if \<not> returned \<and> o_quantity order3 > 0
          then do { (book4, _) \<leftarrow> addBuyOrder book3 order3; Some (g3, book4) }
          else Some (g3, book3)
        }
      })"

definition sell_body :: "Order \<Rightarrow> GroupProcessor \<Rightarrow> OrderBook \<Rightarrow> (GroupProcessor \<times> OrderBook) option" where
  "sell_body order g book =
     (if getTotalBuyQty book = 0 then do { (book1, _) \<leftarrow> addSellOrder book order; Some (g, book1) }
      else do {
        (book1, best) \<leftarrow> bestbuyprice book;
        if best < o_price order then do { (book2, _) \<leftarrow> addSellOrder book1 order; Some (g, book2) }
        else do {
          (book2, best_price) \<leftarrow> bestbuyprice book1;
          (g3, book3, order3, returned) \<leftarrow> sell_loop g book2 order best_price;
          if \<not> returned \<and> o_quantity order3 > 0
          then do { (book4, _) \<leftarrow> addSellOrder book3 order3; Some (g3, book4) }
          else Some (g3, book3)
        }
      })"

definition market_buy_body :: "Order \<Rightarrow> GroupProcessor \<Rightarrow> OrderBook \<Rightarrow> (GroupProcessor \<times> OrderBook) option" where
  "market_buy_body order g book =
     (if getTotalSellQty book = 0 then Some (g, book)
      else do {
        (book1, best_price) \<leftarrow> bestsellprice book;
        (g2, book2, _, _) \<leftarrow> market_buy_loop g book1 order best_price;
        Some (g2, book2)
      })"

definition market_sell_body :: "Order \<Rightarrow> GroupProcessor \<Rightarrow> OrderBook \<Rightarrow> (GroupProcessor \<times> OrderBook) option" where
  "market_sell_body order g book =
     (if getTotalBuyQty book = 0 then Some (g, book)
      else do {
        (book1, best_price) \<leftarrow> bestbuyprice book;
        (g2, book2, _, _) \<leftarrow> market_sell_loop g book1 order best_price;
        Some (g2, book2)
      })"

definition process_buy :: "GroupProcessor \<Rightarrow> Order \<Rightarrow> (engine_exn + GroupProcessor) option" where
  "process_buy g order = with_book g order (buy_body order)"

definition process_sell :: "GroupProcessor \<Rightarrow> Order \<Rightarrow> (engine_exn + GroupProcessor) option" where
  "process_sell g order = with_book g order (sell_body order)"

definition process_market_buy :: "GroupProcessor \<Rightarrow> Order \<Rightarrow> (engine_exn + GroupProcessor) option" where
  "process_market_buy g order = with_book g order (market_buy_body order)"

definition process_market_sell :: "GroupProcessor \<Rightarrow> Order \<Rightarrow> (engine_exn + GroupProcessor) option" where
  "process_market_sell g order = with_book g order (market_sell_body order)"

definition process_order :: "GroupProcessor \<Rightarrow> Order \<Rightarrow> (engine_exn + GroupProcessor) option" where
  "process_order g order = (case g_bookmanager g of
     None \<Rightarrow> None
   | Some m \<Rightarrow> (case bm_get m (o_symbol_id order AND SYMBOL_MASK) of
       Inl e \<Rightarrow> Some (Inl e)
     | Inr book \<Rightarrow>
         (if o_execution_type order = MARKET then
            (if o_type order = BUY then process_market_buy g order else process_market_sell g order)
          else if \<not> isPriceValid book (o_price order) then Some (Inr g)
          else if o_type order = BUY then process_buy g order
          else process_sell g order)))"

text \<open>
  The group thread: it sets the running flag once and then, until \<open>terminate_flag\<close> is set, pops an
  order and processes it. One pass of its loop; an exception leaves the thread and ends the program.
\<close>

definition group_start :: "GroupProcessor \<Rightarrow> GroupProcessor" where
  "group_start g = g\<lparr>g_is_running_flag := True\<rparr>"

definition group_step :: "GroupProcessor \<Rightarrow> (engine_exn + GroupProcessor) option" where
  "group_step g =
     (if g_terminate_flag g then Some (Inr g)
      else do {
        (q, popped) \<leftarrow> RingBuffer_pop (g_group_queue g);
        (case popped of
           None \<Rightarrow> Some (Inr (g\<lparr>g_group_queue := q\<rparr>))
         | Some cur_order \<Rightarrow> process_order (g\<lparr>g_group_queue := q\<rparr>) cur_order)
      })"

end
