(* ===== verification/Price_Time.thy ===== *)
theory Price_Time
  imports Book_Wf
begin

text \<open>
  The abstract specification of matching, on the two resting lists of a book: an incoming order is
  filled against the opposite side from its best order on (\<open>fill\<close>), each fill at the price of the
  resting order, and what is left of a limit order joins its own side behind the orders of a better or
  equal price. Lists are best price first, in order of arrival within a price.
\<close>

section \<open>Filling an order\<close>

text \<open>
  \<open>fill ok q rs\<close>: fill quantity \<open>q\<close> from the front of \<open>rs\<close> as long as \<open>ok\<close> accepts the resting order.
  The result is the quantity left, the resting orders left, and the fills.
\<close>

fun fill :: "(Order \<Rightarrow> bool) \<Rightarrow> u32 \<Rightarrow> Order list \<Rightarrow> u32 \<times> Order list \<times> (Order \<times> u32) list" where
  "fill ok q [] = (q, [], [])"
| "fill ok q (r # rs) =
     (if q = 0 \<or> \<not> ok r then (q, r # rs, [])
      else if q < o_quantity r then (0, r\<lparr>o_quantity := o_quantity r - q\<rparr> # rs, [(r, q)])
      else (case fill ok (q - o_quantity r) rs of (q', rs', fs) \<Rightarrow> (q', rs', (r, o_quantity r) # fs)))"

definition add_spec :: "nat \<Rightarrow> Order \<Rightarrow> (OrderType \<Rightarrow> Order list) \<Rightarrow> (OrderType \<Rightarrow> Order list)" where
  "add_spec cap order rest =
     (if length (rest BUY) + length (rest SELL) < cap
      then rest(o_type order := insert_resting (o_type order) order (rest (o_type order)))
      else rest)"

text \<open>An order accepts a resting price that is not worse, for the resting side, than its limit.\<close>

definition accepts :: "Order \<Rightarrow> Order \<Rightarrow> bool" where
  "accepts order r \<longleftrightarrow>
     o_execution_type order = MARKET \<or> \<not> worse (opp (o_type order)) (o_price r) (o_price order)"

definition match_spec :: "nat \<Rightarrow> (u64 \<Rightarrow> bool) \<Rightarrow> Order \<Rightarrow> (OrderType \<Rightarrow> Order list) \<Rightarrow>
    (OrderType \<Rightarrow> Order list) \<times> (Order \<times> u32) list" where
  "match_spec cap valid order rest =
     (if o_execution_type order \<noteq> MARKET \<and> \<not> valid (o_price order) then (rest, [])
      else (case fill (accepts order) (o_quantity order) (rest (opp (o_type order))) of (q, rs, fs) \<Rightarrow>
        let rest1 = rest(opp (o_type order) := rs)
        in (if 0 < q \<and> o_execution_type order \<noteq> MARKET
            then add_spec cap (order\<lparr>o_quantity := q\<rparr>) rest1 else rest1, fs)))"

section \<open>Properties of the specification\<close>

definition filled :: "(Order \<times> u32) list \<Rightarrow> nat" where
  "filled fs = (\<Sum>(r, q)\<leftarrow>fs. unat q)"

lemma filled_simps [simp]: "filled [] = 0" "filled ((r, q) # fs) = unat q + filled fs"
  by (simp_all add: filled_def)

text \<open>Nothing is lost: the order's quantity is what was filled and what is left, on both sides.\<close>

lemma fill_conserves:
  assumes "fill ok q rs = (q', rs', fs)"
  shows "unat q = unat q' + filled fs" "qty_sum rs = qty_sum rs' + filled fs"
proof -
  have "unat q = unat q' + filled fs \<and> qty_sum rs = qty_sum rs' + filled fs"
    using assms
  proof (induction ok q rs arbitrary: q' rs' fs rule: fill.induct)
    case (2 ok q r rs)
    show ?case
    proof (cases "q = 0 \<or> \<not> ok r \<or> q < o_quantity r")
      case True
      then show ?thesis using "2.prems"
        by (auto simp: unat_sub word_le_nat_alt word_less_nat_alt split: if_splits)
    next
      case False
      obtain q1 rs1 fs1 where f: "fill ok (q - o_quantity r) rs = (q1, rs1, fs1)" by (metis prod_cases3)
      have "unat (q - o_quantity r) = unat q - unat (o_quantity r)" "unat (o_quantity r) \<le> unat q"
        using False by (simp_all add: unat_sub word_le_nat_alt word_less_nat_alt)
      then show ?thesis using "2.prems" "2.IH" [OF _ _ f] False f by auto
    qed
  qed simp
  then show "unat q = unat q' + filled fs" "qty_sum rs = qty_sum rs' + filled fs" by auto
qed

text \<open>Priority: the fills take the resting orders in order from the front, each but the last one whole.\<close>

lemma fill_prefix:
  assumes "fill ok q rs = (q', rs', fs)"
  shows "\<exists>zs. rs = map fst fs @ zs \<and>
    (rs' = zs \<and> (\<forall>(r, a) \<in> set fs. a = o_quantity r) \<or>
     (\<exists>fs1 r a. fs = fs1 @ [(r, a)] \<and> a < o_quantity r \<and> (\<forall>(r, a) \<in> set fs1. a = o_quantity r) \<and>
        rs' = r\<lparr>o_quantity := o_quantity r - a\<rparr> # zs \<and> q' = 0))"
  using assms
proof (induction ok q rs arbitrary: q' rs' fs rule: fill.induct)
  case (2 ok q r rs)
  show ?case
  proof (cases "q = 0 \<or> \<not> ok r \<or> q < o_quantity r")
    case True
    then show ?thesis using "2.prems" by (auto split: if_splits)
  next
    case False
    obtain q1 rs1 fs1 where f: "fill ok (q - o_quantity r) rs = (q1, rs1, fs1)" by (metis prod_cases3)
    have e: "q' = q1" "rs' = rs1" "fs = (r, o_quantity r) # fs1" using "2.prems" False f by auto
    obtain zs where zs: "rs = map fst fs1 @ zs"
      "rs1 = zs \<and> (\<forall>(r, a) \<in> set fs1. a = o_quantity r) \<or>
       (\<exists>fs2 r a. fs1 = fs2 @ [(r, a)] \<and> a < o_quantity r \<and> (\<forall>(r, a) \<in> set fs2. a = o_quantity r) \<and>
        rs1 = r\<lparr>o_quantity := o_quantity r - a\<rparr> # zs \<and> q1 = 0)"
      using "2.IH" [OF _ _ f] False by auto
    from zs(2) show ?thesis
    proof
      assume "rs1 = zs \<and> (\<forall>(r, a) \<in> set fs1. a = o_quantity r)"
      then show ?thesis using e zs(1) by auto
    next
      assume "\<exists>fs2 r a. fs1 = fs2 @ [(r, a)] \<and> a < o_quantity r \<and> (\<forall>(r, a) \<in> set fs2. a = o_quantity r) \<and>
        rs1 = r\<lparr>o_quantity := o_quantity r - a\<rparr> # zs \<and> q1 = 0"
      then obtain fs2 r' a where "fs1 = fs2 @ [(r', a)]" "a < o_quantity r'" "\<forall>(r, a) \<in> set fs2. a = o_quantity r"
        "rs1 = r'\<lparr>o_quantity := o_quantity r' - a\<rparr> # zs" "q1 = 0" by blast
      then show ?thesis using e zs(1)
        by (intro exI [of _ zs] conjI disjI2 exI [of _ "(r, o_quantity r) # fs2"] exI [of _ r'] exI [of _ a]) auto
    qed
  qed
qed simp

text \<open>Only acceptable orders are filled, in positive quantities, and the fill stops for a reason.\<close>

lemma fill_accepts:
  assumes "fill ok q rs = (q', rs', fs)" "\<forall>r \<in> set rs. 0 < o_quantity r"
  shows "\<forall>(r, a) \<in> set fs. ok r \<and> r \<in> set rs \<and> 0 < a \<and> a \<le> o_quantity r"
  using assms
proof (induction ok q rs arbitrary: q' rs' fs rule: fill.induct)
  case (2 ok q r rs)
  show ?case
  proof (cases "q = 0 \<or> \<not> ok r \<or> q < o_quantity r")
    case True
    then show ?thesis using "2.prems" by (auto simp: word_neq_0_conv split: if_splits)
  next
    case False
    obtain q1 rs1 fs1 where f: "fill ok (q - o_quantity r) rs = (q1, rs1, fs1)" by (metis prod_cases3)
    then show ?thesis using "2.prems" "2.IH" [OF _ _ f] False by auto
  qed
qed simp

lemma fill_stops:
  assumes "fill ok q rs = (q', rs', fs)" "0 < q'"
  shows "rs' = [] \<or> \<not> ok (hd rs')"
  using assms
proof (induction ok q rs arbitrary: q' rs' fs rule: fill.induct)
  case (2 ok q r rs)
  show ?case
  proof (cases "q = 0 \<or> \<not> ok r \<or> q < o_quantity r")
    case True
    then show ?thesis using "2.prems" by (auto split: if_splits)
  next
    case False
    obtain q1 rs1 fs1 where f: "fill ok (q - o_quantity r) rs = (q1, rs1, fs1)" by (metis prod_cases3)
    then show ?thesis using "2.prems" "2.IH" [OF _ _ f] False by auto
  qed
qed simp

lemma fill_none: "fill ok q rs = (q, rs, []) \<longleftrightarrow> rs = [] \<or> q = 0 \<or> \<not> ok (hd rs)"
  by (cases rs) (auto split: prod.splits)

lemma fill_nth:
  assumes "fill ok q rs = (q', rs', fs)"
  shows "length fs \<le> length rs \<and> (\<forall>i < length fs. fst (fs ! i) = rs ! i \<and> snd (fs ! i) \<le> o_quantity (rs ! i) \<and>
      (Suc i < length fs \<longrightarrow> snd (fs ! i) = o_quantity (rs ! i)))"
  using assms
proof (induction ok q rs arbitrary: q' rs' fs rule: fill.induct)
  case (2 ok q r rs)
  show ?case
  proof (cases "q = 0 \<or> \<not> ok r \<or> q < o_quantity r")
    case True
    then show ?thesis using "2.prems" by (auto split: if_splits)
  next
    case False
    obtain q1 rs1 fs1 where f: "fill ok (q - o_quantity r) rs = (q1, rs1, fs1)" by (metis prod_cases3)
    have "fs = (r, o_quantity r) # fs1" using "2.prems" False f by auto
    then show ?thesis using "2.IH" [OF _ _ f] False by (auto simp: nth_Cons split: nat.splits)
  qed
qed simp

lemma fill_length: "fill ok q rs = (q', rs', fs) \<Longrightarrow> length rs' \<le> length rs"
  by (induction ok q rs arbitrary: q' rs' fs rule: fill.induct) (fastforce split: if_splits prod.splits)+

lemma fill_ids:
  assumes "fill ok q rs = (q', rs', fs)"
  shows "o_order_id ` set rs' \<subseteq> o_order_id ` set rs"
proof -
  obtain zs where "rs = map fst fs @ zs"
    "rs' = zs \<or> (\<exists>fs1 r a. fs = fs1 @ [(r, a)] \<and> rs' = r\<lparr>o_quantity := o_quantity r - a\<rparr> # zs)"
    using fill_prefix [OF assms] by blast
  then show ?thesis by auto
qed

end
