(* ===== verification/Match_Refine.thy ===== *)
theory Match_Refine
  imports Matching Price_Time
begin

text \<open>
  The matching engine refines the price-time specification. The four loops share one body up to the
  side they consume and the condition on the price; the locale \<open>matching_loop\<close> states that body and
  proves once that it computes \<open>fill\<close>. The loops of the engine are its interpretations.
\<close>

section \<open>Publishing the fills\<close>

definition trade_of :: "Order \<Rightarrow> u64 \<Rightarrow> Order \<times> u32 \<Rightarrow> Trade" where
  "trade_of order tid f = (case f of (r, q) \<Rightarrow>
     \<lparr>t_trade_id = tid, t_timestamp_ns = o_timestamp order, t_price = o_price r,
      t_buy_order_id = (if o_type order = BUY then o_client_order_id order else o_client_order_id r),
      t_sell_order_id = (if o_type order = BUY then o_client_order_id r else o_client_order_id order),
      t_symbol_id = o_symbol_id order, t_quantity = q\<rparr>)"

text \<open>The trades of a list of fills, numbered from \<open>tid\<close> on.\<close>

primrec trades_of :: "Order \<Rightarrow> u64 \<Rightarrow> (Order \<times> u32) list \<Rightarrow> Trade list" where
  "trades_of order tid [] = []"
| "trades_of order tid (f # fs) = trade_of order tid f # trades_of order (tid + 1) fs"

definition publish_fills :: "GroupProcessor \<Rightarrow> Order \<Rightarrow> (Order \<times> u32) list \<Rightarrow> GroupProcessor" where
  "publish_fills g order fs =
     (case publish_all (g_ring g, g_trade_buffer g) (trades_of order (g_next_trade_id g) fs) of (ring, tb) \<Rightarrow>
      g\<lparr>g_ring := ring, g_trade_buffer := tb, g_next_trade_id := g_next_trade_id g + of_nat (length fs),
        g_shared_ltp := (if fs = [] then g_shared_ltp g
          else (g_shared_ltp g)[unat (o_symbol_id order AND SYMBOL_MASK) := o_price (fst (last fs))])\<rparr>)"

definition side_trade :: "GroupProcessor \<Rightarrow> Order \<Rightarrow> u64 \<Rightarrow> u64 \<Rightarrow> u32 \<Rightarrow> GroupProcessor" where
  "side_trade g order price cid q = (if o_type order = BUY
     then execute_trade g order price (o_client_order_id order) cid q
     else execute_trade g order price cid (o_client_order_id order) q)"

lemma trades_of_cong [simp]: "trades_of (order\<lparr>o_quantity := q\<rparr>) tid fs = trades_of order tid fs"
  by (induction fs arbitrary: tid) (auto simp: trade_of_def split: prod.splits)

lemma length_trades_of [simp]: "length (trades_of order tid fs) = length fs"
  by (induction fs arbitrary: tid) auto

lemma publish_fills_Nil [simp]: "publish_fills g order [] = g"
  by (simp add: publish_fills_def)

lemma publish_fills_cong [simp]: "publish_fills g (order\<lparr>o_quantity := q\<rparr>) fs = publish_fills g order fs"
  by (simp add: publish_fills_def)

lemma publish_fills_Cons:
  "publish_fills (side_trade g order (o_price r) (o_client_order_id r) q) order fs = publish_fills g order ((r, q) # fs)"
proof -
  obtain ring tb where a: "add_trade (trade_of order (g_next_trade_id g) (r, q)) (g_ring g, g_trade_buffer g) = (ring, tb)"
    by fastforce
  have "side_trade g order (o_price r) (o_client_order_id r) q = g\<lparr>g_ring := ring, g_trade_buffer := tb,
      g_next_trade_id := g_next_trade_id g + 1,
      g_shared_ltp := (g_shared_ltp g)[unat (o_symbol_id order AND SYMBOL_MASK) := o_price r]\<rparr>"
    using a by (auto simp: side_trade_def execute_trade_def publish_trade_def trade_of_def Let_def)
  then show ?thesis
    using a by (auto simp: publish_fills_def add.assoc split: prod.splits)
qed

section \<open>The loop\<close>

lemma worse_opp: "worse (opp s) x y = worse s y x"
  by (cases s) auto

text \<open>The body of a loop, over the side it consumes, the condition on the price, and the recursive call.\<close>

definition matching_body :: "OrderType \<Rightarrow> (OrderBook \<Rightarrow> Order \<Rightarrow> u64 \<Rightarrow> bool) \<Rightarrow>
    (GroupProcessor \<Rightarrow> OrderBook \<Rightarrow> Order \<Rightarrow> u64 \<Rightarrow> (GroupProcessor \<times> OrderBook \<times> Order \<times> bool) option) \<Rightarrow>
    GroupProcessor \<Rightarrow> OrderBook \<Rightarrow> Order \<Rightarrow> u64 \<Rightarrow> (GroupProcessor \<times> OrderBook \<times> Order \<times> bool) option" where
  "matching_body s guard loop g book order p =
     (if o_quantity order > 0 \<and> total_of s book > 0 \<and> guard book order p then do {
        level \<leftarrow> getpricelevels book (priceToIndex book p);
        head \<leftarrow> gethead level (b_pool book);
        (if o_quantity (n_order head) > o_quantity order then do {
           (book1, _) \<leftarrow> modifyQuantity book p (o_quantity (n_order head) - o_quantity order);
           Some (side_trade g order p (o_client_order_id (n_order head)) (o_quantity order),
                 decrease_of s book1 (o_quantity order), order, True)
         }
         else do {
           (book1, _) \<leftarrow> remove_of s book p;
           (book2, p2) \<leftarrow> best_of s book1;
           loop (side_trade g order p (o_client_order_id (n_order head)) (o_quantity (n_order head)))
             book2 (order\<lparr>o_quantity := o_quantity order - o_quantity (n_order head)\<rparr>) p2
         })
      }
      else Some (g, book, order, False))"

locale matching_loop =
  fixes s :: OrderType
    and guard :: "OrderBook \<Rightarrow> Order \<Rightarrow> u64 \<Rightarrow> bool"
    and ok :: "Order \<Rightarrow> Order \<Rightarrow> bool"
    and loop :: "GroupProcessor \<Rightarrow> OrderBook \<Rightarrow> Order \<Rightarrow> u64 \<Rightarrow> (GroupProcessor \<times> OrderBook \<times> Order \<times> bool) option"
  assumes loop_body: "o_type order = opp s \<Longrightarrow> loop g book order p = matching_body s guard loop g book order p"
    and guard_head: "wf_book book \<Longrightarrow> resting book s = r # rs \<Longrightarrow> guard book order (o_price r) \<longleftrightarrow> ok order r"
    and ok_quantity: "ok (order\<lparr>o_quantity := q\<rparr>) = ok order"
begin

lemmas loop_unfold = loop_body [unfolded matching_body_def]

text \<open>
  The loop always ends, keeps the book well formed, leaves the other side alone, and computes \<open>fill\<close>.
  When it leaves by \<open>return\<close> the order is filled; otherwise the order carries what is left.
\<close>

lemma loop_fill:
  assumes "wf_book book" "o_type order = opp s" "fill (ok order) (o_quantity order) (resting book s) = (q, rs, fs)"
  shows "\<exists>book' order' ret. loop g book order (best_resting book s) = Some (publish_fills g order fs, book', order', ret) \<and>
    wf_book book' \<and> same_shape book book' \<and> resting book' s = rs \<and> resting book' (opp s) = resting book (opp s) \<and>
    (if ret then q = 0 else order' = order\<lparr>o_quantity := q\<rparr>)"
  using assms
proof (induction "resting book s" arbitrary: g book order q rs fs)
  case Nil
  then have "total_of s book = 0" using total_zero_iff(1) by metis
  then have "loop g book order (best_resting book s) = Some (g, book, order, False)"
    by (subst loop_unfold) (simp_all add: Nil)
  then show ?case using Nil by (auto simp: Nil.hyps [symmetric])
next
  case (Cons r rest)
  note r = Cons.hyps(2) [symmetric]
  have best: "best_resting book s = o_price r" by (simp add: best_resting_def r)
  have tot: "0 < total_of s book" 
    using total_zero_iff(1) [OF Cons.prems(1), of s] r by (simp add: word_neq_0_conv)
  have rpos: "0 < o_quantity r" using Cons.prems(1) r unfolding wf_book_def by (metis list.set_intros(1))
  obtain lvl n where lvl: "getpricelevels book (priceToIndex book (o_price r)) = Some lvl"
    "gethead lvl (b_pool book) = Some n" "n_order n = r"
    by (rule wf_head [OF Cons.prems(1) r])
  note guard = guard_head [OF Cons.prems(1) r, of order]
  note unfold = loop_unfold [OF Cons.prems(2), of g book "o_price r"]
  show ?case
  proof (cases "o_quantity order = 0 \<or> \<not> ok order r")
    case True
    then have "loop g book order (o_price r) = Some (g, book, order, False)"
      by (subst unfold) (auto simp: guard)
    then show ?thesis using True Cons.prems best r by auto
  next
    case False
    then have go: "o_quantity order > 0 \<and> total_of s book > 0 \<and> guard book order (o_price r)"
      using tot guard by (simp add: word_neq_0_conv)
    show ?thesis
    proof (cases "o_quantity order < o_quantity r")
      case True
      obtain b1 where b1: "modifyQuantity book (o_price r) (o_quantity r - o_quantity order) = Some (b1, True)"
        "wf_book (decrease_of s b1 (o_quantity order))"
        "resting (decrease_of s b1 (o_quantity order)) s = r\<lparr>o_quantity := o_quantity r - o_quantity order\<rparr> # rest"
        "resting (decrease_of s b1 (o_quantity order)) (opp s) = resting book (opp s)"
        "same_shape book (decrease_of s b1 (o_quantity order))"
        by (rule wf_modify [OF Cons.prems(1) r, of "o_quantity order"]) (use go True in auto)
      have "loop g book order (o_price r) =
          Some (publish_fills g order [(r, o_quantity order)], decrease_of s b1 (o_quantity order), order, True)"
        by (subst unfold) (use go True lvl b1 publish_fills_Cons [of g order r "o_quantity order" "[]"] in simp)
      then show ?thesis using True False Cons.prems best r b1 by auto
    next
      case part: False
      obtain b1 b2 where b: "remove_of s book (o_price r) = Some (b1, True)" "best_of s b1 = Some (b2, best_resting b2 s)"
        "wf_book b2" "resting b2 s = rest" "resting b2 (opp s) = resting book (opp s)" "same_shape book b2"
        by (rule wf_remove_best [OF Cons.prems(1) r])
      let ?o = "order\<lparr>o_quantity := o_quantity order - o_quantity r\<rparr>"
      let ?g = "side_trade g order (o_price r) (o_client_order_id r) (o_quantity r)"
      obtain fs1 where f: "fill (ok ?o) (o_quantity ?o) (resting b2 s) = (q, rs, fs1)" "fs = (r, o_quantity r) # fs1"
        using Cons.prems(3) r False part by (auto simp: ok_quantity b(4) split: prod.splits)
      have "loop g book order (o_price r) = loop ?g b2 ?o (best_resting b2 s)"
        by (subst unfold) (use go part lvl b in simp)
      moreover have "publish_fills ?g ?o fs1 = publish_fills g order fs"
        using publish_fills_Cons [of g order r "o_quantity r" fs1] f(2) by simp
      moreover obtain book' order' ret where "loop ?g b2 ?o (best_resting b2 s) = Some (publish_fills ?g ?o fs1, book', order', ret)"
        "wf_book book'" and sb: "same_shape b2 book'" and "resting book' s = rs" "resting book' (opp s) = resting b2 (opp s)"
        and ret: "if ret then q = 0 else order' = ?o\<lparr>o_quantity := q\<rparr>"
        using Cons.hyps(1) [OF b(4) [symmetric] b(3) _ f(1), of ?g] Cons.prems(2) by auto
      moreover have "if ret then q = 0 else order' = order\<lparr>o_quantity := q\<rparr>" using ret by simp
      ultimately show ?thesis
        using best b(5) same_shape_trans [OF b(6) sb]
        by (intro exI [of _ book'] exI [of _ order'] exI [of _ ret]) simp
    qed
  qed
qed

end

lemma side_totals:
  "getTotalSellQty b = total_of SELL b" "getTotalBuyQty b = total_of BUY b"
  "addBuyOrder = add_of BUY" "addSellOrder = add_of SELL"
  "removeSellOrder = remove_of SELL" "removeBuyOrder = remove_of BUY"
  "bestsellprice = best_of SELL" "bestbuyprice = best_of BUY"
  "decreaseTotalSellQty = decrease_of SELL" "decreaseTotalBuyQty = decrease_of BUY"
  by (simp_all add: getTotalSellQty_def getTotalBuyQty_def)

lemma head_valid: "wf_book b \<Longrightarrow> resting b s = r # rs \<Longrightarrow> isPriceValid b (o_price r)"
  using resting_order(2) book_invD(1) unfolding wf_book_def by (metis list.set_intros(1))


interpretation limit_buy: matching_loop SELL "\<lambda>_ order p. p \<le> o_price order"
  "\<lambda>order r. o_price r \<le> o_price order" buy_loop
  by unfold_locales (subst buy_loop.simps, simp_all add: matching_body_def side_trade_def getTotalSellQty_def cong: if_cong)

interpretation limit_sell: matching_loop BUY "\<lambda>_ order p. p \<ge> o_price order"
  "\<lambda>order r. o_price r \<ge> o_price order" sell_loop
  by unfold_locales (subst sell_loop.simps, simp_all add: matching_body_def side_trade_def getTotalBuyQty_def cong: if_cong)

interpretation market_buy: matching_loop SELL "\<lambda>book _ p. isPriceValid book p" "\<lambda>_ _. True" market_buy_loop
  by unfold_locales (subst market_buy_loop.simps,
    simp_all add: matching_body_def side_trade_def getTotalSellQty_def head_valid cong: if_cong)

interpretation market_sell: matching_loop BUY "\<lambda>book _ p. isPriceValid book p" "\<lambda>_ _. True" market_sell_loop
  by unfold_locales (subst market_sell_loop.simps,
    simp_all add: matching_body_def side_trade_def getTotalBuyQty_def head_valid cong: if_cong)


section \<open>The handlers\<close>

lemma side_fun_eqI: "f s = h s \<Longrightarrow> f (opp s) = h (opp s) \<Longrightarrow> f = h"
  by (rule ext) (metis side_exhaust)

lemma wf_book_view: "wf_book b \<Longrightarrow> \<exists>qs fs. book_view b qs fs"
  unfolding wf_book_def using book_invD(1) by blast

text \<open>When the best resting order is not acceptable none is: the list is sorted by price.\<close>

lemma none_acceptable:
  assumes "wf_book b" "resting b s = [] \<or> worse s (o_price (hd (resting b s))) p"
  shows "\<forall>y \<in> set (resting b s). worse (opp s) p (o_price y)"
proof (cases "resting b s")
  case (Cons r rs)
  then have "\<forall>y \<in> set rs. \<not> worse s (o_price r) (o_price y)"
    using resting_sorted [of b _ _ s] wf_book_view [OF assms(1)] by auto
  then show ?thesis using Cons assms(2) by (cases s) auto
qed simp

lemma add_refines:
  assumes wf: "wf_book b" and pv: "isPriceValid b (o_price order)" and q: "0 < o_quantity order"
    and fresh: "\<forall>t. o_order_id order \<notin> o_order_id ` set (resting b t)" and ty: "o_type order = opp s"
    and stop: "resting b s = [] \<or> worse s (o_price (hd (resting b s))) (o_price order)"
  obtains b' c where "add_of (opp s) b order = Some (b', c)" "wf_book b'" "same_shape b b'"
    "resting b' = add_spec (book_capacity b) order (resting b)"
proof (cases "length (resting b BUY) + length (resting b SELL) < book_capacity b")
  case True
  have "\<forall>y \<in> set (resting b (opp (opp s))). worse (opp s) (o_price order) (o_price y)"
    using none_acceptable [OF wf stop] by simp
  then obtain b' where b': "add_of (opp s) b order = Some (b', True)" "wf_book b'" "same_shape b b'"
    "resting b' (opp s) = insert_resting (opp s) order (resting b (opp s))"
    "resting b' (opp (opp s)) = resting b (opp (opp s))"
    by (rule wf_add [OF wf ty pv fresh q _ True])
  have "resting b' = add_spec (book_capacity b) order (resting b)"
    by (rule side_fun_eqI [of _ s]) (use b' True ty in \<open>auto simp: add_spec_def\<close>)
  then show thesis using that b' by blast
next
  case False
  have "length (resting b BUY) + length (resting b SELL) = book_capacity b"
    using False wf_book_view [OF wf] resting_count(1) [of b] by force
  then have "add_of (opp s) b order = Some (b, False)" by (rule wf_add_full [OF wf pv])
  then show thesis using that [of b False] wf False by (auto simp: add_spec_def)
qed

locale limit_handler = matching_loop +
  fixes body :: "Order \<Rightarrow> GroupProcessor \<Rightarrow> OrderBook \<Rightarrow> (GroupProcessor \<times> OrderBook) option"
  assumes body_unfold: "o_type order = opp s \<Longrightarrow> body order g book =
     (if total_of s book = 0 then do { (book1, _) \<leftarrow> add_of (opp s) book order; Some (g, book1) }
      else do {
        (book1, best) \<leftarrow> best_of s book;
        if worse s best (o_price order) then do { (book2, _) \<leftarrow> add_of (opp s) book1 order; Some (g, book2) }
        else do {
          (book2, p) \<leftarrow> best_of s book1;
          (g3, book3, order3, returned) \<leftarrow> loop g book2 order p;
          if \<not> returned \<and> o_quantity order3 > 0
          then do { (book4, _) \<leftarrow> add_of (opp s) book3 order3; Some (g3, book4) }
          else Some (g3, book3)
        }
      })"
    and ok_price: "ok order r \<longleftrightarrow> \<not> worse s (o_price r) (o_price order)"
begin

lemma body_early:
  assumes wf: "wf_book book" and ty: "o_type order = opp s"
    and stop: "resting book s = [] \<or> worse s (o_price (hd (resting book s))) (o_price order)"
    and a: "add_of (opp s) book order = Some (book', c)"
  shows "body order g book = Some (g, book')"
proof (cases "resting book s")
  case Nil
  then show ?thesis using a total_zero_iff(1) [OF wf, of s] by (simp add: body_unfold [OF ty])
next
  case (Cons r rs)
  then show ?thesis
    using a stop total_zero_iff(1) [OF wf, of s] wf_best [OF wf, of s]
    by (simp add: body_unfold [OF ty] best_resting_def)
qed

lemma body_loop:
  assumes wf: "wf_book book" and ty: "o_type order = opp s" and r: "resting book s = r # rs" "ok order r"
  shows "body order g book = do {
     (g3, book3, order3, returned) \<leftarrow> loop g book order (best_resting book s);
     if \<not> returned \<and> o_quantity order3 > 0
     then do { (book4, _) \<leftarrow> add_of (opp s) book3 order3; Some (g3, book4) }
     else Some (g3, book3) }"
  using r ok_price [of order r] total_zero_iff(1) [OF wf, of s] wf_best [OF wf, of s]
  by (simp add: body_unfold [OF ty] best_resting_def)

lemma body_refines:
  assumes wf: "wf_book book" and ty: "o_type order = opp s" and ex: "o_execution_type order \<noteq> MARKET"
    and pv: "isPriceValid book (o_price order)" and qp: "0 < o_quantity order"
    and fresh: "\<forall>t. o_order_id order \<notin> o_order_id ` set (resting book t)"
  shows "\<exists>book'. body order g book = Some
      (publish_fills g order (snd (match_spec (book_capacity book) (isPriceValid book) order (resting book))), book') \<and>
    wf_book book' \<and> same_shape book book' \<and>
    resting book' = fst (match_spec (book_capacity book) (isPriceValid book) order (resting book))"
proof -
  have acc: "accepts order = ok order" using ex ty by (auto simp: accepts_def ok_price fun_eq_iff)
  obtain q rs fs where f: "fill (ok order) (o_quantity order) (resting book s) = (q, rs, fs)" by (metis prod_cases3)
  have spec: "match_spec (book_capacity book) (isPriceValid book) order (resting book) =
      (if 0 < q then add_spec (book_capacity book) (order\<lparr>o_quantity := q\<rparr>) ((resting book)(s := rs))
       else (resting book)(s := rs), fs)"
    using ex pv ty f by (simp add: match_spec_def acc)
  show ?thesis
  proof (cases "resting book s = [] \<or> \<not> ok order (hd (resting book s))")
    case True
    then have fe: "fill (ok order) (o_quantity order) (resting book s) = (o_quantity order, resting book s, [])"
      unfolding fill_none by blast
    have stop: "resting book s = [] \<or> worse s (o_price (hd (resting book s))) (o_price order)"
      using True by (auto simp: ok_price)
    obtain b' c where b': "add_of (opp s) book order = Some (b', c)" "wf_book b'" "same_shape book b'"
      "resting b' = add_spec (book_capacity book) order (resting book)"
      by (rule add_refines [OF wf pv qp fresh ty stop])
    have e: "q = o_quantity order" "rs = resting book s" "fs = []" using f fe by auto
    have "order\<lparr>o_quantity := o_quantity order\<rparr> = order" by (cases order) simp
    then show ?thesis using b' body_early [OF wf ty stop b'(1)] qp by (simp add: spec e)
  next
    case False
    then obtain r rest where r: "resting book s = r # rest" "ok order r" by (cases "resting book s") auto
    obtain b1 o1 ret where b1: "loop g book order (best_resting book s) = Some (publish_fills g order fs, b1, o1, ret)"
      "wf_book b1" "same_shape book b1" "resting b1 s = rs" "resting b1 (opp s) = resting book (opp s)"
      "if ret then q = 0 else o1 = order\<lparr>o_quantity := q\<rparr>"
      using loop_fill [OF wf ty f, of g] by blast
    have res: "resting b1 = (resting book)(s := rs)" by (rule side_fun_eqI [of _ s]) (use b1 in auto)
    show ?thesis
    proof (cases "0 < q")
      case False
      then have "\<not> (\<not> ret \<and> o_quantity o1 > 0)" using b1(6) by (cases ret) auto
      then have "body order g book = Some (publish_fills g order fs, b1)"
        using b1(1) body_loop [OF wf ty r, of g] by auto
      then show ?thesis using False b1(2,3) res by (simp add: spec)
    next
      case True
      let ?o = "order\<lparr>o_quantity := q\<rparr>"
      have o1: "\<not> ret" "o1 = ?o" using b1(6) True by (cases ret; simp)+
      have stop: "resting b1 s = [] \<or> worse s (o_price (hd (resting b1 s))) (o_price ?o)"
        using fill_stops [OF f True] b1(4) by (auto simp: ok_price)
      have fr: "\<forall>t. o_order_id ?o \<notin> o_order_id ` set (resting b1 t)"
      proof
        fix t
        have "o_order_id ` set (resting b1 t) \<subseteq> o_order_id ` set (resting book t)"
          using fill_ids [OF f] by (simp add: res)
        then show "o_order_id ?o \<notin> o_order_id ` set (resting b1 t)" using fresh by auto
      qed
      have "isPriceValid b1 (o_price ?o)" using pv same_shape_valid [OF b1(3)] by simp
      then obtain b' c where b': "add_of (opp s) b1 ?o = Some (b', c)" "wf_book b'" "same_shape b1 b'"
        "resting b' = add_spec (book_capacity b1) ?o (resting b1)"
        using add_refines [OF b1(2) _ _ fr _ stop] True ty by auto
      have cap: "book_capacity b1 = book_capacity book" using b1(3) by (simp add: same_shape_def)
      show ?thesis
        using True b1(1) o1 b' res cap same_shape_trans [OF b1(3) b'(3)] body_loop [OF wf ty r, of g]
        by (simp add: spec)
    qed
  qed
qed

end

interpretation buy_handler: limit_handler SELL "\<lambda>_ order p. p \<le> o_price order"
  "\<lambda>order r. o_price r \<le> o_price order" buy_loop buy_body
  by unfold_locales (auto simp: buy_body_def getTotalSellQty_def cong: if_cong)

interpretation sell_handler: limit_handler BUY "\<lambda>_ order p. p \<ge> o_price order"
  "\<lambda>order r. o_price r \<ge> o_price order" sell_loop sell_body
  by unfold_locales (auto simp: sell_body_def getTotalBuyQty_def cong: if_cong)


locale market_handler = matching_loop +
  fixes body :: "Order \<Rightarrow> GroupProcessor \<Rightarrow> OrderBook \<Rightarrow> (GroupProcessor \<times> OrderBook) option"
  assumes body_unfold: "body order g book =
     (if total_of s book = 0 then Some (g, book)
      else do {
        (book1, p) \<leftarrow> best_of s book;
        (g2, book2, _, _) \<leftarrow> loop g book1 order p;
        Some (g2, book2)
      })"
    and ok_all: "ok order r"
begin

lemma body_refines:
  assumes wf: "wf_book book" and ty: "o_type order = opp s" and ex: "o_execution_type order = MARKET"
  shows "\<exists>book'. body order g book = Some
      (publish_fills g order (snd (match_spec (book_capacity book) (isPriceValid book) order (resting book))), book') \<and>
    wf_book book' \<and> same_shape book book' \<and>
    resting book' = fst (match_spec (book_capacity book) (isPriceValid book) order (resting book))"
proof -
  have acc: "accepts order = ok order" using ex by (auto simp: accepts_def ok_all fun_eq_iff)
  obtain q rs fs where f: "fill (ok order) (o_quantity order) (resting book s) = (q, rs, fs)" by (metis prod_cases3)
  have spec: "match_spec (book_capacity book) (isPriceValid book) order (resting book) = ((resting book)(s := rs), fs)"
    using ex ty f by (simp add: match_spec_def acc)
  obtain b1 o1 ret where b1: "loop g book order (best_resting book s) = Some (publish_fills g order fs, b1, o1, ret)"
    "wf_book b1" "same_shape book b1" "resting b1 s = rs" "resting b1 (opp s) = resting book (opp s)"
    using loop_fill [OF wf ty f, of g] by blast
  have res: "resting b1 = (resting book)(s := rs)" by (rule side_fun_eqI [of _ s]) (use b1 in auto)
  show ?thesis
  proof (cases "resting book s = []")
    case True
    then have "rs = []" "fs = []" using f by auto
    moreover have "body order g book = Some (g, book)"
      using True total_zero_iff(1) [OF wf, of s] by (simp add: body_unfold)
    moreover have "(resting book)(s := []) = resting book" using True by (metis fun_upd_triv)
    ultimately show ?thesis using wf by (simp add: spec)
  next
    case False
    then have "body order g book = Some (publish_fills g order fs, b1)"
      using b1(1) total_zero_iff(1) [OF wf, of s] wf_best [OF wf, of s] by (simp add: body_unfold)
    then show ?thesis using b1(2,3) res by (simp add: spec)
  qed
qed

end

interpretation market_buy_handler: market_handler SELL "\<lambda>book _ p. isPriceValid book p" "\<lambda>_ _. True"
  market_buy_loop market_buy_body
  by unfold_locales (auto simp: market_buy_body_def getTotalSellQty_def cong: if_cong)

interpretation market_sell_handler: market_handler BUY "\<lambda>book _ p. isPriceValid book p" "\<lambda>_ _. True"
  market_sell_loop market_sell_body
  by unfold_locales (auto simp: market_sell_body_def getTotalBuyQty_def cong: if_cong)

section \<open>The group\<close>

text \<open>The state of an initialised group: every masked symbol has a well-formed book.\<close>

definition wf_group :: "GroupProcessor \<Rightarrow> bool" where
  "wf_group g \<longleftrightarrow> (\<exists>m. g_bookmanager g = Some m \<and> bm_max_books m = MAX_SYMBOLS \<and>
     length (bm_books m) = MAX_SYMBOLS \<and> (\<forall>i < MAX_SYMBOLS. \<exists>b. bm_books m ! i = Some b \<and> wf_book b))"

definition group_book :: "GroupProcessor \<Rightarrow> u32 \<Rightarrow> OrderBook" where
  "group_book g symbol_id = the (bm_books (the (g_bookmanager g)) ! unat (symbol_id AND SYMBOL_MASK))"

text \<open>What the group does with an order, on the abstract book of the order's symbol.\<close>

definition group_spec :: "GroupProcessor \<Rightarrow> Order \<Rightarrow> (OrderType \<Rightarrow> Order list) \<times> (Order \<times> u32) list" where
  "group_spec g order = (let book = group_book g (o_symbol_id order) in
     match_spec (book_capacity book) (isPriceValid book) order (resting book))"

text \<open>Orders the engine may receive: limit orders carry a positive quantity and a new id.\<close>

definition order_ok :: "GroupProcessor \<Rightarrow> Order \<Rightarrow> bool" where
  "order_ok g order \<longleftrightarrow> o_execution_type order = MARKET \<or> 0 < o_quantity order \<and>
     (\<forall>t. o_order_id order \<notin> o_order_id ` set (resting (group_book g (o_symbol_id order)) t))"

lemma wf_groupD:
  assumes "wf_group g"
  obtains m where "g_bookmanager g = Some m" "bm_max_books m = MAX_SYMBOLS" "length (bm_books m) = MAX_SYMBOLS"
    "\<And>sid. bm_get m (sid AND SYMBOL_MASK) = Inr (group_book g sid)" "\<And>sid. wf_book (group_book g sid)"
proof -
  obtain m where m: "g_bookmanager g = Some m" "bm_max_books m = MAX_SYMBOLS" "length (bm_books m) = MAX_SYMBOLS"
    "\<forall>i < MAX_SYMBOLS. \<exists>b. bm_books m ! i = Some b \<and> wf_book b"
    using assms by (auto simp: wf_group_def)
  have "\<exists>b. bm_books m ! unat (sid AND SYMBOL_MASK) = Some b \<and> wf_book b" for sid
    using m(4) masked_symbol_bound by blast
  then have "bm_books m ! unat (sid AND SYMBOL_MASK) = Some (group_book g sid) \<and> wf_book (group_book g sid)" for sid
    by (metis group_book_def m(1) option.sel)
  then show thesis using that m masked_symbol_bound by (simp add: bm_get_def not_le [symmetric])
qed

lemma publish_fills_manager [simp]: "g_bookmanager (publish_fills g order fs) = g_bookmanager g"
  by (simp add: publish_fills_def split: prod.splits)

text \<open>The state after an order: the fills are published and the symbol's book is replaced.\<close>

definition group_after :: "GroupProcessor \<Rightarrow> Order \<Rightarrow> (Order \<times> u32) list \<Rightarrow> OrderBook \<Rightarrow> GroupProcessor" where
  "group_after g order fs book = (publish_fills g order fs)
     \<lparr>g_bookmanager := Some (bm_put (the (g_bookmanager g)) (o_symbol_id order AND SYMBOL_MASK) book)\<rparr>"

lemma wf_group_after:
  assumes wf: "wf_group g" and b: "wf_book book"
  shows "wf_group (group_after g order fs book)"
    "group_book (group_after g order fs book) sid =
      (if sid AND SYMBOL_MASK = o_symbol_id order AND SYMBOL_MASK then book else group_book g sid)"
proof -
  obtain m where m: "g_bookmanager g = Some m" "bm_max_books m = MAX_SYMBOLS" "length (bm_books m) = MAX_SYMBOLS"
    by (rule wf_groupD [OF wf])
  have w: "\<exists>b. bm_books m ! i = Some b \<and> wf_book b" if "i < MAX_SYMBOLS" for i
    using wf m(1) that by (auto simp: wf_group_def)
  let ?m = "bm_put m (o_symbol_id order AND SYMBOL_MASK) book"
  show "wf_group (group_after g order fs book)"
    unfolding wf_group_def
  proof (intro exI [of _ ?m] conjI allI impI)
    show "g_bookmanager (group_after g order fs book) = Some ?m" by (simp add: group_after_def m)
    show "bm_max_books ?m = MAX_SYMBOLS" "length (bm_books ?m) = MAX_SYMBOLS" by (simp_all add: bm_put_def m)
    fix i assume "i < MAX_SYMBOLS"
    then show "\<exists>b. bm_books ?m ! i = Some b \<and> wf_book b"
      using w b m(3) by (cases "i = unat (o_symbol_id order AND SYMBOL_MASK)") (simp_all add: bm_put_def)
  qed
  show "group_book (group_after g order fs book) sid =
      (if sid AND SYMBOL_MASK = o_symbol_id order AND SYMBOL_MASK then book else group_book g sid)"
    using m masked_symbol_bound [of "o_symbol_id order"]
    by (auto simp: group_book_def group_after_def bm_put_def nth_list_update)
qed

lemma process_order_simulation:
  assumes wf: "wf_group g" and ok: "order_ok g order"
  obtains book' where "process_order g order = Some (Inr (group_after g order (snd (group_spec g order)) book'))"
    "wf_book book'" "same_shape (group_book g (o_symbol_id order)) book'" "resting book' = fst (group_spec g order)"
proof -
  obtain m where m: "g_bookmanager g = Some m" "bm_max_books m = MAX_SYMBOLS" "length (bm_books m) = MAX_SYMBOLS"
    and get: "\<And>sid. bm_get m (sid AND SYMBOL_MASK) = Inr (group_book g sid)"
    and wfb: "\<And>sid. wf_book (group_book g sid)"
    by (rule wf_groupD [OF wf]) blast
  let ?b = "group_book g (o_symbol_id order)"
  have wb: "\<exists>book'. with_book g order f = Some (Inr (group_after g order (snd (group_spec g order)) book')) \<and>
      wf_book book' \<and> same_shape ?b book' \<and> resting book' = fst (group_spec g order)"
    if "\<exists>book'. f g ?b = Some (publish_fills g order (snd (match_spec (book_capacity ?b) (isPriceValid ?b) order (resting ?b))), book') \<and>
      wf_book book' \<and> same_shape ?b book' \<and> resting book' = fst (match_spec (book_capacity ?b) (isPriceValid ?b) order (resting ?b))" for f
    using that m(1) get by (auto simp: with_book_def group_spec_def group_after_def Let_def)
  have "\<exists>book'. process_order g order = Some (Inr (group_after g order (snd (group_spec g order)) book')) \<and>
      wf_book book' \<and> same_shape ?b book' \<and> resting book' = fst (group_spec g order)"
  proof (cases "o_execution_type order = MARKET")
    case True
    show ?thesis
    proof (cases "o_type order")
      case BUY
      then show ?thesis
        using wb [of "market_buy_body order", OF market_buy_handler.body_refines [OF wfb _ True]] m(1) get True
        by (simp add: process_order_def process_market_buy_def)
    next
      case SELL
      then show ?thesis
        using wb [of "market_sell_body order", OF market_sell_handler.body_refines [OF wfb _ True]] m(1) get True
        by (simp add: process_order_def process_market_sell_def)
    qed
  next
    case lim: False
    show ?thesis
    proof (cases "isPriceValid ?b (o_price order)")
      case False
      then have "group_spec g order = (resting ?b, [])" using lim by (simp add: group_spec_def match_spec_def)
      moreover have "group_after g order [] ?b = g"
      proof -
        have "bm_books m ! unat (o_symbol_id order AND SYMBOL_MASK) = Some ?b"
          using get [of "o_symbol_id order"] by (auto simp: bm_get_def split: if_splits option.splits)
        then have "(bm_books m)[unat (o_symbol_id order AND SYMBOL_MASK) := Some ?b] = bm_books m"
          by (metis list_update_id)
        then have "bm_put m (o_symbol_id order AND SYMBOL_MASK) ?b = m" by (simp add: bm_put_def)
        then show ?thesis using m(1) by (cases g) (simp add: group_after_def)
      qed
      ultimately show ?thesis
        using m(1) get lim False wfb by (intro exI [of _ ?b]) (simp add: process_order_def)
    next
      case True
      have qf: "0 < o_quantity order" "\<forall>t. o_order_id order \<notin> o_order_id ` set (resting ?b t)"
        using ok lim by (auto simp: order_ok_def)
      show ?thesis
      proof (cases "o_type order")
        case BUY
        then show ?thesis
          using wb [of "buy_body order", OF buy_handler.body_refines [OF wfb _ lim True qf]] m(1) get lim True
          by (simp add: process_order_def process_buy_def)
      next
        case SELL
        then show ?thesis
          using wb [of "sell_body order", OF sell_handler.body_refines [OF wfb _ lim True qf]] m(1) get lim True
          by (simp add: process_order_def process_sell_def)
      qed
    qed
  qed
  then show thesis using that by blast
qed

end
