(* ===== verification/Engine_Run.thy ===== *)
theory Engine_Run
  imports Match_Refine
begin

text \<open>
  What the refinement gives for the engine: runs over sequences of orders, the trades an order causes,
  and the state it leaves, with a small concrete group on which the properties are exercised.
\<close>

section \<open>Trades of an order\<close>

text \<open>The trades that processing an order publishes, read off the specification.\<close>

definition order_trades :: "GroupProcessor \<Rightarrow> Order \<Rightarrow> Trade list" where
  "order_trades g order = trades_of order (g_next_trade_id g) (snd (group_spec g order))"

lemma trades_of_nth:
  "i < length fs \<Longrightarrow> trades_of order tid fs ! i = trade_of order (tid + of_nat i) (fs ! i)"
proof (induction fs arbitrary: tid i)
  case (Cons f fs)
  then show ?case by (cases i) (simp_all add: algebra_simps)
qed simp

lemma trades_of_quantity: "(\<Sum>t\<leftarrow>trades_of order tid fs. unat (t_quantity t)) = filled fs"
  by (induction fs arbitrary: tid) (auto simp: trade_of_def)

lemma group_after_simps [simp]:
  "g_ring (group_after g order fs b) = g_ring (publish_fills g order fs)"
  "g_trade_buffer (group_after g order fs b) = g_trade_buffer (publish_fills g order fs)"
  "g_next_trade_id (group_after g order fs b) = g_next_trade_id (publish_fills g order fs)"
  "g_shared_ltp (group_after g order fs b) = g_shared_ltp (publish_fills g order fs)"
  "g_group_queue (group_after g order fs b) = g_group_queue (publish_fills g order fs)"
  "g_terminate_flag (group_after g order fs b) = g_terminate_flag (publish_fills g order fs)"
  by (simp_all add: group_after_def)

lemma publish_fills_simps [simp]:
  "(g_ring (publish_fills g order fs), g_trade_buffer (publish_fills g order fs)) =
     publish_all (g_ring g, g_trade_buffer g) (trades_of order (g_next_trade_id g) fs)"
  "g_next_trade_id (publish_fills g order fs) = g_next_trade_id g + of_nat (length fs)"
  "g_shared_ltp (publish_fills g order fs) = (if fs = [] then g_shared_ltp g
     else (g_shared_ltp g)[unat (o_symbol_id order AND SYMBOL_MASK) := o_price (fst (last fs))])"
  "g_group_queue (publish_fills g order fs) = g_group_queue g"
  "g_terminate_flag (publish_fills g order fs) = g_terminate_flag g"
  by (simp_all add: publish_fills_def split: prod.splits)

text \<open>The state after an order in one step.\<close>

lemma process_order_result:
  assumes "wf_group g" "order_ok g order" "process_order g order = Some (Inr g')"
  obtains book' where "g' = group_after g order (snd (group_spec g order)) book'" "wf_book book'" "wf_group g'"
    "resting book' = fst (group_spec g order)" "book' = group_book g' (o_symbol_id order)"
    "same_shape (group_book g (o_symbol_id order)) book'"
proof -
  obtain book' where b: "process_order g order = Some (Inr (group_after g order (snd (group_spec g order)) book'))"
    "wf_book book'" "same_shape (group_book g (o_symbol_id order)) book'" "resting book' = fst (group_spec g order)"
    by (rule process_order_simulation [OF assms(1,2)])
  then show thesis
    using assms(3) wf_group_after [OF assms(1) b(2), of order "snd (group_spec g order)"] by (intro that [of book']) auto
qed

section \<open>Sequences of orders\<close>

fun process_orders :: "GroupProcessor \<Rightarrow> Order list \<Rightarrow> (engine_exn + GroupProcessor) option" where
  "process_orders g [] = Some (Inr g)"
| "process_orders g (order # orders) = (case process_order g order of
     None \<Rightarrow> None
   | Some (Inl e) \<Rightarrow> Some (Inl e)
   | Some (Inr g1) \<Rightarrow> process_orders g1 orders)"

definition known_order_ids :: "GroupProcessor \<Rightarrow> u64 set" where
  "known_order_ids g = {oid. \<exists>sid s. oid \<in> o_order_id ` set (resting (group_book g sid) s)}"

lemma match_spec_ids:
  "o_order_id ` set (fst (match_spec cap valid order rest) s) \<subseteq>
     insert (o_order_id order) (\<Union>t. o_order_id ` set (rest t))"
proof (cases "o_execution_type order \<noteq> MARKET \<and> \<not> valid (o_price order)")
  case True
  then show ?thesis by (auto simp: match_spec_def)
next
  case False
  obtain q rs fs where f: "fill (accepts order) (o_quantity order) (rest (opp (o_type order))) = (q, rs, fs)"
    by (metis prod_cases3)
  define R where "R = rest(opp (o_type order) := rs)"
  have "o_order_id ` set (R s) \<subseteq> o_order_id ` set (rest s)"
    using fill_ids [OF f] by (simp add: R_def)
  then have R: "o_order_id ` set (R s) \<subseteq> (\<Union>t. o_order_id ` set (rest t))" by blast
  have "fst (match_spec cap valid order rest) = (if 0 < q \<and> o_execution_type order \<noteq> MARKET
      then add_spec cap (order\<lparr>o_quantity := q\<rparr>) R else R)"
    using False f by (auto simp: match_spec_def R_def)
  moreover have "o_order_id ` set (add_spec cap (order\<lparr>o_quantity := q\<rparr>) R s) \<subseteq> insert (o_order_id order) (o_order_id ` set (R s))"
    by (auto simp: add_spec_def)
  ultimately have "o_order_id ` set (fst (match_spec cap valid order rest) s) \<subseteq> insert (o_order_id order) (o_order_id ` set (R s))"
    by auto
  then show ?thesis using R by blast
qed

lemma process_order_ids:
  assumes "wf_group g" "order_ok g order" "process_order g order = Some (Inr g')"
  shows "known_order_ids g' \<subseteq> insert (o_order_id order) (known_order_ids g)"
proof
  fix oid assume "oid \<in> known_order_ids g'"
  then obtain sid s where o: "oid \<in> o_order_id ` set (resting (group_book g' sid) s)"
    by (auto simp: known_order_ids_def)
  obtain book' where b: "g' = group_after g order (snd (group_spec g order)) book'" "wf_book book'"
    "resting book' = fst (group_spec g order)"
    by (rule process_order_result [OF assms])
  show "oid \<in> insert (o_order_id order) (known_order_ids g)"
  proof (cases "sid AND SYMBOL_MASK = o_symbol_id order AND SYMBOL_MASK")
    case True
    then have "oid \<in> o_order_id ` set (fst (group_spec g order) s)"
      using o b wf_group_after(2) [OF assms(1) b(2)] by simp
    then show ?thesis
      using match_spec_ids unfolding group_spec_def Let_def known_order_ids_def by blast
  next
    case False
    then have "oid \<in> o_order_id ` set (resting (group_book g sid) s)"
      using o b wf_group_after(2) [OF assms(1) b(2)] by simp
    then show ?thesis unfolding known_order_ids_def by blast
  qed
qed

text \<open>
  Orders with new, distinct ids and positive quantities: every one of them is processed to the end.
\<close>

definition orders_ok :: "GroupProcessor \<Rightarrow> Order list \<Rightarrow> bool" where
  "orders_ok g orders \<longleftrightarrow> distinct (map o_order_id orders) \<and>
     (\<forall>order \<in> set orders. 0 < o_quantity order \<and> o_order_id order \<notin> known_order_ids g)"

lemma order_okI: "0 < o_quantity order \<Longrightarrow> o_order_id order \<notin> known_order_ids g \<Longrightarrow> order_ok g order"
  by (auto simp: order_ok_def known_order_ids_def)

text \<open>The resting lists of all symbols, and their run under the specification (the shape of the books is fixed).\<close>

definition group_abs :: "GroupProcessor \<Rightarrow> u32 \<Rightarrow> OrderType \<Rightarrow> Order list" where
  "group_abs g sid = resting (group_book g sid)"

definition spec_step :: "GroupProcessor \<Rightarrow> Order \<Rightarrow> (u32 \<Rightarrow> OrderType \<Rightarrow> Order list) \<Rightarrow> (u32 \<Rightarrow> OrderType \<Rightarrow> Order list)" where
  "spec_step g order A = (\<lambda>sid. if sid AND SYMBOL_MASK = o_symbol_id order AND SYMBOL_MASK
     then fst (match_spec (book_capacity (group_book g sid)) (isPriceValid (group_book g sid)) order (A sid))
     else A sid)"

definition same_shapes :: "GroupProcessor \<Rightarrow> GroupProcessor \<Rightarrow> bool" where
  "same_shapes g g' \<longleftrightarrow> (\<forall>sid. same_shape (group_book g sid) (group_book g' sid))"

lemma same_shapes_refl [simp]: "same_shapes g g"
  by (simp add: same_shapes_def)

lemma spec_step_cong: "same_shapes g g' \<Longrightarrow> spec_step g' order = spec_step g order"
  using same_shape_valid unfolding same_shapes_def same_shape_def spec_step_def by (intro ext) metis

lemma group_book_masked: "sid AND SYMBOL_MASK = sid' AND SYMBOL_MASK \<Longrightarrow> group_book g sid = group_book g sid'"
  by (simp add: group_book_def)

lemma process_order_abs:
  assumes "wf_group g" "order_ok g order"
  obtains g' where "process_order g order = Some (Inr g')" "wf_group g'"
    "group_abs g' = spec_step g order (group_abs g)" "same_shapes g g'" "g_group_queue g' = g_group_queue g"
    "g_terminate_flag g' = g_terminate_flag g"
proof -
  obtain b where p: "process_order g order = Some (Inr (group_after g order (snd (group_spec g order)) b))" "wf_book b"
    "same_shape (group_book g (o_symbol_id order)) b" "resting b = fst (group_spec g order)"
    by (rule process_order_simulation [OF assms])
  let ?g = "group_after g order (snd (group_spec g order)) b"
  note w = wf_group_after [OF assms(1) p(2), of order "snd (group_spec g order)"]
  have "group_abs ?g = spec_step g order (group_abs g)"
  proof
    fix sid
    show "group_abs ?g sid = spec_step g order (group_abs g) sid"
      using w(2) [of sid] p(4) group_book_masked [of sid "o_symbol_id order" g]
      by (simp add: group_abs_def spec_step_def group_spec_def Let_def)
  qed
  moreover have "same_shapes g ?g"
    unfolding same_shapes_def
  proof
    fix sid
    show "same_shape (group_book g sid) (group_book ?g sid)"
      using w(2) [of sid] p(3) group_book_masked [of sid "o_symbol_id order" g] by simp
  qed
  ultimately show thesis using that p(1) w(1) by simp
qed

lemma orders_ok_Cons:
  assumes "wf_group g" "orders_ok g (order # orders)" "process_order g order = Some (Inr g')"
  shows "order_ok g order" "orders_ok g' orders"
proof -
  show ok: "order_ok g order" using assms(2) by (auto simp: orders_ok_def intro: order_okI)
  show "orders_ok g' orders"
    unfolding orders_ok_def
  proof (intro conjI ballI)
    show "distinct (map o_order_id orders)" using assms(2) by (simp add: orders_ok_def)
    fix x assume x: "x \<in> set orders"
    then show "0 < o_quantity x" using assms(2) by (simp add: orders_ok_def)
    have "o_order_id x \<in> o_order_id ` set orders" using x by (rule imageI)
    moreover have "o_order_id order \<notin> o_order_id ` set orders" using assms(2) by (simp add: orders_ok_def)
    ultimately have "o_order_id x \<noteq> o_order_id order" by metis
    moreover have "o_order_id x \<notin> known_order_ids g" using x assms(2) by (simp add: orders_ok_def)
    ultimately show "o_order_id x \<notin> known_order_ids g'" using process_order_ids [OF assms(1) ok assms(3)] by blast
  qed
qed

lemma fold_spec_cong: "same_shapes g g' \<Longrightarrow> fold (spec_step g') orders A = fold (spec_step g) orders A"
  by (simp add: spec_step_cong cong: fold_cong)

lemma process_orders_total:
  assumes "wf_group g" "orders_ok g orders"
  shows "\<exists>g'. process_orders g orders = Some (Inr g') \<and> wf_group g' \<and> group_abs g' = fold (spec_step g) orders (group_abs g)"
  using assms
proof (induction orders arbitrary: g)
  case (Cons order orders)
  have ok: "order_ok g order" using Cons.prems(2) by (auto simp: orders_ok_def intro: order_okI)
  obtain g1 where g1: "process_order g order = Some (Inr g1)" "wf_group g1"
    "group_abs g1 = spec_step g order (group_abs g)" "same_shapes g g1"
    by (rule process_order_abs [OF Cons.prems(1) ok])
  then show ?case
    using Cons.IH [OF g1(2) orders_ok_Cons(2) [OF Cons.prems g1(1)]] fold_spec_cong [OF g1(4)] by simp
qed simp

text \<open>The group thread works off its queue.\<close>

fun group_steps :: "nat \<Rightarrow> GroupProcessor \<Rightarrow> (engine_exn + GroupProcessor) option" where
  "group_steps 0 g = Some (Inr g)"
| "group_steps (Suc n) g = (case group_step g of
     None \<Rightarrow> None
   | Some (Inl e) \<Rightarrow> Some (Inl e)
   | Some (Inr g1) \<Rightarrow> group_steps n g1)"

lemma group_queue_indep:
  "wf_group (g\<lparr>g_group_queue := q\<rparr>) = wf_group g" "group_book (g\<lparr>g_group_queue := q\<rparr>) = group_book g"
  "group_abs (g\<lparr>g_group_queue := q\<rparr>) = group_abs g" "order_ok (g\<lparr>g_group_queue := q\<rparr>) = order_ok g"
  "spec_step (g\<lparr>g_group_queue := q\<rparr>) = spec_step g" "orders_ok (g\<lparr>g_group_queue := q\<rparr>) = orders_ok g"
  "same_shapes (g\<lparr>g_group_queue := q\<rparr>) = same_shapes g"
  by (simp_all add: wf_group_def group_book_def group_abs_def order_ok_def spec_step_def orders_ok_def
      known_order_ids_def same_shapes_def fun_eq_iff)

lemma group_steps_drain:
  assumes "wf_group g" "rb_inv (g_group_queue g)" "rb_contents (g_group_queue g) = orders" "\<not> g_terminate_flag g"
    "orders_ok g orders"
  shows "\<exists>g'. group_steps (length orders) g = Some (Inr g') \<and> wf_group g' \<and> rb_contents (g_group_queue g') = [] \<and>
    group_abs g' = fold (spec_step g) orders (group_abs g)"
  using assms
proof (induction orders arbitrary: g)
  case (Cons order orders)
  obtain q where q: "RingBuffer_pop (g_group_queue g) = Some (q, Some order)" "rb_inv q" "rb_contents q = orders"
    using rb.pop_front [OF Cons.prems(2,3)] by blast
  let ?g = "g\<lparr>g_group_queue := q\<rparr>"
  have wf: "wf_group ?g" and oks: "orders_ok ?g (order # orders)"
    using Cons.prems by (simp_all add: group_queue_indep)
  have ok: "order_ok ?g order" using oks by (auto simp: orders_ok_def intro: order_okI)
  obtain g1 where g1: "process_order ?g order = Some (Inr g1)" "wf_group g1"
    "group_abs g1 = spec_step ?g order (group_abs ?g)" "same_shapes ?g g1" "g_group_queue g1 = g_group_queue ?g"
    "g_terminate_flag g1 = g_terminate_flag ?g"
    by (rule process_order_abs [OF wf ok])
  have "group_step g = Some (Inr g1)" using q g1 Cons.prems(4) by (simp add: group_step_def)
  moreover have "same_shapes g g1" using g1(4) by (simp add: group_queue_indep)
  ultimately show ?case
    using Cons.IH [OF g1(2)] orders_ok_Cons(2) [OF wf oks g1(1)] q g1 Cons.prems(4)
    by (simp add: group_queue_indep fold_spec_cong)
qed simp

section \<open>A concrete group\<close>

definition demo_node :: OrderNode where
  "demo_node = \<lparr>n_order = \<lparr>o_order_id = 0, o_execution_type = LIMIT, o_price = 0, o_timestamp = 0, o_trader_id = 0,
     o_type = BUY, o_symbol_id = 0, o_quantity = 0, o_client_order_id = 0\<rparr>, n_next = 0, n_back = 0\<rparr>"

definition demo_book :: OrderBook where
  "demo_book = (case OrderBook_new (Some (replicate 4 demo_node)) 0 0 10 12 of Some (Inr b) \<Rightarrow> b)"

definition demo_group :: GroupProcessor where
  "demo_group = (GroupProcessor_new (n_order demo_node) 0 1024 zero_ring (replicate MAX_SYMBOLS 0))
     \<lparr>g_bookmanager := Some \<lparr>bm_books = replicate MAX_SYMBOLS (Some demo_book), bm_max_books = MAX_SYMBOLS\<rparr>\<rparr>"

definition demo_order :: "u64 \<Rightarrow> OrderExecutionType \<Rightarrow> OrderType \<Rightarrow> u64 \<Rightarrow> u32 \<Rightarrow> Order" where
  "demo_order oid ex ty price qty = \<lparr>o_order_id = oid, o_execution_type = ex, o_price = price, o_timestamp = oid,
     o_trader_id = 7, o_type = ty, o_symbol_id = 5, o_quantity = qty, o_client_order_id = oid\<rparr>"

lemma demo_book_wf:
  "OrderBook_new (Some (replicate 4 demo_node)) 0 0 10 12 = Some (Inr demo_book)" "wf_book demo_book"
  "resting demo_book s = []" "book_capacity demo_book = 4" "isPriceValid demo_book p \<longleftrightarrow> 10 \<le> p \<and> p \<le> 12"
proof -
  obtain b where b: "OrderBook_new (Some (replicate 4 demo_node)) 0 0 10 12 = Some (Inr b)" "wf_book b"
    "\<And>s. resting b s = []" "book_capacity b = length (replicate 4 demo_node)" "b_lower_limit b = 10" "b_upper_limit b = 12"
    by (rule wf_new [of "replicate 4 demo_node" 10 12]) auto
  then have "demo_book = b" by (simp add: demo_book_def)
  with b show "OrderBook_new (Some (replicate 4 demo_node)) 0 0 10 12 = Some (Inr demo_book)" "wf_book demo_book"
    "resting demo_book s = []" "book_capacity demo_book = 4" "isPriceValid demo_book p \<longleftrightarrow> 10 \<le> p \<and> p \<le> 12"
    by (simp_all add: isPriceValid_def)
qed

lemma demo_group_wf: "wf_group demo_group" "group_book demo_group sid = demo_book"
  using demo_book_wf(2) masked_symbol_bound [of sid]
  by (simp_all add: wf_group_def demo_group_def group_book_def)

lemma demo_known: "known_order_ids demo_group = {}"
  by (simp add: known_order_ids_def demo_group_wf demo_book_wf)


lemma demo_ok: "0 < qty \<Longrightarrow> order_ok demo_group (demo_order oid ex ty price qty)"
  by (rule order_okI) (simp_all add: demo_known demo_order_def)

lemma demo_order_simps [simp]:
  "o_order_id (demo_order oid ex ty price qty) = oid" "o_execution_type (demo_order oid ex ty price qty) = ex"
  "o_type (demo_order oid ex ty price qty) = ty" "o_price (demo_order oid ex ty price qty) = price"
  "o_quantity (demo_order oid ex ty price qty) = qty" "o_symbol_id (demo_order oid ex ty price qty) = 5"
  by (simp_all add: demo_order_def)

text \<open>The demo group after a sell order of ten at price 11.\<close>

definition demo_sell :: Order where "demo_sell = demo_order 1 LIMIT SELL 11 10"

lemma demo_sell_simps [simp]:
  "o_order_id demo_sell = 1" "o_execution_type demo_sell = LIMIT" "o_type demo_sell = SELL" "o_price demo_sell = 11"
  "o_quantity demo_sell = 10" "o_symbol_id demo_sell = 5" "o_client_order_id demo_sell = 1"
  "demo_sell\<lparr>o_quantity := 10\<rparr> = demo_sell"
  by (simp_all add: demo_sell_def demo_order_def)

definition demo_group1 :: GroupProcessor where
  "demo_group1 = (case process_order demo_group demo_sell of Some (Inr g) \<Rightarrow> g)"

lemma demo_spec1: "group_spec demo_group demo_sell = ((\<lambda>_. [])(SELL := [demo_sell]), [])"
proof -
  have "resting demo_book = (\<lambda>_. [])" by (rule ext) (rule demo_book_wf(3))
  moreover have "(\<lambda>_. [])(BUY := []) = (\<lambda>_. [] :: Order list)" by auto
  ultimately show ?thesis
    by (simp add: group_spec_def match_spec_def demo_group_wf demo_book_wf add_spec_def insert_resting_def)
qed

lemma demo_group1_wf:
  "process_order demo_group demo_sell = Some (Inr demo_group1)" "wf_group demo_group1"
  "resting (group_book demo_group1 5) = (\<lambda>_. [])(SELL := [demo_sell])"
  "same_shape demo_book (group_book demo_group1 5)" "g_next_trade_id demo_group1 = 1"
  "g_shared_ltp demo_group1 = replicate MAX_SYMBOLS 0"
proof -
  have ok: "order_ok demo_group demo_sell" unfolding demo_sell_def by (rule demo_ok) simp
  obtain b where "process_order demo_group demo_sell = Some (Inr (group_after demo_group demo_sell (snd (group_spec demo_group demo_sell)) b))"
    by (rule process_order_simulation [OF demo_group_wf(1) ok])
  then show p: "process_order demo_group demo_sell = Some (Inr demo_group1)" by (simp add: demo_group1_def)
  have sid: "o_symbol_id demo_sell = 5" by (simp add: demo_sell_def)
  obtain b' where b': "demo_group1 = group_after demo_group demo_sell (snd (group_spec demo_group demo_sell)) b'" "wf_book b'" "wf_group demo_group1"
    "resting b' = fst (group_spec demo_group demo_sell)" "b' = group_book demo_group1 (o_symbol_id demo_sell)"
    "same_shape (group_book demo_group (o_symbol_id demo_sell)) b'"
    by (rule process_order_result [OF demo_group_wf(1) ok p])
  then show "wf_group demo_group1" "resting (group_book demo_group1 5) = (\<lambda>_. [])(SELL := [demo_sell])"
    "same_shape demo_book (group_book demo_group1 5)"
    by (simp_all add: sid demo_spec1 demo_group_wf)
  show "g_next_trade_id demo_group1 = 1" "g_shared_ltp demo_group1 = replicate MAX_SYMBOLS 0"
    unfolding b'(1) demo_spec1 by (simp_all add: demo_group_def GroupProcessor_new_def)
qed

text \<open>A second order on the demo group, of a positive quantity and with a new id.\<close>

lemma demo_ok1: "0 < qty \<Longrightarrow> oid \<noteq> 1 \<Longrightarrow> order_ok demo_group1 (demo_order oid ex ty price qty)"
  by (auto simp: order_ok_def demo_group1_wf)

lemma demo_spec2:
  "group_spec demo_group1 (demo_order 2 LIMIT BUY 12 4)
     = ((\<lambda>_. [])(SELL := [demo_sell\<lparr>o_quantity := 6\<rparr>]), [(demo_sell, 4)])"
  using demo_group1_wf(3) same_shape_valid [OF demo_group1_wf(4)] demo_book_wf(5)
  by (simp add: group_spec_def match_spec_def accepts_def)

lemma demo_trades2:
  "order_trades demo_group1 (demo_order 2 LIMIT BUY 12 4) =
    [\<lparr>t_trade_id = 1, t_timestamp_ns = 2, t_price = 11, t_buy_order_id = 2, t_sell_order_id = 1,
      t_symbol_id = 5, t_quantity = 4\<rparr>]"
  by (simp add: order_trades_def demo_spec2 demo_group1_wf trade_of_def) (simp add: demo_order_def)

lemma demo_run2:
  obtains g' where "process_order demo_group1 (demo_order 2 LIMIT BUY 12 4) = Some (Inr g')"
proof -
  have "order_ok demo_group1 (demo_order 2 LIMIT BUY 12 4)" by (rule demo_ok1) simp_all
  then show thesis using process_order_simulation [OF demo_group1_wf(2)] that by blast
qed


lemma demo_after2:
  obtains g' where "process_order demo_group1 (demo_order 2 LIMIT BUY 12 4) = Some (Inr g')"
    "order_ok demo_group1 (demo_order 2 LIMIT BUY 12 4)"
  using demo_run2 demo_ok1 [of 4 2] by auto

section \<open>Properties of the matching engine\<close>

lemma published:
  assumes "wf_group g" "order_ok g order" "process_order g order = Some (Inr g')"
  shows "(g_ring g', g_trade_buffer g') = publish_all (g_ring g, g_trade_buffer g) (order_trades g order)"
proof -
  obtain b where "g' = group_after g order (snd (group_spec g order)) b" by (rule process_order_result [OF assms])
  then show ?thesis by (simp only: group_after_simps publish_fills_simps order_trades_def)
qed

lemma group_spec_cases:
  obtains (rejected) "o_execution_type order \<noteq> MARKET" "\<not> isPriceValid (group_book g (o_symbol_id order)) (o_price order)"
    "group_spec g order = (resting (group_book g (o_symbol_id order)), [])"
  | (matched) q rs fs where "o_execution_type order = MARKET \<or> isPriceValid (group_book g (o_symbol_id order)) (o_price order)"
    "fill (accepts order) (o_quantity order) (resting (group_book g (o_symbol_id order)) (opp (o_type order))) = (q, rs, fs)"
    "snd (group_spec g order) = fs" "fst (group_spec g order) (opp (o_type order)) = rs"
    "fst (group_spec g order) (o_type order) =
      (if 0 < q \<and> o_execution_type order \<noteq> MARKET \<and>
          length (resting (group_book g (o_symbol_id order)) (o_type order)) + length rs < book_capacity (group_book g (o_symbol_id order))
       then insert_resting (o_type order) (order\<lparr>o_quantity := q\<rparr>) (resting (group_book g (o_symbol_id order)) (o_type order))
       else resting (group_book g (o_symbol_id order)) (o_type order))"
proof (cases "o_execution_type order \<noteq> MARKET \<and> \<not> isPriceValid (group_book g (o_symbol_id order)) (o_price order)")
  case True
  then show thesis using rejected by (simp add: group_spec_def match_spec_def)
next
  case False
  let ?b = "group_book g (o_symbol_id order)"
  obtain q rs fs where f: "fill (accepts order) (o_quantity order) (resting ?b (opp (o_type order))) = (q, rs, fs)"
    by (metis prod_cases3)
  have len: "length (((resting ?b)(opp (o_type order) := rs)) BUY) + length (((resting ?b)(opp (o_type order) := rs)) SELL)
      = length (resting ?b (o_type order)) + length rs"
    by (cases "o_type order") auto
  show thesis
    by (rule matched [OF _ f]) (use False f len in \<open>auto simp: group_spec_def match_spec_def Let_def add_spec_def\<close>)
qed

text \<open>
  C1. Matching refines the price-time specification: on a well-formed group, processing an order always
  ends without leaving an array or throwing, keeps every book well formed, changes the resting lists
  of the order's symbol as \<open>match_spec\<close> says, publishes exactly the trades of the fills, and leaves the books of
  the other symbols alone.
\<close>

theorem process_order_refines:
  assumes "wf_group g" "order_ok g order"
  shows "\<exists>g'. process_order g order = Some (Inr g') \<and> wf_group g' \<and>
    resting (group_book g' (o_symbol_id order)) = fst (group_spec g order) \<and>
    (g_ring g', g_trade_buffer g') = publish_all (g_ring g, g_trade_buffer g) (order_trades g order) \<and>
    (\<forall>sid. sid AND SYMBOL_MASK \<noteq> o_symbol_id order AND SYMBOL_MASK \<longrightarrow> group_book g' sid = group_book g sid)"
proof -
  obtain b where p: "process_order g order = Some (Inr (group_after g order (snd (group_spec g order)) b))" "wf_book b"
    "resting b = fst (group_spec g order)"
    by (rule process_order_simulation [OF assms])
  then show ?thesis
    using wf_group_after [OF assms(1) p(2)]
    by (intro exI [of _ "group_after g order (snd (group_spec g order)) b"]) (auto simp: order_trades_def)
qed

theorem process_order_refines_witness:
  "\<exists>g'. process_order demo_group1 (demo_order 2 LIMIT BUY 12 4) = Some (Inr g') \<and>
    resting (group_book g' 5) SELL = [demo_sell\<lparr>o_quantity := 6\<rparr>] \<and> resting (group_book g' 5) BUY = []"
proof -
  have "order_ok demo_group1 (demo_order 2 LIMIT BUY 12 4)" by (rule demo_ok1) simp_all
  from process_order_refines [OF demo_group1_wf(2) this] show ?thesis by (auto simp: demo_spec2)
qed

text \<open>
  C2. Every sequence of orders with positive quantities and new, distinct ids is processed to its end, as the
  specification says for each order in turn: no order is lost in an endless loop, an
  out-of-bounds access or an exception, and the books stay well formed.
\<close>

theorem process_orders_refines:
  assumes "wf_group g" "orders_ok g orders"
  shows "\<exists>g'. process_orders g orders = Some (Inr g') \<and> wf_group g' \<and>
    group_abs g' = fold (spec_step g) orders (group_abs g)"
  by (rule process_orders_total [OF assms])

theorem process_orders_refines_witness:
  "\<exists>g'. process_orders demo_group [demo_order 1 LIMIT SELL 11 10, demo_order 2 LIMIT BUY 12 4, demo_order 3 MARKET BUY 0 9]
     = Some (Inr g') \<and> wf_group g'"
proof -
  have "orders_ok demo_group [demo_order 1 LIMIT SELL 11 10, demo_order 2 LIMIT BUY 12 4, demo_order 3 MARKET BUY 0 9]"
    by (simp add: orders_ok_def demo_known)
  from process_orders_refines [OF demo_group_wf(1) this] show ?thesis by blast
qed

text \<open>
  C13. The group thread works off its queue: as many passes of its loop as there are queued orders
  leave the queue empty and every order processed in the order it was enqueued.
\<close>

theorem group_thread_drains:
  assumes "wf_group g" "rb_inv (g_group_queue g)" "rb_contents (g_group_queue g) = orders" "\<not> g_terminate_flag g"
    "orders_ok g orders"
  shows "\<exists>g'. group_steps (length orders) g = Some (Inr g') \<and> wf_group g' \<and> rb_contents (g_group_queue g') = [] \<and>
    group_abs g' = fold (spec_step g) orders (group_abs g)"
  by (rule group_steps_drain [OF assms])

theorem group_thread_drains_witness:
  "\<exists>g g'. enqueue_order demo_group demo_sell = Some (g, True) \<and> group_steps 1 g = Some (Inr g') \<and>
     rb_contents (g_group_queue g') = [] \<and> group_abs g' 5 SELL = [demo_sell]"
proof -
  have "pow2_part 1024 = 1024" by code_simp
  then have inv: "rb_inv (g_group_queue demo_group)" "rb_contents (g_group_queue demo_group) = []" "rb_room (g_group_queue demo_group) = 1023"
    using rb_inv_new [of 1024 "n_order demo_node"] by (simp_all add: demo_group_def GroupProcessor_new_def)
  obtain q where q: "RingBuffer_push (g_group_queue demo_group) demo_sell = Some (q, True)" "rb_inv q" "rb_contents q = [demo_sell]"
    using rb.push_accept [OF inv(1), of demo_sell] inv(2,3) by auto
  let ?g = "demo_group\<lparr>g_group_queue := q\<rparr>"
  have "orders_ok ?g [demo_sell]" by (simp add: group_queue_indep) (simp add: orders_ok_def demo_known)
  moreover have "wf_group ?g" "\<not> g_terminate_flag ?g"
    by (simp_all add: group_queue_indep demo_group_wf) (simp add: demo_group_def GroupProcessor_new_def)
  ultimately obtain g' where "group_steps (length [demo_sell]) ?g = Some (Inr g')" "rb_contents (g_group_queue g') = []"
    "group_abs g' = fold (spec_step ?g) [demo_sell] (group_abs ?g)"
    using group_thread_drains [of ?g "[demo_sell]"] q by auto
  moreover have "enqueue_order demo_group demo_sell = Some (?g, True)" by (simp add: enqueue_order_def q)
  moreover have "fst (group_spec demo_group demo_sell) SELL = [demo_sell]" by (simp add: demo_spec1)
  ultimately show ?thesis
    by (intro exI [of _ ?g] exI [of _ g'])
      (simp add: group_queue_indep spec_step_def group_spec_def group_abs_def demo_group_wf)
qed

text \<open>
  C9. Price-time priority: the trades of an order hit the resting orders of the other side in order
  from the best price and the earliest arrival on, each at the resting order's own price and with its
  client as counterparty; all but the last fill a resting order completely.
\<close>

theorem price_time_priority:
  assumes "wf_group g" "order_ok g order" "process_order g order = Some (Inr g')"
    "rs = resting (group_book g (o_symbol_id order)) (opp (o_type order))"
  shows "\<exists>ts. (g_ring g', g_trade_buffer g') = publish_all (g_ring g, g_trade_buffer g) ts \<and>
    length ts \<le> length rs \<and> (\<forall>i < length ts. t_price (ts ! i) = o_price (rs ! i) \<and>
      (case o_type order of BUY \<Rightarrow> t_sell_order_id (ts ! i) | SELL \<Rightarrow> t_buy_order_id (ts ! i)) = o_client_order_id (rs ! i) \<and>
      t_trade_id (ts ! i) = g_next_trade_id g + of_nat i \<and>
      t_quantity (ts ! i) \<le> o_quantity (rs ! i) \<and> (Suc i < length ts \<longrightarrow> t_quantity (ts ! i) = o_quantity (rs ! i)))"
proof (intro exI [of _ "order_trades g order"] conjI)
  let ?fs = "snd (group_spec g order)"
  show "(g_ring g', g_trade_buffer g') = publish_all (g_ring g, g_trade_buffer g) (order_trades g order)"
    by (rule published [OF assms(1-3)])
  have pre: "length ?fs \<le> length rs \<and> (\<forall>i < length ?fs. fst (?fs ! i) = rs ! i \<and> snd (?fs ! i) \<le> o_quantity (rs ! i) \<and>
      (Suc i < length ?fs \<longrightarrow> snd (?fs ! i) = o_quantity (rs ! i)))"
  proof (cases rule: group_spec_cases [of order g])
    case (matched q rs' fs)
    then show ?thesis using fill_nth [OF matched(2)] assms(4) by simp
  qed simp
  then show "length (order_trades g order) \<le> length rs" by (simp add: order_trades_def)
  show "\<forall>i < length (order_trades g order). t_price (order_trades g order ! i) = o_price (rs ! i) \<and>
      (case o_type order of BUY \<Rightarrow> t_sell_order_id (order_trades g order ! i)
        | SELL \<Rightarrow> t_buy_order_id (order_trades g order ! i)) = o_client_order_id (rs ! i) \<and>
      t_trade_id (order_trades g order ! i) = g_next_trade_id g + of_nat i \<and>
      t_quantity (order_trades g order ! i) \<le> o_quantity (rs ! i) \<and>
      (Suc i < length (order_trades g order) \<longrightarrow> t_quantity (order_trades g order ! i) = o_quantity (rs ! i))"
    using pre by (auto simp: order_trades_def trades_of_nth trade_of_def split: prod.splits OrderType.splits)
qed


theorem price_time_priority_witness:
  "\<exists>g' ts. process_order demo_group1 (demo_order 2 LIMIT BUY 12 4) = Some (Inr g') \<and>
    (g_ring g', g_trade_buffer g') = publish_all (g_ring demo_group1, g_trade_buffer demo_group1) ts \<and> length ts \<le> 1"
proof -
  obtain g' where p: "process_order demo_group1 (demo_order 2 LIMIT BUY 12 4) = Some (Inr g')"
    and ok: "order_ok demo_group1 (demo_order 2 LIMIT BUY 12 4)" by (rule demo_after2)
  show ?thesis using p price_time_priority [OF demo_group1_wf(2) ok p refl] by (auto simp: demo_group1_wf)
qed

text \<open>
  C10. Quantities are conserved: what the trades of an order exchange leaves the other side's total, is at
  most the order's quantity, and what is left of a limit order with a valid price is added to its own side's total as
  long as the node pool has room.
\<close>

theorem trade_conservation:
  assumes "wf_group g" "order_ok g order" "process_order g order = Some (Inr g')"
    "b = group_book g (o_symbol_id order)" "b' = group_book g' (o_symbol_id order)"
  shows "\<exists>ts. (g_ring g', g_trade_buffer g') = publish_all (g_ring g, g_trade_buffer g) ts \<and>
    unat (total_of (opp (o_type order)) b) = unat (total_of (opp (o_type order)) b') + (\<Sum>t\<leftarrow>ts. unat (t_quantity t)) \<and>
    (\<Sum>t\<leftarrow>ts. unat (t_quantity t)) \<le> unat (o_quantity order) \<and>
    (o_execution_type order \<noteq> MARKET \<and> isPriceValid b (o_price order) \<and>
       length (resting b BUY) + length (resting b SELL) < book_capacity b \<longrightarrow>
     unat (total_of (o_type order) b') + (\<Sum>t\<leftarrow>ts. unat (t_quantity t)) = unat (total_of (o_type order) b) + unat (o_quantity order))"
proof (intro exI [of _ "order_trades g order"] conjI)
  let ?t = "o_type order"
  show "(g_ring g', g_trade_buffer g') = publish_all (g_ring g, g_trade_buffer g) (order_trades g order)"
    by (rule published [OF assms(1-3)])
  have sum: "(\<Sum>t\<leftarrow>order_trades g order. unat (t_quantity t)) = filled (snd (group_spec g order))"
    by (simp add: order_trades_def trades_of_quantity)
  have wf: "wf_book b" using assms(4) wf_groupD [OF assms(1)] by blast
  have wf': "wf_book b'" and res: "resting b' = fst (group_spec g order)"
    by (rule process_order_result [OF assms(1-3)], use assms(5) in simp)+
  note tot = total_zero_iff(2) [OF wf] total_zero_iff(2) [OF wf']
  have "qty_sum (resting b (opp ?t)) = qty_sum (resting b' (opp ?t)) + filled (snd (group_spec g order)) \<and>
    filled (snd (group_spec g order)) \<le> unat (o_quantity order) \<and>
    (o_execution_type order \<noteq> MARKET \<and> isPriceValid b (o_price order) \<and>
       length (resting b BUY) + length (resting b SELL) < book_capacity b \<longrightarrow>
     qty_sum (resting b' ?t) + filled (snd (group_spec g order)) = qty_sum (resting b ?t) + unat (o_quantity order))"
  proof (cases rule: group_spec_cases [of order g])
    case rejected
    then show ?thesis using assms(4) by (simp add: res)
  next
    case (matched q rs fs)
    note c = fill_conserves [OF matched(2)]
    have "length rs \<le> length (resting b (opp ?t))" using fill_length [OF matched(2)] assms(4) by simp
    moreover have "length (resting b ?t) + length (resting b (opp ?t)) = length (resting b BUY) + length (resting b SELL)"
      by (cases ?t) auto
    moreover have "q = 0 \<Longrightarrow> unat q = 0" by simp
    ultimately show ?thesis
      using c matched(3-5) assms(4) by (auto simp: res word_neq_0_conv [symmetric])
  qed
  then show "unat (total_of (opp ?t) b) = unat (total_of (opp ?t) b') + (\<Sum>t\<leftarrow>order_trades g order. unat (t_quantity t))"
    "(\<Sum>t\<leftarrow>order_trades g order. unat (t_quantity t)) \<le> unat (o_quantity order)"
    "o_execution_type order \<noteq> MARKET \<and> isPriceValid b (o_price order) \<and>
       length (resting b BUY) + length (resting b SELL) < book_capacity b \<longrightarrow>
     unat (total_of ?t b') + (\<Sum>t\<leftarrow>order_trades g order. unat (t_quantity t)) = unat (total_of ?t b) + unat (o_quantity order)"
    by (simp_all only: sum tot) blast+
qed

theorem trade_conservation_witness:
  "\<exists>g' ts. process_order demo_group1 (demo_order 2 LIMIT BUY 12 4) = Some (Inr g') \<and>
    (g_ring g', g_trade_buffer g') = publish_all (g_ring demo_group1, g_trade_buffer demo_group1) ts \<and>
    (\<Sum>t\<leftarrow>ts. unat (t_quantity t)) \<le> 4"
proof -
  obtain g' where p: "process_order demo_group1 (demo_order 2 LIMIT BUY 12 4) = Some (Inr g')"
    and ok: "order_ok demo_group1 (demo_order 2 LIMIT BUY 12 4)" by (rule demo_after2)
  show ?thesis using p trade_conservation [OF demo_group1_wf(2) ok p refl refl] by auto
qed

text \<open>
  C12. Limit protection: a limit order trades only at prices at least as good as its limit, every trade
  has a positive quantity and the symbol and time stamp of the order, and its own client on its own side.
\<close>

theorem limit_protection:
  assumes "wf_group g" "order_ok g order" "process_order g order = Some (Inr g')"
  shows "\<exists>ts. (g_ring g', g_trade_buffer g') = publish_all (g_ring g, g_trade_buffer g) ts \<and>
    (\<forall>t \<in> set ts. 0 < t_quantity t \<and> t_symbol_id t = o_symbol_id order \<and> t_timestamp_ns t = o_timestamp order \<and>
      (case o_type order of
         BUY \<Rightarrow> t_buy_order_id t = o_client_order_id order \<and> (o_execution_type order \<noteq> MARKET \<longrightarrow> t_price t \<le> o_price order)
       | SELL \<Rightarrow> t_sell_order_id t = o_client_order_id order \<and> (o_execution_type order \<noteq> MARKET \<longrightarrow> t_price t \<ge> o_price order)))"
proof (intro exI [of _ "order_trades g order"] conjI ballI)
  show "(g_ring g', g_trade_buffer g') = publish_all (g_ring g, g_trade_buffer g) (order_trades g order)"
    by (rule published [OF assms])
  fix t assume "t \<in> set (order_trades g order)"
  then obtain i where i: "i < length (snd (group_spec g order))"
    and t: "t = trade_of order (g_next_trade_id g + of_nat i) (snd (group_spec g order) ! i)"
    by (auto simp: order_trades_def in_set_conv_nth trades_of_nth)
  let ?f = "snd (group_spec g order) ! i"
  have f: "accepts order (fst ?f) \<and> 0 < snd ?f"
  proof (cases rule: group_spec_cases [of order g])
    case rejected
    then show ?thesis using i by simp
  next
    case (matched q rs fs)
    have "wf_book (group_book g (o_symbol_id order))" using wf_groupD [OF assms(1)] by blast
    then have pos: "\<forall>r \<in> set (resting (group_book g (o_symbol_id order)) (opp (o_type order))). 0 < o_quantity r"
      by (simp add: wf_book_def)
    have "?f \<in> set fs" using nth_mem [OF i] unfolding matched(3) .
    from bspec [OF fill_accepts [OF matched(2) pos] this] show ?thesis by (cases ?f) auto
  qed
  then show "0 < t_quantity t" "t_symbol_id t = o_symbol_id order" "t_timestamp_ns t = o_timestamp order"
    "case o_type order of
         BUY \<Rightarrow> t_buy_order_id t = o_client_order_id order \<and> (o_execution_type order \<noteq> MARKET \<longrightarrow> t_price t \<le> o_price order)
       | SELL \<Rightarrow> t_sell_order_id t = o_client_order_id order \<and> (o_execution_type order \<noteq> MARKET \<longrightarrow> t_price t \<ge> o_price order)"
    by (auto simp: t trade_of_def accepts_def split: prod.splits OrderType.splits)
qed

theorem limit_protection_witness:
  "\<exists>g' ts. process_order demo_group1 (demo_order 2 LIMIT BUY 12 4) = Some (Inr g') \<and>
    (g_ring g', g_trade_buffer g') = publish_all (g_ring demo_group1, g_trade_buffer demo_group1) ts \<and>
    (\<forall>t \<in> set ts. t_price t \<le> 12 \<and> t_symbol_id t = 5)"
proof -
  obtain g' where p: "process_order demo_group1 (demo_order 2 LIMIT BUY 12 4) = Some (Inr g')"
    and ok: "order_ok demo_group1 (demo_order 2 LIMIT BUY 12 4)" by (rule demo_after2)
  show ?thesis using p limit_protection [OF demo_group1_wf(2) ok p] by auto
qed

text \<open>
  C11. The book is never crossed: after any admissible sequence of orders the best buy price of every symbol is
  below its best sell price, no resting order is empty, and the cached totals are the sums
  of the resting quantities.
\<close>

theorem book_never_crossed:
  assumes "wf_group g" "orders_ok g orders" "process_orders g orders = Some (Inr g')"
  shows "(\<forall>x \<in> set (resting (group_book g' sid) BUY). \<forall>y \<in> set (resting (group_book g' sid) SELL). o_price x < o_price y) \<and>
    (\<forall>s. \<forall>r \<in> set (resting (group_book g' sid) s). 0 < o_quantity r) \<and>
    unat (getTotalBuyQty (group_book g' sid)) = (\<Sum>r\<leftarrow>resting (group_book g' sid) BUY. unat (o_quantity r)) \<and>
    unat (getTotalSellQty (group_book g' sid)) = (\<Sum>r\<leftarrow>resting (group_book g' sid) SELL. unat (o_quantity r))"
proof -
  have "wf_group g'" using process_orders_total [OF assms(1,2)] assms(3) by auto
  then have wf: "wf_book (group_book g' sid)" by (rule wf_groupD)
  show ?thesis
    using wf total_zero_iff(2) [OF wf, of BUY] total_zero_iff(2) [OF wf, of SELL]
    by (simp add: wf_book_def getTotalBuyQty_def getTotalSellQty_def qty_sum_def)
qed

theorem book_never_crossed_witness:
  "\<exists>g'. process_orders demo_group [demo_order 1 LIMIT SELL 11 10, demo_order 2 LIMIT BUY 10 4] = Some (Inr g') \<and>
    (\<forall>x \<in> set (resting (group_book g' 5) BUY). \<forall>y \<in> set (resting (group_book g' 5) SELL). o_price x < o_price y)"
proof -
  have ok: "orders_ok demo_group [demo_order 1 LIMIT SELL 11 10, demo_order 2 LIMIT BUY 10 4]"
    by (simp add: orders_ok_def demo_known)
  obtain g' where p: "process_orders demo_group [demo_order 1 LIMIT SELL 11 10, demo_order 2 LIMIT BUY 10 4] = Some (Inr g')"
    using process_orders_total [OF demo_group_wf(1) ok] by blast
  show ?thesis using p book_never_crossed [OF demo_group_wf(1) ok p, of 5] by blast
qed


lemma order_trades_nil: "order_trades g order = [] \<longleftrightarrow> snd (group_spec g order) = []"
  using length_trades_of unfolding order_trades_def by (metis length_0_conv)

text \<open>The prices after an order.\<close>

lemma order_prices:
  assumes "wf_group g" "order_ok g order" "process_order g order = Some (Inr g')"
  shows "g_shared_ltp g' = (if order_trades g order = [] then g_shared_ltp g
    else (g_shared_ltp g)[unat (o_symbol_id order AND SYMBOL_MASK) := t_price (last (order_trades g order))])"
proof -
  let ?fs = "snd (group_spec g order)"
  obtain b where "g' = group_after g order ?fs b" by (rule process_order_result [OF assms(1-3)])
  then have "g_shared_ltp g' = (if ?fs = [] then g_shared_ltp g
      else (g_shared_ltp g)[unat (o_symbol_id order AND SYMBOL_MASK) := o_price (fst (last ?fs))])"
    by (simp only: group_after_simps publish_fills_simps)
  moreover have "t_price (last (order_trades g order)) = o_price (fst (last ?fs))" if "?fs \<noteq> []"
    using that by (simp add: last_conv_nth order_trades_nil) (simp add: order_trades_def trades_of_nth trade_of_def split: prod.splits)
  ultimately show ?thesis by (simp add: order_trades_nil)
qed

text \<open>
  The last traded price: an order that trades leaves the price of its last trade in the shared slot of its
  masked symbol and changes no other slot; an order that does not trade changes no slot.
\<close>

theorem last_price_of_order:
  assumes "wf_group g" "order_ok g order" "process_order g order = Some (Inr g')"
    "length (g_shared_ltp g) = MAX_SYMBOLS" "i = unat (o_symbol_id order AND SYMBOL_MASK)"
  shows "\<exists>ts. (g_ring g', g_trade_buffer g') = publish_all (g_ring g, g_trade_buffer g) ts \<and>
    length (g_shared_ltp g') = MAX_SYMBOLS \<and>
    g_shared_ltp g' ! i = (if ts = [] then g_shared_ltp g ! i else t_price (last ts)) \<and>
    (\<forall>j. j \<noteq> i \<longrightarrow> g_shared_ltp g' ! j = g_shared_ltp g ! j)"
proof (intro exI [of _ "order_trades g order"] conjI)
  show "(g_ring g', g_trade_buffer g') = publish_all (g_ring g, g_trade_buffer g) (order_trades g order)"
    by (rule published [OF assms(1-3)])
  note ltp = order_prices [OF assms(1-3), folded assms(5)]
  have i: "i < MAX_SYMBOLS" using assms(5) masked_symbol_bound by simp
  show "length (g_shared_ltp g') = MAX_SYMBOLS" "\<forall>j. j \<noteq> i \<longrightarrow> g_shared_ltp g' ! j = g_shared_ltp g ! j"
    using assms(4) by (simp_all add: ltp)
  show "g_shared_ltp g' ! i = (if order_trades g order = [] then g_shared_ltp g ! i else t_price (last (order_trades g order)))"
    using assms(4) i by (simp add: ltp)
qed

theorem last_price_of_order_witness:
  "\<exists>g' ts. process_order demo_group1 (demo_order 2 LIMIT BUY 12 4) = Some (Inr g') \<and>
    (g_ring g', g_trade_buffer g') = publish_all (g_ring demo_group1, g_trade_buffer demo_group1) ts \<and>
    (\<forall>j. j \<noteq> unat (5 AND SYMBOL_MASK) \<longrightarrow> g_shared_ltp g' ! j = replicate MAX_SYMBOLS 0 ! j)"
proof -
  obtain g' where p: "process_order demo_group1 (demo_order 2 LIMIT BUY 12 4) = Some (Inr g')"
    and ok: "order_ok demo_group1 (demo_order 2 LIMIT BUY 12 4)" by (rule demo_after2)
  show ?thesis
    using p last_price_of_order [OF demo_group1_wf(2) ok p _ refl] by (auto simp: demo_group1_wf)
qed

text \<open>
  A limit order with a price outside the band of its book is rejected: the group is left as it was.
\<close>

theorem invalid_price_rejected:
  assumes "wf_group g" "o_execution_type order \<noteq> MARKET"
    "o_price order < b_lower_limit (group_book g (o_symbol_id order)) \<or>
     o_price order > b_upper_limit (group_book g (o_symbol_id order))"
  shows "process_order g order = Some (Inr g)"
proof -
  obtain m where "g_bookmanager g = Some m" "bm_get m (o_symbol_id order AND SYMBOL_MASK) = Inr (group_book g (o_symbol_id order))"
    using wf_groupD [OF assms(1)] by metis
  then show ?thesis using assms(2,3) by (auto simp: process_order_def isPriceValid_def)
qed

theorem invalid_price_rejected_witness:
  "process_order demo_group (demo_order 9 LIMIT BUY 13 1) = Some (Inr demo_group)"
proof (rule invalid_price_rejected [OF demo_group_wf(1)])
  have "\<not> isPriceValid demo_book 13" by (simp add: demo_book_wf)
  then show "o_price (demo_order 9 LIMIT BUY 13 1) < b_lower_limit (group_book demo_group (o_symbol_id (demo_order 9 LIMIT BUY 13 1))) \<or>
     o_price (demo_order 9 LIMIT BUY 13 1) > b_upper_limit (group_book demo_group (o_symbol_id (demo_order 9 LIMIT BUY 13 1)))"
    by (auto simp: isPriceValid_def demo_group_wf)
qed simp

text \<open>
  A market order never rests: its own side keeps its resting list, and it is left unfilled only when
  the other side is exhausted.
\<close>

theorem market_order_never_rests:
  assumes "wf_group g" "o_execution_type order = MARKET" "process_order g order = Some (Inr g')"
    "b = group_book g (o_symbol_id order)" "b' = group_book g' (o_symbol_id order)"
  shows "\<exists>ts. (g_ring g', g_trade_buffer g') = publish_all (g_ring g, g_trade_buffer g) ts \<and>
    resting b' (o_type order) = resting b (o_type order) \<and>
    ((\<Sum>t\<leftarrow>ts. unat (t_quantity t)) = unat (o_quantity order) \<or> resting b' (opp (o_type order)) = [])"
proof (intro exI [of _ "order_trades g order"] conjI)
  have ok: "order_ok g order" using assms(2) by (simp add: order_ok_def)
  show "(g_ring g', g_trade_buffer g') = publish_all (g_ring g, g_trade_buffer g) (order_trades g order)"
    by (rule published [OF assms(1) ok assms(3)])
  have res: "resting b' = fst (group_spec g order)"
    by (rule process_order_result [OF assms(1) ok assms(3)]) (use assms(5) in simp)
  have "resting b' (o_type order) = resting b (o_type order) \<and>
    (filled (snd (group_spec g order)) = unat (o_quantity order) \<or> resting b' (opp (o_type order)) = [])"
  proof (cases rule: group_spec_cases [of order g])
    case rejected
    then show ?thesis using assms(2) by simp
  next
    case (matched q rs fs)
    have "q = 0 \<or> rs = []"
      using fill_stops [OF matched(2)] assms(2) by (auto simp: accepts_def word_neq_0_conv [symmetric])
    then show ?thesis using fill_conserves(1) [OF matched(2)] matched(3-5) assms(2,4) by (auto simp: res)
  qed
  then show "resting b' (o_type order) = resting b (o_type order)"
    "(\<Sum>t\<leftarrow>order_trades g order. unat (t_quantity t)) = unat (o_quantity order) \<or> resting b' (opp (o_type order)) = []"
    by (simp_all add: order_trades_def trades_of_quantity)
qed

theorem market_order_never_rests_witness:
  "\<exists>g'. process_order demo_group1 (demo_order 2 MARKET BUY 0 40) = Some (Inr g') \<and> resting (group_book g' 5) BUY = []"
proof -
  have "order_ok demo_group1 (demo_order 2 MARKET BUY 0 40)" by (simp add: order_ok_def)
  from process_order_abs [OF demo_group1_wf(2) this]
  obtain g' where p: "process_order demo_group1 (demo_order 2 MARKET BUY 0 40) = Some (Inr g')" by blast
  show ?thesis using p market_order_never_rests [OF demo_group1_wf(2) _ p refl refl] by (auto simp: demo_group1_wf)
qed

end
