(* ===== verification/Dispatcher.thy ===== *)
theory Dispatcher
  imports Engine_Run
begin

text \<open>
  \<open>MatchingEngineDispatcher\<close> of \<^verbatim>\<open>src/src/producer_consumer.cpp\<close>: it owns the groups and the shared array of
  last traded prices, creates the order books from the limits of the symbol file, and routes every order to
  the queue of its group. The shared memory calls are in \<open>Price_Memory\<close>, the threads appear as passes; the members
  \<open>lower_limits_cache\<close> and \<open>upper_limits_cache\<close> are never read.
\<close>

section \<open>The dispatcher\<close>

record MatchingEngineDispatcher =
  d_groups :: "GroupProcessor list"
  d_terminate_flag :: bool
  d_is_running_flag :: bool
  d_shared_ltp :: MarketState

text \<open>The constructor zeroes the shared prices; \<open>rings\<close> are the shared-memory rings of the groups.\<close>

definition MatchingEngineDispatcher_new :: "Order \<Rightarrow> u64 \<Rightarrow> (nat \<Rightarrow> trade_ring) \<Rightarrow> MatchingEngineDispatcher" where
  "MatchingEngineDispatcher_new blank capacity rings =
     (let ltp = replicate MAX_SYMBOLS 0 in
      \<lparr>d_groups = map (\<lambda>i. GroupProcessor_new blank (of_nat i) capacity (rings i) ltp) [0..<GROUP_COUNT],
       d_terminate_flag = False, d_is_running_flag = False, d_shared_ltp = ltp\<rparr>)"

definition dispatcher_terminate :: "MatchingEngineDispatcher \<Rightarrow> MatchingEngineDispatcher" where
  "dispatcher_terminate d = d\<lparr>d_terminate_flag := True, d_groups := map gp_terminate (d_groups d)\<rparr>"

definition all_groups_running :: "MatchingEngineDispatcher \<Rightarrow> bool" where
  "all_groups_running d \<longleftrightarrow> fold (\<lambda>g r. r \<and> gp_is_running g) (d_groups d) True \<and> d_is_running_flag d"

text \<open>\<open>start\<close>, after which every group thread has set its running flag.\<close>

definition dispatcher_start :: "MatchingEngineDispatcher \<Rightarrow> MatchingEngineDispatcher" where
  "dispatcher_start d = d\<lparr>d_groups := map group_start (d_groups d), d_is_running_flag := True\<rparr>"

definition route :: "MatchingEngineDispatcher \<Rightarrow> Order \<Rightarrow> nat" where
  "route d order = (let grp = unat (drop_bit SYMBOL_BITS (o_symbol_id order)) mod GROUP_COUNT in
     if grp \<ge> length (d_groups d) then 0 else grp)"

definition try_dispatch :: "MatchingEngineDispatcher \<Rightarrow> Order \<Rightarrow> (MatchingEngineDispatcher \<times> bool) option" where
  "try_dispatch d order = (let grp = route d order in
     if grp < length (d_groups d) then do {
       (g, ok) \<leftarrow> enqueue_order (d_groups d ! grp) order;
       Some (d\<lparr>d_groups := (d_groups d)[grp := g]\<rparr>, ok)
     } else None)"

text \<open>
  \<open>dispatch_order\<close> spins until the queue takes the order. \<open>env\<close> is what the other threads do to the engine
  while this thread yields.
\<close>

partial_function (option) dispatch_order ::
    "(MatchingEngineDispatcher \<Rightarrow> MatchingEngineDispatcher option) \<Rightarrow> MatchingEngineDispatcher \<Rightarrow> Order \<Rightarrow>
     MatchingEngineDispatcher option" where
  "dispatch_order env d order = do {
     (d1, ok) \<leftarrow> try_dispatch d order;
     if ok then Some d1
     else do {
       d2 \<leftarrow> env d1;
       dispatch_order env d2 order
     }
   }"

text \<open>One pass of the thread of group \<open>i\<close>; the array of last traded prices is shared. An exception ends the process.\<close>

definition run_group :: "nat \<Rightarrow> MatchingEngineDispatcher \<Rightarrow> MatchingEngineDispatcher option" where
  "run_group i d = (case group_step ((d_groups d ! i)\<lparr>g_shared_ltp := d_shared_ltp d\<rparr>) of
     Some (Inr g) \<Rightarrow> Some (d\<lparr>d_groups := (d_groups d)[i := g], d_shared_ltp := g_shared_ltp g\<rparr>)
   | _ \<Rightarrow> None)"

text \<open>
  \<open>initialize_engine\<close>: one book per masked symbol and group, from the limits at \<open>(i << SYMBOL_BITS) + symbol_id\<close>. \<open>heap i s\<close> is
  what the allocations of the book \<open>s\<close> of group \<open>i\<close> find: the block for its 10000 nodes and the
  uninitialised totals.
\<close>

fun add_books :: "(nat \<Rightarrow> OrderNode list option \<times> u64 \<times> u64) \<Rightarrow> (nat \<Rightarrow> u64) \<Rightarrow> (nat \<Rightarrow> u64) \<Rightarrow> nat list \<Rightarrow> OrderBookManager \<Rightarrow>
    (engine_exn + OrderBookManager) option" where
  "add_books heap lower upper [] m = Some (Inr m)"
| "add_books heap lower upper (s # ss) m = (case heap s of (mem, buy0, sell0) \<Rightarrow>
     (case bm_addBook m (of_nat s) mem buy0 sell0 (lower s) (upper s) of
        None \<Rightarrow> None
      | Some (Inl e) \<Rightarrow> Some (Inl e)
      | Some (Inr m1) \<Rightarrow> add_books heap lower upper ss m1))"

fun init_groups :: "(nat \<Rightarrow> nat \<Rightarrow> OrderNode list option \<times> u64 \<times> u64) \<Rightarrow> (nat \<Rightarrow> u64) \<Rightarrow> (nat \<Rightarrow> u64) \<Rightarrow> nat \<Rightarrow>
    GroupProcessor list \<Rightarrow> (engine_exn + GroupProcessor list) option" where
  "init_groups heap lower upper i [] = Some (Inr [])"
| "init_groups heap lower upper i (g # gs) =
     (let g1 = setup_book_manager g; overhead = i * 2 ^ SYMBOL_BITS in
      case add_books (heap i) (\<lambda>s. lower (overhead + s)) (\<lambda>s. upper (overhead + s)) [0..<MAX_SYMBOLS] (the (g_bookmanager g1)) of
        None \<Rightarrow> None
      | Some (Inl e) \<Rightarrow> Some (Inl e)
      | Some (Inr m) \<Rightarrow> (case init_groups heap lower upper (Suc i) gs of
            None \<Rightarrow> None
          | Some (Inl e) \<Rightarrow> Some (Inl e)
          | Some (Inr gs1) \<Rightarrow> Some (Inr (g1\<lparr>g_bookmanager := Some m\<rparr> # gs1))))"

definition initialize_engine :: "(nat \<Rightarrow> nat \<Rightarrow> OrderNode list option \<times> u64 \<times> u64) \<Rightarrow> (nat \<Rightarrow> u64) \<Rightarrow> (nat \<Rightarrow> u64) \<Rightarrow>
    MatchingEngineDispatcher \<Rightarrow> (engine_exn + MatchingEngineDispatcher) option" where
  "initialize_engine heap lower_limits upper_limits d = (case init_groups heap lower_limits upper_limits 0 (d_groups d) of
     None \<Rightarrow> None
   | Some (Inl e) \<Rightarrow> Some (Inl e)
   | Some (Inr gs) \<Rightarrow> Some (Inr (d\<lparr>d_groups := gs\<rparr>)))"

section \<open>Initialisation\<close>

text \<open>Limits for which a book can be created, and a heap that provides the memory with zeroed totals.\<close>

definition limits_ok :: "u64 \<Rightarrow> u64 \<Rightarrow> bool" where
  "limits_ok lower upper \<longleftrightarrow> 0 < lower \<and> lower \<le> upper \<and> upper < 0xFFFFFFFFFFFFFFFF \<and> unat upper - unat lower < 2 ^ 31 - 1"

definition heap_ok :: "nat \<Rightarrow> OrderNode list option \<times> u64 \<times> u64 \<Rightarrow> bool" where
  "heap_ok n h \<longleftrightarrow> (\<exists>ns. h = (Some ns, 0, 0) \<and> length ns = n)"

definition fresh_book :: "u64 \<Rightarrow> u64 \<Rightarrow> nat \<Rightarrow> OrderBook \<Rightarrow> bool" where
  "fresh_book lower upper n b \<longleftrightarrow> wf_book b \<and> (\<forall>s. resting b s = []) \<and> book_capacity b = n \<and>
     b_lower_limit b = lower \<and> b_upper_limit b = upper"

lemma new_book_fresh:
  assumes "limits_ok lower upper" "heap_ok n (mem, buy0, sell0)" "0 < n" "n < 2 ^ 31"
  obtains b where "OrderBook_new mem buy0 sell0 lower upper = Some (Inr b)" "fresh_book lower upper n b"
proof -
  obtain ns where ns: "mem = Some ns" "buy0 = 0" "sell0 = 0" "length ns = n" using assms(2) by (auto simp: heap_ok_def)
  obtain b where "OrderBook_new (Some ns) 0 0 lower upper = Some (Inr b)" "wf_book b" "\<And>s. resting b s = []"
    "book_capacity b = length ns" "b_lower_limit b = lower" "b_upper_limit b = upper"
    by (rule wf_new [of ns lower upper]) (use assms ns in \<open>auto simp: limits_ok_def\<close>)
  then show thesis using that ns by (simp add: fresh_book_def)
qed

lemma add_books_ok:
  assumes "bm_max_books m = MAX_SYMBOLS" "length (bm_books m) = MAX_SYMBOLS" "set ss \<subseteq> {..<MAX_SYMBOLS}"
    "\<forall>s \<in> set ss. limits_ok (lower s) (upper s) \<and> heap_ok n (heap s)" "0 < n" "n < 2 ^ 31"
  shows "\<exists>m'. add_books heap lower upper ss m = Some (Inr m') \<and> bm_max_books m' = MAX_SYMBOLS \<and>
    length (bm_books m') = MAX_SYMBOLS \<and>
    (\<forall>s < MAX_SYMBOLS. if s \<in> set ss then \<exists>b. bm_books m' ! s = Some b \<and> fresh_book (lower s) (upper s) n b
      else bm_books m' ! s = bm_books m ! s)"
  using assms
proof (induction ss arbitrary: m)
  case (Cons s ss)
  obtain mem buy0 sell0 where h: "heap s = (mem, buy0, sell0)" by (metis prod_cases3)
  obtain b where b: "OrderBook_new mem buy0 sell0 (lower s) (upper s) = Some (Inr b)" "fresh_book (lower s) (upper s) n b"
    by (rule new_book_fresh [of "lower s" "upper s" n mem buy0 sell0]) (use Cons.prems h in auto)
  have s: "s < MAX_SYMBOLS" "unat (of_nat s :: u32) = s"
    using Cons.prems by (auto simp: MAX_SYMBOLS_def SYMBOL_BITS_def unat_of_nat)
  let ?m = "bm_put m (of_nat s) b"
  have add: "bm_addBook m (of_nat s) mem buy0 sell0 (lower s) (upper s) = Some (Inr ?m)"
    using b s Cons.prems(1) by (simp add: bm_addBook_def)
  have put: "bm_max_books ?m = MAX_SYMBOLS" "length (bm_books ?m) = MAX_SYMBOLS"
    "\<And>i. i < MAX_SYMBOLS \<Longrightarrow> bm_books ?m ! i = (if i = s then Some b else bm_books m ! i)"
    using Cons.prems(1,2) s by (simp_all add: bm_put_def)
  obtain m' where m': "add_books heap lower upper ss ?m = Some (Inr m')" "bm_max_books m' = MAX_SYMBOLS"
    "length (bm_books m') = MAX_SYMBOLS"
    "\<forall>i < MAX_SYMBOLS. if i \<in> set ss then \<exists>b. bm_books m' ! i = Some b \<and> fresh_book (lower i) (upper i) n b
      else bm_books m' ! i = bm_books ?m ! i"
    using Cons.IH [OF put(1,2)] Cons.prems by auto
  have "if i \<in> set (s # ss) then \<exists>b. bm_books m' ! i = Some b \<and> fresh_book (lower i) (upper i) n b
      else bm_books m' ! i = bm_books m ! i" if "i < MAX_SYMBOLS" for i
    using m'(4) that put(3) [OF that] b(2) by (cases "i \<in> set ss"; cases "i = s") auto
  then show ?case using add m' h by auto
qed simp

lemma init_groups_ok:
  assumes "\<forall>j < length gs. \<forall>s < MAX_SYMBOLS. limits_ok (lower ((i + j) * 2 ^ SYMBOL_BITS + s)) (upper ((i + j) * 2 ^ SYMBOL_BITS + s)) \<and>
    heap_ok n (heap (i + j) s)" "0 < n" "n < 2 ^ 31"
  shows "\<exists>gs'. init_groups heap lower upper i gs = Some (Inr gs') \<and> length gs' = length gs \<and>
    (\<forall>j < length gs. wf_group (gs' ! j) \<and> g_group_queue (gs' ! j) = g_group_queue (gs ! j) \<and>
      g_terminate_flag (gs' ! j) = g_terminate_flag (gs ! j) \<and>
      (\<forall>sid. fresh_book (lower ((i + j) * 2 ^ SYMBOL_BITS + unat (sid AND SYMBOL_MASK)))
        (upper ((i + j) * 2 ^ SYMBOL_BITS + unat (sid AND SYMBOL_MASK))) n (group_book (gs' ! j) sid)))"
  using assms
proof (induction gs arbitrary: i)
  case (Cons g gs)
  let ?lo = "\<lambda>s. lower (i * 2 ^ SYMBOL_BITS + s)" and ?up = "\<lambda>s. upper (i * 2 ^ SYMBOL_BITS + s)"
  have first: "\<forall>s < MAX_SYMBOLS. limits_ok (?lo s) (?up s) \<and> heap_ok n (heap i s)"
    using Cons.prems(1) [rule_format, of 0] by auto
  have m0: "bm_max_books (OrderBookManager_new MAX_SYMBOLS) = MAX_SYMBOLS" "length (bm_books (OrderBookManager_new MAX_SYMBOLS)) = MAX_SYMBOLS"
    by (simp_all add: OrderBookManager_new_def)
  have sub: "set [0..<MAX_SYMBOLS] \<subseteq> {..<MAX_SYMBOLS}" by auto
  obtain m where m: "add_books (heap i) ?lo ?up [0..<MAX_SYMBOLS] (OrderBookManager_new MAX_SYMBOLS) = Some (Inr m)"
    "bm_max_books m = MAX_SYMBOLS" "length (bm_books m) = MAX_SYMBOLS"
    "\<forall>s < MAX_SYMBOLS. \<exists>b. bm_books m ! s = Some b \<and> fresh_book (?lo s) (?up s) n b"
    using add_books_ok [OF m0 sub, of ?lo ?up n "heap i"] first Cons.prems(2,3) by auto
  let ?g = "(setup_book_manager g)\<lparr>g_bookmanager := Some m\<rparr>"
  have wf: "wf_group ?g" using m(2-4) by (fastforce simp: wf_group_def fresh_book_def)
  have bk: "fresh_book (?lo (unat (sid AND SYMBOL_MASK))) (?up (unat (sid AND SYMBOL_MASK))) n (group_book ?g sid)" for sid
    using m(4) masked_symbol_bound [of sid] by (auto simp: group_book_def)
  have "\<forall>j < length gs. \<forall>s < MAX_SYMBOLS. limits_ok (lower ((Suc i + j) * 2 ^ SYMBOL_BITS + s)) (upper ((Suc i + j) * 2 ^ SYMBOL_BITS + s)) \<and>
      heap_ok n (heap (Suc i + j) s)"
    using Cons.prems(1) [rule_format, of "Suc _"] by auto
  from Cons.IH [OF this Cons.prems(2,3)]
  obtain gs' where gs': "init_groups heap lower upper (Suc i) gs = Some (Inr gs')" "length gs' = length gs"
    "\<And>j. j < length gs \<Longrightarrow> wf_group (gs' ! j) \<and> g_group_queue (gs' ! j) = g_group_queue (gs ! j) \<and>
      g_terminate_flag (gs' ! j) = g_terminate_flag (gs ! j) \<and>
      (\<forall>sid. fresh_book (lower ((Suc i + j) * 2 ^ SYMBOL_BITS + unat (sid AND SYMBOL_MASK)))
        (upper ((Suc i + j) * 2 ^ SYMBOL_BITS + unat (sid AND SYMBOL_MASK))) n (group_book (gs' ! j) sid))" by blast
  have "init_groups heap lower upper i (g # gs) = Some (Inr (?g # gs'))"
    using m(1) gs'(1) by (simp add: setup_book_manager_def)
  moreover have "wf_group ((?g # gs') ! j) \<and> g_group_queue ((?g # gs') ! j) = g_group_queue ((g # gs) ! j) \<and>
      g_terminate_flag ((?g # gs') ! j) = g_terminate_flag ((g # gs) ! j) \<and>
      (\<forall>sid. fresh_book (lower ((i + j) * 2 ^ SYMBOL_BITS + unat (sid AND SYMBOL_MASK)))
        (upper ((i + j) * 2 ^ SYMBOL_BITS + unat (sid AND SYMBOL_MASK))) n (group_book ((?g # gs') ! j) sid))"
    if "j < length (g # gs)" for j
    using wf bk gs'(3) [of "j - 1"] that by (cases j) (simp_all add: setup_book_manager_def)
  ultimately show ?case using gs'(2) by (intro exI [of _ "?g # gs'"]) auto
qed simp


lemma initialize_engine_ok:
  assumes "length (d_groups d) = GROUP_COUNT"
    "\<forall>k < TOTAL_SYMBOLS. limits_ok (lower k) (upper k)" "\<forall>i < GROUP_COUNT. \<forall>s < MAX_SYMBOLS. heap_ok 10000 (heap i s)"
  obtains d' where "initialize_engine heap lower upper d = Some (Inr d')" "length (d_groups d') = GROUP_COUNT"
    "\<forall>i < GROUP_COUNT. wf_group (d_groups d' ! i) \<and>
      (\<forall>sid. fresh_book (lower (i * 1024 + unat sid mod 1024)) (upper (i * 1024 + unat sid mod 1024)) 10000
        (group_book (d_groups d' ! i) sid))"
proof -
  have "\<forall>j < length (d_groups d). \<forall>s < MAX_SYMBOLS. limits_ok (lower ((0 + j) * 2 ^ SYMBOL_BITS + s)) (upper ((0 + j) * 2 ^ SYMBOL_BITS + s)) \<and>
      heap_ok 10000 (heap (0 + j) s)"
  proof (intro allI impI conjI)
    fix j s assume j: "j < length (d_groups d)" and s: "s < MAX_SYMBOLS"
    then have "(0 + j) * 2 ^ SYMBOL_BITS + s < TOTAL_SYMBOLS"
      using assms(1) by (auto simp: GROUP_COUNT_def TOTAL_SYMBOLS_def MAX_SYMBOLS_def SYMBOL_BITS_def)
    then show "limits_ok (lower ((0 + j) * 2 ^ SYMBOL_BITS + s)) (upper ((0 + j) * 2 ^ SYMBOL_BITS + s))" using assms(2) by blast
    show "heap_ok 10000 (heap (0 + j) s)" using assms(1,3) j s by simp
  qed
  from init_groups_ok [OF this]
  obtain gs' where "init_groups heap lower upper 0 (d_groups d) = Some (Inr gs')" "length gs' = length (d_groups d)"
    "\<forall>j < length (d_groups d). wf_group (gs' ! j) \<and>
      (\<forall>sid. fresh_book (lower ((0 + j) * 2 ^ SYMBOL_BITS + unat (sid AND SYMBOL_MASK)))
        (upper ((0 + j) * 2 ^ SYMBOL_BITS + unat (sid AND SYMBOL_MASK))) 10000 (group_book (gs' ! j) sid))"
    by auto
  then show thesis
    using that [of "d\<lparr>d_groups := gs'\<rparr>"] assms(1) by (simp add: initialize_engine_def unat_masked_symbol SYMBOL_BITS_def)
qed

section \<open>Routing and back pressure\<close>

lemma route_group: "length (d_groups d) = GROUP_COUNT \<Longrightarrow> route d order = unat (o_symbol_id order) div 1024 mod 2"
proof -
  assume "length (d_groups d) = GROUP_COUNT"
  moreover have "unat (drop_bit SYMBOL_BITS x) = unat x div 1024" for x :: u32
    using unsigned_less [of x, where 'a = nat]
    by (simp only: SYMBOL_BITS_def unsigned_drop_bit_eq) (simp add: drop_bit_eq_div take_bit_nat_eq_self)
  moreover have "unat x div 1024 mod 2 < 2" for x :: u32 by simp
  ultimately show ?thesis by (simp only: route_def GROUP_COUNT_def Let_def not_le [symmetric] if_False)
qed

lemma group_ltp_indep:
  "wf_group (g\<lparr>g_shared_ltp := l\<rparr>) = wf_group g" "group_book (g\<lparr>g_shared_ltp := l\<rparr>) = group_book g"
  "order_ok (g\<lparr>g_shared_ltp := l\<rparr>) = order_ok g"
  by (simp_all add: wf_group_def group_book_def order_ok_def fun_eq_iff)

lemma dispatch_order_unfold:
  "try_dispatch d order = Some (d1, True) \<Longrightarrow> dispatch_order env d order = Some d1"
  "try_dispatch d order = Some (d1, False) \<Longrightarrow> env d1 = Some d2 \<Longrightarrow> dispatch_order env d order = dispatch_order env d2 order"
  by (simp_all add: dispatch_order.simps [of env d order])

lemma try_dispatch_cases:
  assumes g: "grp = route d order" "grp < length (d_groups d)" and inv: "rb_inv (g_group_queue (d_groups d ! grp))"
  obtains (accepted) d1 where "try_dispatch d order = Some (d1, True)" "length (d_groups d1) = length (d_groups d)"
      "rb_inv (g_group_queue (d_groups d1 ! grp))"
      "rb_contents (g_group_queue (d_groups d1 ! grp)) = rb_contents (g_group_queue (d_groups d ! grp)) @ [order]"
  | (full) "try_dispatch d order = Some (d, False)"
      "length (rb_contents (g_group_queue (d_groups d ! grp))) = rb_room (g_group_queue (d_groups d ! grp))"
proof -
  let ?g = "d_groups d ! grp"
  obtain q ok where q: "RingBuffer_push (g_group_queue ?g) order = Some (q, ok)" "rb_inv q"
    "rb_contents q = (if ok then rb_contents (g_group_queue ?g) @ [order] else rb_contents (g_group_queue ?g))"
    "ok \<longleftrightarrow> length (rb_contents (g_group_queue ?g)) < rb_room (g_group_queue ?g)"
    by (rule rb.push_total [OF inv])
  have t: "try_dispatch d order = Some (d\<lparr>d_groups := (d_groups d)[grp := ?g\<lparr>g_group_queue := q\<rparr>]\<rparr>, ok)"
    using g q(1) by (simp add: try_dispatch_def enqueue_order_def Let_def)
  show thesis
  proof (cases ok)
    case True
    then show thesis
      using t q g by (intro accepted [of "d\<lparr>d_groups := (d_groups d)[grp := ?g\<lparr>g_group_queue := q\<rparr>]\<rparr>"]) simp_all
  next
    case False
    then have full': "length (rb_contents (g_group_queue ?g)) = rb_room (g_group_queue ?g)"
      using q(4) rb.room_bound [OF inv] by simp
    then have "q = g_group_queue ?g" using rb.push_reject [OF inv, of order] q(1) by simp
    moreover have "?g\<lparr>g_group_queue := g_group_queue ?g\<rparr> = ?g" by (cases ?g) simp
    ultimately have "d\<lparr>d_groups := (d_groups d)[grp := ?g\<lparr>g_group_queue := q\<rparr>]\<rparr> = d"
      by (cases d) (simp add: list_update_id)
    then show thesis using t False full' full by simp
  qed
qed

section \<open>Properties of the dispatcher\<close>



text \<open>
  C19. Routing agrees with initialisation: after initialisation an order for symbol \<open>k < 2048\<close> goes to the group and book that
  were created with the limits of symbol \<open>k\<close>.
\<close>

theorem routing_reaches_own_book:
  assumes "length (d_groups d) = GROUP_COUNT" "initialize_engine heap lower upper d = Some (Inr d')"
    "\<forall>k < TOTAL_SYMBOLS. limits_ok (lower k) (upper k)" "\<forall>i < GROUP_COUNT. \<forall>s < MAX_SYMBOLS. heap_ok 10000 (heap i s)"
    "unat (o_symbol_id order) < TOTAL_SYMBOLS"
  shows "route d' order < length (d_groups d') \<and>
    b_lower_limit (group_book (d_groups d' ! route d' order) (o_symbol_id order)) = lower (unat (o_symbol_id order)) \<and>
    b_upper_limit (group_book (d_groups d' ! route d' order) (o_symbol_id order)) = upper (unat (o_symbol_id order))"
proof -
  obtain d1 where "initialize_engine heap lower upper d = Some (Inr d1)" and len: "length (d_groups d1) = GROUP_COUNT"
    and bk: "\<forall>i < GROUP_COUNT. wf_group (d_groups d1 ! i) \<and>
      (\<forall>sid. fresh_book (lower (i * 1024 + unat sid mod 1024)) (upper (i * 1024 + unat sid mod 1024)) 10000
        (group_book (d_groups d1 ! i) sid))"
    by (rule initialize_engine_ok [OF assms(1,3,4)])
  then have d: "d' = d1" using assms(2) by simp
  let ?k = "unat (o_symbol_id order)"
  have k: "?k < 2048" using assms(5) by (simp add: TOTAL_SYMBOLS_def MAX_SYMBOLS_def GROUP_COUNT_def SYMBOL_BITS_def)
  then have r: "route d' order = ?k div 1024" using route_group [of d1 order] len d by simp
  have g: "?k div 1024 < GROUP_COUNT" using k by (simp add: GROUP_COUNT_def)
  have "fresh_book (lower (?k div 1024 * 1024 + ?k mod 1024)) (upper (?k div 1024 * 1024 + ?k mod 1024)) 10000
      (group_book (d_groups d' ! (?k div 1024)) (o_symbol_id order))"
    using bk g d by blast
  then show ?thesis using r g len d by (simp add: fresh_book_def)
qed

theorem routing_reaches_own_book_witness:
  "\<exists>d'. initialize_engine (\<lambda>_ _. (Some (replicate 10000 demo_node), 0, 0)) (\<lambda>k. 100 + of_nat k) (\<lambda>_. 9000)
      (MatchingEngineDispatcher_new (n_order demo_node) 1024 (\<lambda>_. zero_ring)) = Some (Inr d') \<and>
    b_lower_limit (group_book (d_groups d' ! route d' (n_order demo_node\<lparr>o_symbol_id := 1029\<rparr>)) 1029) = 1129"
proof -
  let ?d = "MatchingEngineDispatcher_new (n_order demo_node) 1024 (\<lambda>_. zero_ring)"
  let ?h = "\<lambda>_ _. (Some (replicate 10000 demo_node), 0, 0)"
  have len: "length (d_groups ?d) = GROUP_COUNT" by (simp add: MatchingEngineDispatcher_new_def Let_def)
  have lim: "\<forall>k < TOTAL_SYMBOLS. limits_ok (100 + of_nat k) 9000"
  proof (intro allI impI)
    fix k assume "k < TOTAL_SYMBOLS"
    then have k: "k < 2048" by (simp add: TOTAL_SYMBOLS_def MAX_SYMBOLS_def GROUP_COUNT_def SYMBOL_BITS_def)
    then have "unat (100 + of_nat k :: u64) = 100 + k" by (simp add: unat_word_ariths unat_of_nat)
    then show "limits_ok (100 + of_nat k) 9000" using k by (simp add: limits_ok_def word_less_nat_alt word_le_nat_alt)
  qed
  have heap: "\<forall>i < GROUP_COUNT. \<forall>s < MAX_SYMBOLS. heap_ok 10000 (?h i s)" by (auto simp: heap_ok_def)
  obtain d' where d': "initialize_engine ?h (\<lambda>k. 100 + of_nat k) (\<lambda>_. 9000) ?d = Some (Inr d')"
    by (rule initialize_engine_ok [OF len lim heap])
  have "unat (o_symbol_id (n_order demo_node\<lparr>o_symbol_id := 1029\<rparr>)) < TOTAL_SYMBOLS"
    by (simp add: TOTAL_SYMBOLS_def MAX_SYMBOLS_def GROUP_COUNT_def SYMBOL_BITS_def)
  from routing_reaches_own_book [OF len d' lim heap this] show ?thesis using d' by auto
qed



text \<open>Termination reaches every group: after \<open>terminate\<close> no pass of any group's thread changes the group any more.\<close>

theorem terminate_stops_groups:
  assumes "g \<in> set (d_groups (dispatcher_terminate d))"
  shows "group_step g = Some (Inr g)"
  using assms by (auto simp: dispatcher_terminate_def gp_terminate_def group_step_def)

theorem terminate_stops_groups_witness:
  "group_step (gp_terminate demo_group) = Some (Inr (gp_terminate demo_group))"
  by (rule terminate_stops_groups [where d = "MatchingEngineDispatcher_new (n_order demo_node) 1024 (\<lambda>_. zero_ring)\<lparr>d_groups := [demo_group]\<rparr>"])
    (simp add: dispatcher_terminate_def)

end
