(* ===== verification/Symbol_Loader.thy ===== *)
theory Symbol_Loader
  imports Dispatcher
begin

text \<open>
  \<^verbatim>\<open>src/src/symbol_loader.cpp\<close>: the symbol file is read at start-up and written at the end of the day. A file is
  the string of its characters. The model follows \<open>std::getline\<close> and \<open>std::stoull\<close>: a read at the end of
  a line leaves the token as it was, a token without digits and a number above 64 bits throw.
\<close>

section \<open>Numbers as text\<close>

datatype load_exn = invalid_argument | number_out_of_range

definition digit_char :: "nat \<Rightarrow> char" where
  "digit_char d = char_of (48 + d)"

definition is_digit :: "char \<Rightarrow> bool" where
  "is_digit c \<longleftrightarrow> 48 \<le> (of_char c :: nat) \<and> (of_char c :: nat) \<le> 57"

definition digit_val :: "char \<Rightarrow> nat" where
  "digit_val c = of_char c - 48"

text \<open>\<open>ostream << uint64_t\<close> in decimal.\<close>

fun dec_string :: "nat \<Rightarrow> string" where
  "dec_string n = (if n < 10 then [digit_char n] else dec_string (n div 10) @ [digit_char (n mod 10)])"

declare dec_string.simps [simp del]

definition dec_value :: "string \<Rightarrow> nat" where
  "dec_value s = foldl (\<lambda>a c. 10 * a + digit_val c) 0 s"

definition is_space :: "char \<Rightarrow> bool" where
  "is_space c \<longleftrightarrow> of_char c \<in> {32 :: nat, 9, 10, 11, 12, 13}"

text \<open>\<open>std::stoull\<close> and \<open>std::stoul\<close>, both 64 bits wide: white space, an optional sign, digits; the rest is ignored.\<close>

definition stoull :: "string \<Rightarrow> load_exn + u64" where
  "stoull s =
     (let t = dropWhile is_space s;
          neg = (t \<noteq> [] \<and> hd t = CHR ''-'');
          u = (if t \<noteq> [] \<and> (hd t = CHR ''-'' \<or> hd t = CHR ''+'') then tl t else t);
          ds = takeWhile is_digit u
      in if ds = [] then Inl invalid_argument
         else if dec_value ds \<ge> 2 ^ 64 then Inl number_out_of_range
         else Inr (if neg then - of_nat (dec_value ds) else of_nat (dec_value ds)))"

section \<open>Reading\<close>

record SymbolInfo =
  s_symbol :: string
  s_symbol_id :: u32
  s_ltp :: u64
  s_lower_limit :: u64
  s_upper_limit :: u64

text \<open>
  \<open>std::getline(ss, token, ',')\<close> on a string stream (the rest of the line and the end-of-file flag): once the flag is
  set the call fails and leaves the token alone.
\<close>

definition getline_token :: "string \<times> bool \<Rightarrow> string \<Rightarrow> (string \<times> bool) \<times> string" where
  "getline_token ss token = (case ss of (rest, eof) \<Rightarrow>
     (if eof then (ss, token)
      else if CHR '','' \<in> set rest
      then ((tl (dropWhile (\<lambda>c. c \<noteq> CHR '','') rest), False), takeWhile (\<lambda>c. c \<noteq> CHR '','') rest)
      else (([], True), rest)))"

definition parse_line :: "string \<Rightarrow> load_exn + SymbolInfo" where
  "parse_line line =
     (let (ss1, symbol) = getline_token (line, False) [];
          (ss2, t1) = getline_token ss1 [] in
      case stoull t1 of Inl e \<Rightarrow> Inl e | Inr v1 \<Rightarrow>
     (let (ss3, t2) = getline_token ss2 t1 in
      case stoull t2 of Inl e \<Rightarrow> Inl e | Inr v2 \<Rightarrow>
     (let (ss4, t3) = getline_token ss3 t2 in
      case stoull t3 of Inl e \<Rightarrow> Inl e | Inr v3 \<Rightarrow>
     (let (ss5, t4) = getline_token ss4 t3 in
      case stoull t4 of Inl e \<Rightarrow> Inl e | Inr v4 \<Rightarrow>
        Inr \<lparr>s_symbol = symbol, s_symbol_id = ucast v1, s_ltp = v2, s_lower_limit = v3, s_upper_limit = v4\<rparr>))))"

text \<open>The lines \<open>std::getline(file, line)\<close> delivers: the part after the last newline counts when it is not empty.\<close>

fun file_lines :: "string \<Rightarrow> string list" where
  "file_lines [] = []"
| "file_lines (c # cs) =
     (if c = CHR 0x0A then [] # file_lines cs
      else case file_lines cs of
             [] \<Rightarrow> [[c]]
           | l # ls \<Rightarrow> (c # l) # ls)"

fun parse_lines :: "string list \<Rightarrow> load_exn + SymbolInfo list" where
  "parse_lines [] = Inr []"
| "parse_lines (l # ls) = (case parse_line l of
     Inl e \<Rightarrow> Inl e
   | Inr info \<Rightarrow> (case parse_lines ls of Inl e \<Rightarrow> Inl e | Inr infos \<Rightarrow> Inr (info # infos)))"

text \<open>A file that cannot be opened yields no symbols.\<close>

definition loadSymbolCSV :: "string option \<Rightarrow> load_exn + SymbolInfo list" where
  "loadSymbolCSV file = (case file of
     None \<Rightarrow> Inr []
   | Some text \<Rightarrow> parse_lines (tl (file_lines text)))"

section \<open>Writing\<close>

definition calculateLower :: "u64 \<Rightarrow> u64" where "calculateLower ltp = ltp * 90 div 100"
definition calculateUpper :: "u64 \<Rightarrow> u64" where "calculateUpper ltp = ltp * 110 div 100"

definition csv_header :: string where
  "csv_header = ''symbol,symbol_id,ltp,lower_limit,upper_limit'' @ [CHR 0x0A]"

definition csv_row :: "string \<Rightarrow> u32 \<Rightarrow> u64 \<Rightarrow> u64 \<Rightarrow> u64 \<Rightarrow> string" where
  "csv_row symbol symbol_id ltp lower upper =
     symbol @ '','' @ dec_string (unat symbol_id) @ '','' @ dec_string (unat ltp) @ '','' @ dec_string (unat lower) @ '','' @
     dec_string (unat upper)"

text \<open>\<open>last_price[s.symbol_id]\<close> is read with the full symbol id; the array has \<open>MAX_SYMBOLS\<close> elements.\<close>

definition eod_info :: "MarketState \<Rightarrow> SymbolInfo \<Rightarrow> SymbolInfo option" where
  "eod_info market_state s =
     (if unat (s_symbol_id s) < length market_state then
        (let p = market_state ! unat (s_symbol_id s);
             latest_ltp = (if p = 0 then s_ltp s else p)
         in Some (s\<lparr>s_ltp := latest_ltp, s_lower_limit := calculateLower latest_ltp, s_upper_limit := calculateUpper latest_ltp\<rparr>))
      else None)"

fun eod_rows :: "MarketState \<Rightarrow> SymbolInfo list \<Rightarrow> string option" where
  "eod_rows market_state [] = Some []"
| "eod_rows market_state (s # ss) = (case eod_info market_state s of
     None \<Rightarrow> None
   | Some i \<Rightarrow> (case eod_rows market_state ss of
        None \<Rightarrow> None
      | Some rows \<Rightarrow> Some (csv_row (s_symbol i) (s_symbol_id i) (s_ltp i) (s_lower_limit i) (s_upper_limit i) @ [CHR 0x0A] @ rows)))"

definition saveEndOfDayCSV :: "MarketState \<Rightarrow> SymbolInfo list \<Rightarrow> string option" where
  "saveEndOfDayCSV market_state symbols = (case eod_rows market_state symbols of
     None \<Rightarrow> None
   | Some rows \<Rightarrow> Some (csv_header @ rows))"

section \<open>Printing and reading numbers\<close>

lemma digit_char_value:
  assumes "d < 10" shows "is_digit (digit_char d)" "digit_val (digit_char d) = d"
  using assms by (simp_all add: is_digit_def digit_val_def digit_char_def)

lemma dec_string_digits: "\<forall>c \<in> set (dec_string n). is_digit c"
proof (induction n rule: dec_string.induct)
  case (1 n)
  then show ?case by (subst dec_string.simps) (cases "n < 10", auto intro: digit_char_value)
qed

lemma dec_string_nonempty: "dec_string n \<noteq> []"
  by (subst dec_string.simps) simp

lemma dec_value_snoc: "dec_value (s @ [c]) = 10 * dec_value s + digit_val c"
  by (simp add: dec_value_def)

lemma dec_value_dec_string: "dec_value (dec_string n) = n"
proof (induction n rule: dec_string.induct)
  case (1 n)
  show ?case
  proof (cases "n < 10")
    case True
    then show ?thesis by (subst dec_string.simps) (simp add: dec_value_def digit_char_value)
  next
    case False
    then show ?thesis using 1 by (subst dec_string.simps) (simp add: dec_value_snoc digit_char_value)
  qed
qed

lemma digit_not_special:
  assumes "is_digit c" shows "\<not> is_space c" "c \<noteq> CHR ''-''" "c \<noteq> CHR ''+''" "c \<noteq> CHR '',''" "c \<noteq> CHR 0x0A"
  using assms by (auto simp: is_digit_def is_space_def)

lemma stoull_dec_string:
  assumes "n < 2 ^ 64" shows "stoull (dec_string n) = Inr (of_nat n)"
proof -
  obtain c cs where s: "dec_string n = c # cs" using dec_string_nonempty [of n] by (cases "dec_string n") auto
  have d: "\<forall>c \<in> set (c # cs). is_digit c" using dec_string_digits [of n] s by simp
  have c: "\<not> is_space c" "c \<noteq> CHR ''-''" "c \<noteq> CHR ''+''" using d digit_not_special [of c] by simp_all
  have tw: "takeWhile is_digit (c # cs) = c # cs" using d by (intro takeWhile_eq_all_conv [THEN iffD2]) blast
  have v: "dec_value (c # cs) = n" using dec_value_dec_string [of n] s by simp
  have dw: "dropWhile is_space (c # cs) = c # cs" using c by simp
  have "stoull (c # cs) = Inr (of_nat n)"
    unfolding stoull_def Let_def dw using c assms by (simp add: tw v del: takeWhile.simps)
  then show ?thesis by (simp only: s)
qed

section \<open>Reading a written row\<close>

lemma getline_token_field:
  "CHR '','' \<notin> set s \<Longrightarrow> getline_token (s @ CHR '','' # r, False) t = ((r, False), s)"
  "CHR '','' \<notin> set s \<Longrightarrow> getline_token (s, False) t = (([], True), s)"
proof -
  assume s: "CHR '','' \<notin> set s"
  then have "takeWhile (\<lambda>c. c \<noteq> CHR '','') (s @ CHR '','' # r) = s" "dropWhile (\<lambda>c. c \<noteq> CHR '','') (s @ CHR '','' # r) = CHR '','' # r"
    by (subst takeWhile_append2 dropWhile_append2; auto)+
  then show "getline_token (s @ CHR '','' # r, False) t = ((r, False), s)" by (simp add: getline_token_def)
  show "getline_token (s, False) t = (([], True), s)" using s by (simp add: getline_token_def)
qed

lemma dec_string_plain: "CHR '','' \<notin> set (dec_string n)" "CHR 0x0A \<notin> set (dec_string n)"
  using dec_string_digits [of n] digit_not_special(4,5) by blast+

lemma stoull_unat: "stoull (dec_string (unat (x :: u64))) = Inr x"
  using unsigned_less [of x, where 'a = nat] by (simp add: stoull_dec_string)

lemma stoull_unat32: "stoull (dec_string (unat (x :: u32))) = Inr (ucast x)"
proof -
  have "unat x < 2 ^ 32" using unsigned_less [of x, where 'a = nat] by simp
  then have "unat x < 2 ^ 64" by simp
  then show ?thesis by (simp add: stoull_dec_string unsigned_ucast_eq flip: word_of_nat_eq_iff)
qed

lemma ucast_u32_u64: "ucast (ucast (x :: u32) :: u64) = x"
  by transfer simp

lemma parse_csv_row:
  assumes "CHR '','' \<notin> set symbol"
  shows "parse_line (csv_row symbol symbol_id ltp lower upper) =
    Inr \<lparr>s_symbol = symbol, s_symbol_id = symbol_id, s_ltp = ltp, s_lower_limit = lower, s_upper_limit = upper\<rparr>"
  using assms by (simp add: parse_line_def csv_row_def getline_token_field dec_string_plain stoull_unat stoull_unat32 ucast_u32_u64)

lemma file_lines_row: "CHR 0x0A \<notin> set l \<Longrightarrow> file_lines (l @ CHR 0x0A # rest) = l # file_lines rest"
  by (induction l) auto

lemma csv_row_plain: "CHR 0x0A \<notin> set symbol \<Longrightarrow> CHR 0x0A \<notin> set (csv_row symbol symbol_id ltp lower upper)"
  using dec_string_plain(2) by (simp add: csv_row_def)

text \<open>A symbol name survives the file when it has neither a comma nor a newline.\<close>

definition plain_symbol :: "SymbolInfo \<Rightarrow> bool" where
  "plain_symbol s \<longleftrightarrow> CHR '','' \<notin> set (s_symbol s) \<and> CHR 0x0A \<notin> set (s_symbol s)"

lemma eod_info_symbol: "eod_info market_state s = Some i \<Longrightarrow> s_symbol i = s_symbol s"
  by (auto simp: eod_info_def Let_def split: if_splits)

lemma eod_rows_read:
  assumes "list_all plain_symbol symbols" "list_all (\<lambda>s. unat (s_symbol_id s) < length market_state) symbols"
  obtains rows where "eod_rows market_state symbols = Some rows"
    "parse_lines (file_lines rows) = Inr (map (\<lambda>s. the (eod_info market_state s)) symbols)"
  using assms
proof (induction symbols arbitrary: thesis)
  case (Cons s ss)
  obtain rows where rows: "eod_rows market_state ss = Some rows"
    "parse_lines (file_lines rows) = Inr (map (\<lambda>s. the (eod_info market_state s)) ss)"
    using Cons by auto
  obtain i where i: "eod_info market_state s = Some i" using Cons.prems by (simp add: eod_info_def Let_def)
  have plain: "CHR '','' \<notin> set (s_symbol i)" "CHR 0x0A \<notin> set (s_symbol i)"
    using Cons.prems(2) eod_info_symbol [OF i] by (simp_all add: plain_symbol_def)
  let ?row = "csv_row (s_symbol i) (s_symbol_id i) (s_ltp i) (s_lower_limit i) (s_upper_limit i)"
  have "parse_lines (file_lines (?row @ [CHR 0x0A] @ rows)) = Inr (map (\<lambda>s. the (eod_info market_state s)) (s # ss))"
    unfolding append_Cons append_Nil file_lines_row [OF csv_row_plain [OF plain(2)]]
    using plain(1) by (simp add: rows i parse_csv_row)
  then show ?case using Cons.prems(1) i rows(1) by simp
qed simp

section \<open>Properties of the symbol file\<close>



text \<open>
  The limits of the next day admit an order book and lie around the price: for a last price from 2 up to \<open>10^10\<close> nothing wraps
  around, the lower limit is positive and the price is a level of the book.
\<close>

theorem next_day_limits:
  assumes "2 \<le> ltp" "ltp \<le> 10000000000"
  shows "limits_ok (calculateLower ltp) (calculateUpper ltp) \<and> calculateLower ltp \<le> ltp \<and> ltp \<le> calculateUpper ltp"
proof -
  have n: "2 \<le> unat ltp" "unat ltp \<le> 10000000000" using assms by (simp_all add: word_le_nat_alt)
  have lo: "unat (calculateLower ltp) = unat ltp * 90 div 100" and up: "unat (calculateUpper ltp) = unat ltp * 110 div 100"
    using n by (simp_all add: calculateLower_def calculateUpper_def unat_div unat_word_ariths)
  show ?thesis using n unfolding limits_ok_def word_le_nat_alt word_less_nat_alt lo up by simp linarith
qed

theorem next_day_limits_witness: "limits_ok (calculateLower 15000) (calculateUpper 15000)"
  using next_day_limits [of 15000] by simp

end
