(* ===== verification/Oms.thy ===== *)
theory Oms
  imports Symbol_Loader Price_Heap
begin

text \<open>
  The order management system of \<^verbatim>\<open>src/src/oms.cpp\<close> and \<^verbatim>\<open>src/include/oms.h\<close>. It takes client orders from a
  queue, translates symbol names to ids, passes market and limit orders on to the engine, keeps stop-loss
  orders until the last traded price reaches them, and sends iceberg orders slice by slice as the
  trades report fills. The engine's side of a call to \<open>dispatch_order\<close> is the theory \<open>Dispatcher\<close>; here the orders
  handed to it are collected in \<open>oms_sent\<close>. The clock is a parameter: \<open>clk n\<close> is its \<open>n\<close>-th reading.
\<close>

section \<open>Data\<close>

datatype ClientOrderType = C_MARKET | C_LIMIT | C_STOP_LOSS | C_ICEBERG

text \<open>\<open>c_symbol\<close> is the \<open>char symbol[8]\<close> of the message, a C string.\<close>

record ClientOrder =
  c_client_order_id :: u64
  c_price :: u64
  c_trigger_price :: u64
  c_symbol :: "char list"
  c_symbol_id :: u32
  c_trader_id :: u64
  c_type :: OrderType
  c_quantity :: u32
  c_display_quantity :: u32
  c_filled_quantity :: u32
  c_execution_type :: ClientOrderType
  c_is_active :: bool

record StopLossContainer =
  sell_stops :: "ClientOrder list"
  buy_stops :: "ClientOrder list"

definition ICEBERG_BIT :: u64 where "ICEBERG_BIT = push_bit 63 1"

text \<open>
  The members of \<open>OrderManagementSystem\<close>, and the two that stand for its surroundings: the orders handed to the engine and
  the number of clock readings so far. The arrays are functions on their indices.
\<close>

record OrderManagementSystem =
  oms_shutdown :: bool
  symbolLookupTable :: "nat \<Rightarrow> u32"
  next_oms_order_id :: u64
  stop_loss_registry :: "nat \<Rightarrow> StopLossContainer"
  last_seen_price :: "nat \<Rightarrow> u64"
  active_icebergs :: "u64 \<rightharpoonup> ClientOrder"
  child_to_parent :: "u64 \<rightharpoonup> u64"
  incoming_orders :: "ClientOrder RingBuffer"
  next_child_order_id :: u64
  trade_consumers :: "trade_ring_buffer list"
  oms_sent :: "Order list"
  oms_ticks :: nat

text \<open>What \<open>operator[]\<close> of the hash map inserts for a missing key: a value-initialised order.\<close>

definition zero_client_order :: ClientOrder where
  "zero_client_order = \<lparr>c_client_order_id = 0, c_price = 0, c_trigger_price = 0, c_symbol = replicate 8 (CHR 0x00),
     c_symbol_id = 0, c_trader_id = 0, c_type = BUY, c_quantity = 0, c_display_quantity = 0, c_filled_quantity = 0,
     c_execution_type = C_MARKET, c_is_active = False\<rparr>"

section \<open>Symbols\<close>

text \<open>\<open>toupper\<close> of the C locale, on a signed \<open>char\<close>.\<close>

definition toupper_int :: "char \<Rightarrow> int" where
  "toupper_int c = (let n = of_char c in
     if 97 \<le> n \<and> n \<le> 122 then n - 32 else if 128 \<le> n then n - 256 else n)"

definition hash_char :: "string \<Rightarrow> nat \<Rightarrow> u32" where
  "hash_char symbol i = (if i < length symbol then word_of_int (toupper_int (symbol ! i) - 65 + 1) else 0)"

definition find_hash :: "string \<Rightarrow> u32" where
  "find_hash symbol = fold (\<lambda>i hash. push_bit 5 hash OR hash_char symbol i) [0..<4] 0"

definition find_id :: "OrderManagementSystem \<Rightarrow> string \<Rightarrow> u32" where
  "find_id s symbol = (let hash = find_hash symbol in
     if hash \<ge> 880000 then - 1 else symbolLookupTable s (unat hash))"

text \<open>The C string in a character array; \<open>None\<close> when there is no terminating zero (the read runs past the array).\<close>

definition c_str :: "char list \<Rightarrow> string option" where
  "c_str cs = (if CHR 0x00 \<in> set cs then Some (takeWhile (\<lambda>c. c \<noteq> CHR 0x00) cs) else None)"

text \<open>The constructor's table: \<open>-1\<close> everywhere, then the loaded symbols. A hash outside the table is written out of bounds.\<close>

fun fill_table :: "SymbolInfo list \<Rightarrow> (nat \<Rightarrow> u32) \<Rightarrow> (nat \<Rightarrow> u32) option" where
  "fill_table [] table = Some table"
| "fill_table (i # is) table = (let hash = unat (find_hash (s_symbol i)) in
     if hash < 880000 then fill_table is (table(hash := s_symbol_id i)) else None)"

text \<open>An exception of \<open>loadSymbolCSV\<close> leaves the constructor; \<open>boot_timestamp\<close> is the first reading of the clock.\<close>

definition OrderManagementSystem_new :: "(nat \<Rightarrow> u64) \<Rightarrow> ClientOrder \<Rightarrow> u64 \<Rightarrow> string option \<Rightarrow>
    (load_exn + OrderManagementSystem) option" where
  "OrderManagementSystem_new clk blank capacity symbols_csv = (case loadSymbolCSV symbols_csv of
     Inl e \<Rightarrow> Some (Inl e)
   | Inr symbol_data \<Rightarrow> (case fill_table symbol_data (\<lambda>_. - 1) of
       None \<Rightarrow> None
     | Some table \<Rightarrow> Some (Inr \<lparr>oms_shutdown = False, symbolLookupTable = table, next_oms_order_id = clk 0,
         stop_loss_registry = (\<lambda>_. \<lparr>sell_stops = [], buy_stops = []\<rparr>), last_seen_price = (\<lambda>_. 0),
         active_icebergs = Map.empty, child_to_parent = Map.empty, incoming_orders = RingBuffer_new capacity blank,
         next_child_order_id = ICEBERG_BIT OR 1,
         trade_consumers = map (\<lambda>i. trade_ring_buffer_new False (of_nat i)) [0..<GROUP_COUNT],
         oms_sent = [], oms_ticks = 1\<rparr>)))"

section \<open>Intake\<close>

definition enqueueClientOrder :: "OrderManagementSystem \<Rightarrow> ClientOrder \<Rightarrow> (OrderManagementSystem \<times> bool) option" where
  "enqueueClientOrder s order = do {
     (q, ok) \<leftarrow> RingBuffer_push (incoming_orders s) order;
     Some (s\<lparr>incoming_orders := q\<rparr>, ok)
   }"

definition oms_stop :: "OrderManagementSystem \<Rightarrow> OrderManagementSystem" where
  "oms_stop s = s\<lparr>oms_shutdown := True\<rparr>"

definition sendToEngine :: "OrderManagementSystem \<Rightarrow> Order \<Rightarrow> OrderManagementSystem" where
  "sendToEngine s order = s\<lparr>oms_sent := oms_sent s @ [order]\<rparr>"

text \<open>\<open>getCurrentTimestamp()\<close> and \<open>next_oms_order_id.fetch_add(1)\<close>.\<close>

definition getCurrentTimestamp :: "(nat \<Rightarrow> u64) \<Rightarrow> OrderManagementSystem \<Rightarrow> OrderManagementSystem \<times> u64" where
  "getCurrentTimestamp clk s = (s\<lparr>oms_ticks := oms_ticks s + 1\<rparr>, clk (oms_ticks s))"

definition fetch_order_id :: "OrderManagementSystem \<Rightarrow> OrderManagementSystem \<times> u64" where
  "fetch_order_id s = (s\<lparr>next_oms_order_id := next_oms_order_id s + 1\<rparr>, next_oms_order_id s)"

section \<open>Stop-loss orders\<close>

definition MaxTrigger :: "ClientOrder \<Rightarrow> ClientOrder \<Rightarrow> bool" where
  "MaxTrigger a b \<longleftrightarrow> c_trigger_price a < c_trigger_price b"

definition MinTrigger :: "ClientOrder \<Rightarrow> ClientOrder \<Rightarrow> bool" where
  "MinTrigger a b \<longleftrightarrow> c_trigger_price a > c_trigger_price b"

definition registerStopLoss :: "OrderManagementSystem \<Rightarrow> ClientOrder \<Rightarrow> OrderManagementSystem" where
  "registerStopLoss s sl =
     (let k = unat (c_symbol_id sl AND SYMBOL_MASK); container = stop_loss_registry s k;
          container' = (if c_type sl = BUY
            then container\<lparr>buy_stops := heap_push MinTrigger sl (buy_stops container)\<rparr>
            else container\<lparr>sell_stops := heap_push MaxTrigger sl (sell_stops container)\<rparr>)
      in s\<lparr>stop_loss_registry := (stop_loss_registry s)(k := container')\<rparr>)"

text \<open>The body of both loops of \<open>checkAndTriggerSL\<close>: the triggered order goes to the engine as a limit order.\<close>

definition trigger_order :: "(nat \<Rightarrow> u64) \<Rightarrow> OrderManagementSystem \<Rightarrow> ClientOrder \<Rightarrow> OrderManagementSystem option" where
  "trigger_order clk s c = do {
     symbol \<leftarrow> c_str (c_symbol c);
     let (s1, assigned_id) = fetch_order_id s;
     let (s2, ts) = getCurrentTimestamp clk s1;
     Some (sendToEngine s2 \<lparr>o_order_id = assigned_id, o_execution_type = LIMIT, o_price = c_price c, o_timestamp = ts,
       o_trader_id = c_trader_id c, o_type = c_type c, o_symbol_id = find_id s symbol, o_quantity = c_quantity c,
       o_client_order_id = c_client_order_id c\<rparr>)
   }"

text \<open>One \<open>while\<close> loop: as long as the front of the heap fires, it is popped and sent.\<close>

fun trigger_loop :: "(nat \<Rightarrow> u64) \<Rightarrow> (ClientOrder \<Rightarrow> bool) \<Rightarrow> OrderManagementSystem \<Rightarrow> ClientOrder list \<Rightarrow>
    (OrderManagementSystem \<times> ClientOrder list) option" where
  "trigger_loop clk fires s [] = Some (s, [])"
| "trigger_loop clk fires s (c # cs) = (if fires c then do {
       s1 \<leftarrow> trigger_order clk s c;
       trigger_loop clk fires s1 cs
     } else Some (s, c # cs))"

definition checkAndTriggerSL :: "(nat \<Rightarrow> u64) \<Rightarrow> OrderManagementSystem \<Rightarrow> nat \<Rightarrow> u64 \<Rightarrow> OrderManagementSystem option" where
  "checkAndTriggerSL clk s sym_id current_ltp = do {
     let container = stop_loss_registry s sym_id;
     (s1, sells) \<leftarrow> trigger_loop clk (\<lambda>c. current_ltp \<le> c_trigger_price c) s (sell_stops container);
     (s2, buys) \<leftarrow> trigger_loop clk (\<lambda>c. current_ltp \<ge> c_trigger_price c) s1 (buy_stops container);
     Some (s2\<lparr>stop_loss_registry := (stop_loss_registry s2)(sym_id := \<lparr>sell_stops = sells, buy_stops = buys\<rparr>)\<rparr>)
   }"

section \<open>Iceberg orders\<close>

definition iceberg_parent :: "OrderManagementSystem \<Rightarrow> u64 \<Rightarrow> ClientOrder" where
  "iceberg_parent s parent_id = (case active_icebergs s parent_id of Some p \<Rightarrow> p | None \<Rightarrow> zero_client_order)"

definition send_slice :: "(nat \<Rightarrow> u64) \<Rightarrow> OrderManagementSystem \<Rightarrow> u64 \<Rightarrow> OrderManagementSystem" where
  "send_slice clk s0 parent_id =
     (let parent = iceberg_parent s0 parent_id;
          s = s0\<lparr>active_icebergs := (active_icebergs s0)(parent_id \<mapsto> parent)\<rparr> in
      if \<not> c_is_active parent then s
      else let remaining = c_quantity parent - c_filled_quantity parent in
      if remaining = 0
      then s\<lparr>active_icebergs := (active_icebergs s)(parent_id \<mapsto> parent\<lparr>c_is_active := False\<rparr>)\<rparr>
      else let slice_qty = min (c_display_quantity parent) remaining;
               child_id = next_child_order_id s;
               s1 = s\<lparr>next_child_order_id := child_id + 1, child_to_parent := (child_to_parent s)(child_id \<mapsto> parent_id)\<rparr>;
               (s2, ts) = getCurrentTimestamp clk s1
           in sendToEngine s2 \<lparr>o_order_id = child_id, o_execution_type = LIMIT, o_price = c_price parent, o_timestamp = ts,
                o_trader_id = c_trader_id parent, o_type = c_type parent, o_symbol_id = c_symbol_id parent,
                o_quantity = slice_qty, o_client_order_id = child_id\<rparr>)"

text \<open>One leg of a trade; \<open>None\<close> is the division by a display quantity of zero.\<close>

definition process_iceberg_leg :: "(nat \<Rightarrow> u64) \<Rightarrow> OrderManagementSystem \<Rightarrow> u64 \<Rightarrow> u32 \<Rightarrow> OrderManagementSystem option" where
  "process_iceberg_leg clk s child_id traded_qty = (case child_to_parent s child_id of
     None \<Rightarrow> Some s
   | Some parent_id \<Rightarrow>
       (let p0 = iceberg_parent s parent_id;
            parent = p0\<lparr>c_filled_quantity := c_filled_quantity p0 + traded_qty\<rparr>;
            s1 = s\<lparr>active_icebergs := (active_icebergs s)(parent_id \<mapsto> parent)\<rparr> in
        if c_display_quantity parent = 0 then None
        else if c_filled_quantity parent mod c_display_quantity parent = 0 \<or> c_filled_quantity parent = c_quantity parent
        then Some (send_slice clk (s1\<lparr>child_to_parent := (child_to_parent s1)(child_id := None)\<rparr>) parent_id)
        else Some s1))"

definition check_fill :: "(nat \<Rightarrow> u64) \<Rightarrow> OrderManagementSystem \<Rightarrow> Trade \<Rightarrow> OrderManagementSystem option" where
  "check_fill clk s trade =
     (if t_buy_order_id trade AND ICEBERG_BIT = 0 \<and> t_sell_order_id trade AND ICEBERG_BIT = 0 then Some s
      else do {
        s1 \<leftarrow> (if t_buy_order_id trade AND ICEBERG_BIT \<noteq> 0
               then process_iceberg_leg clk s (t_buy_order_id trade) (t_quantity trade) else Some s);
        (if t_sell_order_id trade AND ICEBERG_BIT \<noteq> 0
         then process_iceberg_leg clk s1 (t_sell_order_id trade) (t_quantity trade) else Some s1)
      })"

section \<open>The loop\<close>

text \<open>
  The first half of a pass. \<open>out\<close> is the uninitialised \<open>InternalOrder\<close> of the loop body: a market order never
  sets its price.
\<close>

definition handle_market :: "(nat \<Rightarrow> u64) \<Rightarrow> Order \<Rightarrow> OrderManagementSystem \<Rightarrow> ClientOrder \<Rightarrow> OrderManagementSystem" where
  "handle_market clk out s new_order =
     (let (s1, assigned_id) = fetch_order_id s; (s2, ts) = getCurrentTimestamp clk s1 in
      sendToEngine s2 (out\<lparr>o_order_id := assigned_id, o_execution_type := MARKET,
        o_client_order_id := c_client_order_id new_order, o_quantity := c_quantity new_order,
        o_symbol_id := c_symbol_id new_order, o_timestamp := ts, o_trader_id := c_trader_id new_order,
        o_type := c_type new_order\<rparr>))"

definition handle_limit :: "(nat \<Rightarrow> u64) \<Rightarrow> Order \<Rightarrow> OrderManagementSystem \<Rightarrow> ClientOrder \<Rightarrow> OrderManagementSystem" where
  "handle_limit clk out s new_order = (if c_price new_order \<noteq> 0 then
     (let (s1, assigned_id) = fetch_order_id s; (s2, ts) = getCurrentTimestamp clk s1 in
      sendToEngine s2 (out\<lparr>o_order_id := assigned_id, o_execution_type := LIMIT,
        o_client_order_id := c_client_order_id new_order, o_quantity := c_quantity new_order,
        o_symbol_id := c_symbol_id new_order, o_timestamp := ts, o_trader_id := c_trader_id new_order,
        o_type := c_type new_order, o_price := c_price new_order\<rparr>))
     else s)"

definition handle_client_order :: "(nat \<Rightarrow> u64) \<Rightarrow> Order \<Rightarrow> OrderManagementSystem \<Rightarrow> ClientOrder \<Rightarrow> OrderManagementSystem option" where
  "handle_client_order clk out s order = do {
     symbol \<leftarrow> c_str (c_symbol order);
     let new_order = order\<lparr>c_symbol_id := find_id s symbol\<rparr>;
     if c_symbol_id new_order \<noteq> - 1 then
       Some (case c_execution_type new_order of
         C_ICEBERG \<Rightarrow> send_slice clk
           (s\<lparr>active_icebergs := (active_icebergs s)(c_client_order_id new_order \<mapsto> new_order)\<rparr>) (c_client_order_id new_order)
       | C_STOP_LOSS \<Rightarrow> registerStopLoss s new_order
       | C_MARKET \<Rightarrow> handle_market clk out s new_order
       | C_LIMIT \<Rightarrow> handle_limit clk out s new_order)
     else Some s
   }"

text \<open>
  The poll of one trade ring. \<open>None\<close> is a loop that does not end (the ring being fixed while this thread reads
  it) or a \<open>get_trade\<close> that waits for the producer.
\<close>

partial_function (option) poll_trades :: "(nat \<Rightarrow> u64) \<Rightarrow> trade_ring \<Rightarrow> trade_ring_buffer \<Rightarrow> OrderManagementSystem \<Rightarrow>
    (trade_ring_buffer \<times> OrderManagementSystem) option" where
  "poll_trades clk ring h s = (if any_new_trade ring h then do {
       (h1, t) \<leftarrow> get_trade ring h;
       s1 \<leftarrow> check_fill clk s t;
       poll_trades clk ring h1 s1
     } else Some (h, s))"

fun poll_groups :: "(nat \<Rightarrow> u64) \<Rightarrow> (nat \<Rightarrow> trade_ring) \<Rightarrow> nat list \<Rightarrow> OrderManagementSystem \<Rightarrow> OrderManagementSystem option" where
  "poll_groups clk rings [] s = Some s"
| "poll_groups clk rings (i # is) s = (if i < length (trade_consumers s) then do {
       (h, s1) \<leftarrow> poll_trades clk (rings i) (trade_consumers s ! i) s;
       poll_groups clk rings is (s1\<lparr>trade_consumers := (trade_consumers s1)[i := h]\<rparr>)
     } else None)"

fun scan_ltp :: "(nat \<Rightarrow> u64) \<Rightarrow> MarketState \<Rightarrow> nat list \<Rightarrow> OrderManagementSystem \<Rightarrow> OrderManagementSystem option" where
  "scan_ltp clk last_price [] s = Some s"
| "scan_ltp clk last_price (i # is) s = (if i < length last_price then
     (let current_ltp = last_price ! i in
      if current_ltp \<noteq> last_seen_price s i then do {
        s1 \<leftarrow> checkAndTriggerSL clk s i current_ltp;
        scan_ltp clk last_price is (s1\<lparr>last_seen_price := (last_seen_price s1)(i := current_ltp)\<rparr>)
      } else scan_ltp clk last_price is s)
     else None)"

text \<open>
  One pass of \<open>listenForClientOrder\<close>; \<open>shared_memory\<close> is \<open>None\<close> when the constructor could not map the prices.
\<close>

definition oms_pass :: "(nat \<Rightarrow> u64) \<Rightarrow> Order \<Rightarrow> (nat \<Rightarrow> trade_ring) \<Rightarrow> MarketState option \<Rightarrow> OrderManagementSystem \<Rightarrow>
    OrderManagementSystem option" where
  "oms_pass clk out rings shared_memory s = (if oms_shutdown s then Some s else do {
     (q, msg) \<leftarrow> RingBuffer_pop (incoming_orders s);
     let s1 = s\<lparr>incoming_orders := q\<rparr>;
     s2 \<leftarrow> (case msg of None \<Rightarrow> Some s1 | Some new_order \<Rightarrow> handle_client_order clk out s1 new_order);
     s3 \<leftarrow> poll_groups clk rings [0..<GROUP_COUNT] s2;
     (case shared_memory of None \<Rightarrow> Some s3 | Some last_price \<Rightarrow> scan_ltp clk last_price [0..<MAX_SYMBOLS] s3)
   })"

end
