(* ===== verification/Oms_Run.thy ===== *)
theory Oms_Run
  imports Oms "HOL-Library.Sublist"
begin

text \<open>
  Runs of the order management system as a state machine: the constructor, then client threads that enqueue, passes
  of the loop with whatever the trade rings and the shared prices hold at the time, and \<open>stop\<close>. The locale \<open>oms_invariant\<close> states what an
  invariant has to withstand (one assumption per primitive step of the loop) and lifts it to every
  reachable state; it is interpreted for the ids and for the contents of the orders sent.
\<close>

section \<open>Frames\<close>

text \<open>What the steps of a pass leave alone.\<close>

lemma oms_frame [simp]:
  "symbolLookupTable (sendToEngine s o1) = symbolLookupTable s"
  "stop_loss_registry (sendToEngine s o1) = stop_loss_registry s"
  "next_oms_order_id (sendToEngine s o1) = next_oms_order_id s"
  "next_child_order_id (sendToEngine s o1) = next_child_order_id s"
  "active_icebergs (sendToEngine s o1) = active_icebergs s"
  "child_to_parent (sendToEngine s o1) = child_to_parent s"
  "incoming_orders (sendToEngine s o1) = incoming_orders s"
  "trade_consumers (sendToEngine s o1) = trade_consumers s"
  "last_seen_price (sendToEngine s o1) = last_seen_price s"
  "oms_shutdown (sendToEngine s o1) = oms_shutdown s"
  "oms_sent (sendToEngine s o1) = oms_sent s @ [o1]"
  by (simp_all add: sendToEngine_def)

lemma trigger_order_cases:
  assumes "trigger_order clk s c = Some s'"
  obtains symbol where "c_str (c_symbol c) = Some symbol"
    "s' = sendToEngine (s\<lparr>next_oms_order_id := next_oms_order_id s + 1, oms_ticks := oms_ticks s + 1\<rparr>)
      \<lparr>o_order_id = next_oms_order_id s, o_execution_type = LIMIT, o_price = c_price c, o_timestamp = clk (oms_ticks s),
       o_trader_id = c_trader_id c, o_type = c_type c, o_symbol_id = find_id s symbol, o_quantity = c_quantity c,
       o_client_order_id = c_client_order_id c\<rparr>"
  using assms
  by (cases "c_str (c_symbol c)") (auto simp: trigger_order_def fetch_order_id_def getCurrentTimestamp_def)

lemma trigger_order_frame:
  assumes "trigger_order clk s c = Some s'"
  shows "stop_loss_registry s' = stop_loss_registry s" "symbolLookupTable s' = symbolLookupTable s"
    "last_seen_price s' = last_seen_price s"
  by (rule trigger_order_cases [OF assms]; simp)+

lemma trigger_loop_Cons:
  assumes "trigger_loop clk fires s (c # cs) = Some (s', rest)"
  obtains (fired) s1 where "fires c" "trigger_order clk s c = Some s1" "trigger_loop clk fires s1 cs = Some (s', rest)"
  | (kept) "\<not> fires c" "s' = s" "rest = c # cs"
  using assms by (auto split: if_splits bind_splits)

lemma trigger_loop_frame:
  "trigger_loop clk fires s cs = Some (s', rest) \<Longrightarrow> stop_loss_registry s' = stop_loss_registry s \<and>
    symbolLookupTable s' = symbolLookupTable s \<and> last_seen_price s' = last_seen_price s"
proof (induction cs arbitrary: s)
  case (Cons c cs)
  from Cons.prems show ?case
  proof (cases rule: trigger_loop_Cons)
    case (fired s1)
    then show ?thesis using Cons.IH [OF fired(3)] trigger_order_frame [OF fired(2)] by simp
  qed simp
qed simp

lemma poll_trades_keeps:
  assumes step: "\<And>s t s'. Q s \<Longrightarrow> check_fill clk s t = Some s' \<Longrightarrow> Q s'"
    and run: "poll_trades clk ring h s = Some r" and "Q s"
  shows "Q (snd r)"
proof -
  have "clk' = clk \<longrightarrow> Q s \<longrightarrow> Q (snd r)" if "poll_trades clk' ring h s = Some r" for clk' ring h s r
    using that
  proof (rule poll_trades.raw_induct [rotated])
    fix f clk' ring h s r
    assume IH: "\<And>clk' ring h s r. f clk' ring h s = Some r \<Longrightarrow> clk' = clk \<longrightarrow> Q s \<longrightarrow> Q (snd r)"
      and body: "(if any_new_trade ring h then get_trade ring h \<bind> (\<lambda>(h1, t). check_fill clk' s t \<bind> f clk' ring h1)
        else Some (h, s)) = Some r"
    show "clk' = clk \<longrightarrow> Q s \<longrightarrow> Q (snd r)"
      proof (cases "any_new_trade ring h")
      case True
      then obtain h1 t s1 where "check_fill clk' s t = Some s1" "f clk' ring h1 s1 = Some r"
        using body by (auto split: bind_splits)
      then show ?thesis using step IH by blast
    qed (use body in auto)
  qed
  then show ?thesis using run assms(3) by blast
qed

section \<open>Invariants of the loop\<close>

definition admitted :: "OrderManagementSystem \<Rightarrow> ClientOrder \<Rightarrow> bool" where
  "admitted s c \<longleftrightarrow> c_symbol_id c \<noteq> - 1 \<and> (\<exists>symbol. c_str (c_symbol c) = Some symbol \<and> c_symbol_id c = find_id s symbol)"

definition stops_at :: "OrderManagementSystem \<Rightarrow> nat \<Rightarrow> ClientOrder set" where
  "stops_at s k = set (sell_stops (stop_loss_registry s k)) \<union> set (buy_stops (stop_loss_registry s k))"

locale oms_kept =
  fixes clk :: "nat \<Rightarrow> u64"
    and accept :: "ClientOrder \<Rightarrow> bool"
    and I :: "OrderManagementSystem \<Rightarrow> bool"
  assumes accept_symbol: "accept (c\<lparr>c_symbol_id := x\<rparr>) = accept c"
    and I_market: "I s \<Longrightarrow> admitted s c \<Longrightarrow> accept c \<Longrightarrow> I (handle_market clk out s c)"
    and I_limit: "I s \<Longrightarrow> admitted s c \<Longrightarrow> accept c \<Longrightarrow> I (handle_limit clk out s c)"
    and I_stop_loss: "I s \<Longrightarrow> admitted s c \<Longrightarrow> accept c \<Longrightarrow> I (registerStopLoss s c)"
    and I_iceberg: "I s \<Longrightarrow> admitted s c \<Longrightarrow> accept c \<Longrightarrow> c_execution_type c = C_ICEBERG \<Longrightarrow>
      I (s\<lparr>active_icebergs := (active_icebergs s)(c_client_order_id c \<mapsto> c)\<rparr>)"
    and I_slice: "I s \<Longrightarrow> I (send_slice clk s p)"
    and I_trigger: "I s \<Longrightarrow> c \<in> stops_at s k \<Longrightarrow> trigger_order clk s c = Some s' \<Longrightarrow> I s'"
    and I_stops: "I s \<Longrightarrow> suffix sells (sell_stops (stop_loss_registry s k)) \<Longrightarrow>
      suffix buys (buy_stops (stop_loss_registry s k)) \<Longrightarrow>
      I (s\<lparr>stop_loss_registry := (stop_loss_registry s)(k := \<lparr>sell_stops = sells, buy_stops = buys\<rparr>)\<rparr>)"
    and I_filled: "I s \<Longrightarrow> I (s\<lparr>active_icebergs := (active_icebergs s)(p \<mapsto> (iceberg_parent s p)\<lparr>c_filled_quantity := f\<rparr>)\<rparr>)"
    and I_erase: "I s \<Longrightarrow> I (s\<lparr>child_to_parent := (child_to_parent s)(child := None)\<rparr>)"
    and I_rest: "I (s\<lparr>trade_consumers := hs\<rparr>) = I s"
      "I (s\<lparr>last_seen_price := l\<rparr>) = I s" "I (s\<lparr>oms_shutdown := b\<rparr>) = I s"
begin

lemma I_trigger_loop:
  "I s \<Longrightarrow> set cs \<subseteq> stops_at s k \<Longrightarrow> trigger_loop clk fires s cs = Some (s', rest) \<Longrightarrow> I s' \<and> suffix rest cs"
proof (induction cs arbitrary: s)
  case (Cons c cs)
  from Cons.prems(3) show ?case
  proof (cases rule: trigger_loop_Cons)
    case (fired s1)
    then have "set cs \<subseteq> stops_at s1 k" using Cons.prems(2) trigger_order_frame [OF fired(2)] by (auto simp: stops_at_def)
    moreover have "I s1" using I_trigger [OF Cons.prems(1) _ fired(2)] Cons.prems(2) by auto
    ultimately show ?thesis using Cons.IH fired(3) by (auto intro: suffix_ConsI)
  qed (use Cons in auto)
qed simp

lemma I_check:
  assumes "I s" "checkAndTriggerSL clk s k ltp = Some s'" shows "I s'"
proof -
  obtain s1 sells s2 buys where
    s1: "trigger_loop clk (\<lambda>c. ltp \<le> c_trigger_price c) s (sell_stops (stop_loss_registry s k)) = Some (s1, sells)"
    and s2: "trigger_loop clk (\<lambda>c. ltp \<ge> c_trigger_price c) s1 (buy_stops (stop_loss_registry s k)) = Some (s2, buys)"
    and s': "s' = s2\<lparr>stop_loss_registry := (stop_loss_registry s2)(k := \<lparr>sell_stops = sells, buy_stops = buys\<rparr>)\<rparr>"
    using assms(2) by (auto simp: checkAndTriggerSL_def Let_def split: bind_splits)
  have r1: "stop_loss_registry s1 = stop_loss_registry s" and r2: "stop_loss_registry s2 = stop_loss_registry s1"
    using trigger_loop_frame [OF s1] trigger_loop_frame [OF s2] by simp_all
  have 1: "I s1 \<and> suffix sells (sell_stops (stop_loss_registry s k))"
    by (rule I_trigger_loop [OF assms(1) _ s1, where k = k]) (simp add: stops_at_def)
  have 2: "I s2 \<and> suffix buys (buy_stops (stop_loss_registry s k))"
    by (rule I_trigger_loop [OF conjunct1 [OF 1] _ s2, where k = k]) (simp add: stops_at_def r1)
  show ?thesis unfolding s' using 1 2 by (intro I_stops) (simp_all add: r1 r2)
qed

lemma I_leg:
  assumes "I s" "process_iceberg_leg clk s child q = Some s'" shows "I s'"
proof (cases "child_to_parent s child")
  case (Some p)
  let ?s1 = "s\<lparr>active_icebergs := (active_icebergs s)(p \<mapsto> (iceberg_parent s p)\<lparr>c_filled_quantity :=
    c_filled_quantity (iceberg_parent s p) + q\<rparr>)\<rparr>"
  have "I ?s1" by (rule I_filled [OF assms(1)])
  moreover have "I (send_slice clk (?s1\<lparr>child_to_parent := (child_to_parent ?s1)(child := None)\<rparr>) p)"
    by (rule I_slice [OF I_erase [OF \<open>I ?s1\<close>]])
  ultimately show ?thesis using assms(2) Some by (auto simp: process_iceberg_leg_def Let_def split: if_splits)
qed (use assms in \<open>simp add: process_iceberg_leg_def\<close>)

lemma I_check_fill: "I s \<Longrightarrow> check_fill clk s t = Some s' \<Longrightarrow> I s'"
  using I_leg by (auto simp: check_fill_def split: if_splits bind_splits) blast

lemma I_poll_groups: "I s \<Longrightarrow> poll_groups clk rings js s = Some s' \<Longrightarrow> I s'"
proof (induction js arbitrary: s)
  case (Cons j js)
  obtain h s1 where 1: "poll_trades clk (rings j) (trade_consumers s ! j) s = Some (h, s1)"
    and 2: "poll_groups clk rings js (s1\<lparr>trade_consumers := (trade_consumers s1)[j := h]\<rparr>) = Some s'"
    using Cons.prems(2) by (auto split: if_splits bind_splits)
  have "I (snd (h, s1))" by (rule poll_trades_keeps [where Q = I, OF I_check_fill 1 Cons.prems(1)])
  then show ?case using Cons.IH [OF _ 2] I_rest(1) by simp
qed simp

lemma I_scan: "I s \<Longrightarrow> scan_ltp clk last_price js s = Some s' \<Longrightarrow> I s'"
proof (induction js arbitrary: s)
  case (Cons j js)
  show ?case
  proof (cases "last_price ! j = last_seen_price s j")
    case True
    then show ?thesis using Cons by (auto simp: Let_def split: if_splits)
  next
    case False
    then obtain s1 where 1: "checkAndTriggerSL clk s j (last_price ! j) = Some s1"
      and 2: "scan_ltp clk last_price js (s1\<lparr>last_seen_price := (last_seen_price s1)(j := last_price ! j)\<rparr>) = Some s'"
      using Cons.prems(2) by (auto simp: Let_def split: if_splits bind_splits)
    show ?thesis using Cons.IH [OF _ 2] I_check [OF Cons.prems(1) 1] I_rest(2) by simp
  qed
qed simp

lemma I_handle:
  assumes "I s" "accept c" "handle_client_order clk out s c = Some s'" shows "I s'"
proof -
  obtain symbol where sym: "c_str (c_symbol c) = Some symbol" using assms(3) by (auto simp: handle_client_order_def split: bind_splits)
  define n where "n = c\<lparr>c_symbol_id := find_id s symbol\<rparr>"
  show ?thesis
  proof (cases "c_symbol_id n = - 1")
    case True
    then show ?thesis using assms sym by (simp add: handle_client_order_def n_def)
  next
    case False
    have n: "admitted s n" "accept n" using False sym assms(2) accept_symbol by (auto simp: admitted_def n_def)
    have s': "s' = (case c_execution_type n of
         C_ICEBERG \<Rightarrow> send_slice clk
           (s\<lparr>active_icebergs := (active_icebergs s)(c_client_order_id n \<mapsto> n)\<rparr>) (c_client_order_id n)
       | C_STOP_LOSS \<Rightarrow> registerStopLoss s n | C_MARKET \<Rightarrow> handle_market clk out s n | C_LIMIT \<Rightarrow> handle_limit clk out s n)"
      using False assms(3) sym by (cases "c_execution_type c") (simp_all add: handle_client_order_def n_def Let_def)
    show ?thesis
      unfolding s' using I_market [OF assms(1) n] I_limit [OF assms(1) n] I_stop_loss [OF assms(1) n]
        I_slice [OF I_iceberg [OF assms(1) n]] by (cases "c_execution_type n") simp_all
  qed
qed

end

text \<open>The queue of incoming orders is touched by \<open>enqueueClientOrder\<close> and the \<open>pop\<close> at the head of the loop only.\<close>

lemma oms_queue_frame [simp]:
  "incoming_orders (handle_market clk out s c) = incoming_orders s"
  "incoming_orders (handle_limit clk out s c) = incoming_orders s"
  "incoming_orders (registerStopLoss s c) = incoming_orders s"
  "incoming_orders (send_slice clk s p) = incoming_orders s"
  by (simp_all add: handle_market_def handle_limit_def registerStopLoss_def send_slice_def fetch_order_id_def
      getCurrentTimestamp_def Let_def)

lemma trigger_order_queue: "trigger_order clk s c = Some s' \<Longrightarrow> incoming_orders s' = incoming_orders s"
  by (erule trigger_order_cases) simp

interpretation queue_kept: oms_kept clk "\<lambda>_. True" "\<lambda>s. incoming_orders s = q" for clk q
  by unfold_locales (simp_all add: trigger_order_queue)

section \<open>Reachable states\<close>

inductive oms_reach :: "(nat \<Rightarrow> u64) \<Rightarrow> (ClientOrder \<Rightarrow> bool) \<Rightarrow> OrderManagementSystem \<Rightarrow> OrderManagementSystem \<Rightarrow> bool"
  for clk accept s0 where
  start: "oms_reach clk accept s0 s0"
| enqueue: "oms_reach clk accept s0 s \<Longrightarrow> accept c \<Longrightarrow> enqueueClientOrder s c = Some (s', ok) \<Longrightarrow> oms_reach clk accept s0 s'"
| pass: "oms_reach clk accept s0 s \<Longrightarrow> oms_pass clk out rings mem s = Some s' \<Longrightarrow> oms_reach clk accept s0 s'"
| stop: "oms_reach clk accept s0 s \<Longrightarrow> oms_reach clk accept s0 (oms_stop s)"

definition oms_ok :: "(ClientOrder \<Rightarrow> bool) \<Rightarrow> (OrderManagementSystem \<Rightarrow> bool) \<Rightarrow> OrderManagementSystem \<Rightarrow> bool" where
  "oms_ok accept I s \<longleftrightarrow> I s \<and> rb_inv (incoming_orders s) \<and> (\<forall>c \<in> set (rb_contents (incoming_orders s)). accept c)"

locale oms_invariant = oms_kept +
  assumes I_queue: "I (s\<lparr>incoming_orders := q\<rparr>) = I s"
begin

lemma ok_pass:
  assumes "oms_ok accept I s" "oms_pass clk out rings mem s = Some s'" shows "oms_ok accept I s'"
proof (cases "oms_shutdown s")
  case False
  obtain q msg where q: "RingBuffer_pop (incoming_orders s) = Some (q, msg)" "rb_inv q"
    "rb_contents (incoming_orders s) = (case msg of None \<Rightarrow> [] | Some y \<Rightarrow> [y]) @ rb_contents q"
    using rb.pop_total [of "incoming_orders s"] assms(1) unfolding oms_ok_def by metis
  obtain s2 s3 where
    2: "(case msg of None \<Rightarrow> Some (s\<lparr>incoming_orders := q\<rparr>)
      | Some c \<Rightarrow> handle_client_order clk out (s\<lparr>incoming_orders := q\<rparr>) c) = Some s2"
    and 3: "poll_groups clk rings [0..<GROUP_COUNT] s2 = Some s3"
    and 4: "(case mem of None \<Rightarrow> Some s3 | Some l \<Rightarrow> scan_ltp clk l [0..<MAX_SYMBOLS] s3) = Some s'"
    using assms(2) False q(1) by (auto simp: oms_pass_def Let_def split: bind_splits)
  have "I (s\<lparr>incoming_orders := q\<rparr>)" using assms(1) I_queue by (simp add: oms_ok_def)
  then have I2: "I s2" and q2: "incoming_orders s2 = q"
    using 2 assms(1) q(3) I_handle queue_kept.I_handle [of "s\<lparr>incoming_orders := q\<rparr>" q]
    by (auto simp: oms_ok_def split: option.splits)
  have I3: "I s3" "incoming_orders s3 = q" using I_poll_groups [OF I2 3] queue_kept.I_poll_groups [OF q2 3] by simp_all
  have "I s'" "incoming_orders s' = q"
    using 4 I3 I_scan [OF I3(1)] queue_kept.I_scan [OF I3(2)] by (auto split: option.splits)
  then show ?thesis using assms(1) q by (auto simp: oms_ok_def)
qed (use assms in \<open>simp add: oms_pass_def\<close>)

lemma ok_enqueue:
  assumes "oms_ok accept I s" "accept c" "enqueueClientOrder s c = Some (s', b)" shows "oms_ok accept I s'"
proof -
  obtain q ok' where "RingBuffer_push (incoming_orders s) c = Some (q, ok')" "rb_inv q"
    "rb_contents q = (if ok' then rb_contents (incoming_orders s) @ [c] else rb_contents (incoming_orders s))"
    using rb.push_total [of "incoming_orders s" c] assms(1) unfolding oms_ok_def by metis
  then show ?thesis using assms I_queue by (auto simp: oms_ok_def enqueueClientOrder_def)
qed

lemma reach_ok: "oms_reach clk accept s0 s \<Longrightarrow> oms_ok accept I s0 \<Longrightarrow> oms_ok accept I s"
proof (induction rule: oms_reach.induct)
  case (stop s)
  then show ?case using I_rest(3) by (simp add: oms_ok_def oms_stop_def)
qed (use ok_enqueue ok_pass in blast)+

end

section \<open>The ids of the orders sent\<close>

text \<open>
  Client orders take their ids from the boot time upward, slices from \<open>2^63 + 1\<close> upward. As long as the counters stay in
  their halves, no id is used twice.
\<close>

definition ids_inv :: "u64 \<Rightarrow> OrderManagementSystem \<Rightarrow> bool" where
  "ids_inv boot s \<longleftrightarrow> (unat boot + length (oms_sent s) < 2 ^ 63 - 1 \<longrightarrow>
     unat boot \<le> unat (next_oms_order_id s) \<and> unat (next_oms_order_id s) \<le> unat boot + length (oms_sent s) \<and>
     2 ^ 63 < unat (next_child_order_id s) \<and> unat (next_child_order_id s) \<le> 2 ^ 63 + 1 + length (oms_sent s) \<and>
     distinct (map o_order_id (oms_sent s)) \<and>
     (\<forall>x \<in> o_order_id ` set (oms_sent s). x < next_oms_order_id s \<or> ICEBERG_BIT < x \<and> x < next_child_order_id s))"

lemma unat_ICEBERG_BIT: "unat ICEBERG_BIT = 2 ^ 63"
  by (simp add: ICEBERG_BIT_def)

lemma ids_inv_send:
  assumes "ids_inv boot s" "oms_sent s' = oms_sent s @ [x]"
    "o_order_id x = next_oms_order_id s \<and> next_oms_order_id s' = next_oms_order_id s + 1 \<and> next_child_order_id s' = next_child_order_id s \<or>
     o_order_id x = next_child_order_id s \<and> next_child_order_id s' = next_child_order_id s + 1 \<and> next_oms_order_id s' = next_oms_order_id s"
  shows "ids_inv boot s'"
  unfolding ids_inv_def
proof (intro impI)
  let ?n = "length (oms_sent s)"
  assume "unat boot + length (oms_sent s') < 2 ^ 63 - 1"
  then have b: "unat boot + ?n + 1 < 2 ^ 63 - 1" using assms(2) by simp
  have i: "unat boot \<le> unat (next_oms_order_id s)" "unat (next_oms_order_id s) \<le> unat boot + ?n"
     "2 ^ 63 < unat (next_child_order_id s)" "unat (next_child_order_id s) \<le> 2 ^ 63 + 1 + ?n"
     "distinct (map o_order_id (oms_sent s))"
     and ids: "\<forall>x \<in> o_order_id ` set (oms_sent s). x < next_oms_order_id s \<or> ICEBERG_BIT < x \<and> x < next_child_order_id s"
    using assms(1) b by (simp_all add: ids_inv_def)
  have n1: "unat (next_oms_order_id s + 1) = unat (next_oms_order_id s) + 1"
    and n2: "unat (next_child_order_id s + 1) = unat (next_child_order_id s) + 1"
    using i b by (subst unat_Suc_word; simp)+
  have old: "unat y < unat (next_oms_order_id s) \<or> 2 ^ 63 < unat y \<and> unat y < unat (next_child_order_id s)"
    if "y \<in> o_order_id ` set (oms_sent s)" for y
    using ids that by (auto simp: word_less_nat_alt unat_ICEBERG_BIT)
  have fresh: "o_order_id x \<notin> o_order_id ` set (oms_sent s)" using old [of "o_order_id x"] assms(3) i b by auto
  show "unat boot \<le> unat (next_oms_order_id s') \<and> unat (next_oms_order_id s') \<le> unat boot + length (oms_sent s') \<and>
     2 ^ 63 < unat (next_child_order_id s') \<and> unat (next_child_order_id s') \<le> 2 ^ 63 + 1 + length (oms_sent s') \<and>
     distinct (map o_order_id (oms_sent s')) \<and>
     (\<forall>x \<in> o_order_id ` set (oms_sent s'). x < next_oms_order_id s' \<or> ICEBERG_BIT < x \<and> x < next_child_order_id s')"
    using assms(2,3) i n1 n2 fresh ids by (auto simp: word_less_nat_alt unat_ICEBERG_BIT dest!: old)
qed

lemma ids_inv_frame [simp]:
  "ids_inv boot (s\<lparr>active_icebergs := m\<rparr>) = ids_inv boot s" "ids_inv boot (s\<lparr>child_to_parent := cp\<rparr>) = ids_inv boot s"
  "ids_inv boot (s\<lparr>stop_loss_registry := r\<rparr>) = ids_inv boot s" "ids_inv boot (s\<lparr>last_seen_price := l\<rparr>) = ids_inv boot s"
  "ids_inv boot (s\<lparr>incoming_orders := q\<rparr>) = ids_inv boot s" "ids_inv boot (s\<lparr>trade_consumers := hs\<rparr>) = ids_inv boot s"
  "ids_inv boot (s\<lparr>oms_shutdown := b\<rparr>) = ids_inv boot s"
  by (simp_all add: ids_inv_def)

text \<open>The three outcomes of \<open>send_slice\<close>.\<close>

lemma send_slice_cases:
  obtains (idle) p where "p = iceberg_parent s i" "\<not> c_is_active p" "send_slice clk s i = s\<lparr>active_icebergs := (active_icebergs s)(i \<mapsto> p)\<rparr>"
  | (finished) p where "p = iceberg_parent s i" "c_is_active p" "c_quantity p = c_filled_quantity p"
      "send_slice clk s i = s\<lparr>active_icebergs := (active_icebergs s)(i \<mapsto> p\<lparr>c_is_active := False\<rparr>)\<rparr>"
  | (slice) p where "p = iceberg_parent s i" "c_is_active p" "c_quantity p \<noteq> c_filled_quantity p"
      "send_slice clk s i = sendToEngine
        (s\<lparr>active_icebergs := (active_icebergs s)(i \<mapsto> p), next_child_order_id := next_child_order_id s + 1,
          child_to_parent := (child_to_parent s)(next_child_order_id s \<mapsto> i), oms_ticks := oms_ticks s + 1\<rparr>)
        \<lparr>o_order_id = next_child_order_id s, o_execution_type = LIMIT, o_price = c_price p, o_timestamp = clk (oms_ticks s),
         o_trader_id = c_trader_id p, o_type = c_type p, o_symbol_id = c_symbol_id p,
         o_quantity = min (c_display_quantity p) (c_quantity p - c_filled_quantity p), o_client_order_id = next_child_order_id s\<rparr>"
proof -
  let ?p = "iceberg_parent s i"
  consider "\<not> c_is_active ?p" | "c_is_active ?p" "c_quantity ?p = c_filled_quantity ?p" | "c_is_active ?p" "c_quantity ?p \<noteq> c_filled_quantity ?p"
    by blast
  then show thesis
  proof cases
    case 1
    then show thesis by (intro idle [of ?p]) (simp_all add: send_slice_def)
  next
    case 2
    then show thesis by (intro finished [of ?p]) (simp_all add: send_slice_def Let_def)
  next
    case 3
    then show thesis by (intro slice [of ?p]) (simp_all add: send_slice_def getCurrentTimestamp_def Let_def)
  qed
qed

lemma handle_market_eq:
  "handle_market clk out s c = sendToEngine (s\<lparr>next_oms_order_id := next_oms_order_id s + 1, oms_ticks := oms_ticks s + 1\<rparr>)
    (out\<lparr>o_order_id := next_oms_order_id s, o_execution_type := MARKET, o_client_order_id := c_client_order_id c,
      o_quantity := c_quantity c, o_symbol_id := c_symbol_id c, o_timestamp := clk (oms_ticks s), o_trader_id := c_trader_id c,
      o_type := c_type c\<rparr>)"
  by (simp add: handle_market_def fetch_order_id_def getCurrentTimestamp_def)

lemma handle_limit_eq:
  "handle_limit clk out s c = (if c_price c = 0 then s
    else sendToEngine (s\<lparr>next_oms_order_id := next_oms_order_id s + 1, oms_ticks := oms_ticks s + 1\<rparr>)
    (out\<lparr>o_order_id := next_oms_order_id s, o_execution_type := LIMIT, o_client_order_id := c_client_order_id c,
      o_quantity := c_quantity c, o_symbol_id := c_symbol_id c, o_timestamp := clk (oms_ticks s), o_trader_id := c_trader_id c,
      o_type := c_type c, o_price := c_price c\<rparr>))"
  by (simp add: handle_limit_def fetch_order_id_def getCurrentTimestamp_def)

lemma ids_inv_slice: "ids_inv boot s \<Longrightarrow> ids_inv boot (send_slice clk s i)"
proof (cases rule: send_slice_cases [of s i clk])
  case (slice p)
  assume "ids_inv boot s"
  then show ?thesis by (rule ids_inv_send) (simp add: slice(4), simp add: slice(4))
qed simp_all

lemma ids_inv_trigger: "ids_inv boot s \<Longrightarrow> trigger_order clk s c = Some s' \<Longrightarrow> ids_inv boot s'"
  by (erule trigger_order_cases, erule ids_inv_send) (simp, simp)

interpretation ids: oms_invariant clk "\<lambda>_. True" "ids_inv boot" for clk boot
proof unfold_locales
  show "ids_inv boot (handle_market clk out s c)" if "ids_inv boot s" for s c out
    by (rule ids_inv_send [OF that]) (auto simp: handle_market_eq)
  show "ids_inv boot (handle_limit clk out s c)" if "ids_inv boot s" for s c out
  proof (cases "c_price c = 0")
    case False
    then show ?thesis by (intro ids_inv_send [OF that]) (auto simp: handle_limit_eq)
  qed (use that in \<open>simp add: handle_limit_eq\<close>)
qed (simp_all add: registerStopLoss_def Let_def ids_inv_slice ids_inv_trigger)

section \<open>The contents of the orders sent\<close>

text \<open>What the clients have to respect: no empty orders, and icebergs that show something.\<close>

definition valid_client :: "ClientOrder \<Rightarrow> bool" where
  "valid_client c \<longleftrightarrow> 0 < c_quantity c \<and> (c_execution_type c = C_ICEBERG \<longrightarrow> 0 < c_display_quantity c)"

definition known_symbol :: "(nat \<Rightarrow> u32) \<Rightarrow> u32 \<Rightarrow> bool" where
  "known_symbol table x \<longleftrightarrow> x \<noteq> - 1 \<and> x \<in> range table"

definition sane_inv :: "(nat \<Rightarrow> u32) \<Rightarrow> OrderManagementSystem \<Rightarrow> bool" where
  "sane_inv table s \<longleftrightarrow> symbolLookupTable s = table \<and>
     (\<forall>x \<in> set (oms_sent s). 0 < o_quantity x \<and> known_symbol table (o_symbol_id x)) \<and>
     (\<forall>k. \<forall>c \<in> stops_at s k. 0 < c_quantity c \<and> admitted s c) \<and>
     (\<forall>i c. active_icebergs s i = Some c \<longrightarrow> c_is_active c \<longrightarrow> 0 < c_display_quantity c \<and> known_symbol table (c_symbol_id c))"

lemma find_id_known: "find_id s symbol \<noteq> - 1 \<Longrightarrow> known_symbol (symbolLookupTable s) (find_id s symbol)"
  by (auto simp: find_id_def known_symbol_def Let_def split: if_splits)

lemma admitted_known: "admitted s c \<Longrightarrow> known_symbol (symbolLookupTable s) (c_symbol_id c)"
  using find_id_known by (auto simp: admitted_def)

lemma admitted_cong: "symbolLookupTable s' = symbolLookupTable s \<Longrightarrow> admitted s' c = admitted s c"
  by (simp add: admitted_def find_id_def Let_def)

lemma sane_inv_send:
  assumes "sane_inv table s" "oms_sent s' = oms_sent s @ [x]" "0 < o_quantity x" "known_symbol table (o_symbol_id x)"
    "symbolLookupTable s' = symbolLookupTable s" "stop_loss_registry s' = stop_loss_registry s" "active_icebergs s' = active_icebergs s"
  shows "sane_inv table s'"
  using assms admitted_cong [OF assms(5)] by (auto simp: sane_inv_def stops_at_def)

lemma sane_inv_frame [simp]:
  "sane_inv table (s\<lparr>child_to_parent := cp\<rparr>) = sane_inv table s" "sane_inv table (s\<lparr>last_seen_price := l\<rparr>) = sane_inv table s"
  "sane_inv table (s\<lparr>incoming_orders := q\<rparr>) = sane_inv table s" "sane_inv table (s\<lparr>trade_consumers := hs\<rparr>) = sane_inv table s"
  "sane_inv table (s\<lparr>oms_shutdown := b\<rparr>) = sane_inv table s" "sane_inv table (s\<lparr>oms_ticks := n\<rparr>) = sane_inv table s"
  "sane_inv table (s\<lparr>next_child_order_id := j\<rparr>) = sane_inv table s" "sane_inv table (s\<lparr>next_oms_order_id := j\<rparr>) = sane_inv table s"
  by (simp_all add: sane_inv_def stops_at_def admitted_def find_id_def Let_def)

lemma admitted_frame [simp]:
  "admitted (s\<lparr>active_icebergs := m\<rparr>) c = admitted s c" "admitted (s\<lparr>stop_loss_registry := r\<rparr>) c = admitted s c"
  by (rule admitted_cong, simp)+

lemma sane_inv_iceberg:
  assumes "sane_inv table s" "c_is_active c \<longrightarrow> 0 < c_display_quantity c \<and> known_symbol table (c_symbol_id c)"
  shows "sane_inv table (s\<lparr>active_icebergs := (active_icebergs s)(i \<mapsto> c)\<rparr>)"
  using assms by (auto simp: sane_inv_def stops_at_def)

lemma sane_parent:
  assumes "sane_inv table s" "c_is_active (iceberg_parent s i)"
  shows "0 < c_display_quantity (iceberg_parent s i)" "known_symbol table (c_symbol_id (iceberg_parent s i))"
  using assms by (auto simp: sane_inv_def iceberg_parent_def zero_client_order_def split: option.splits)

lemma sane_inv_slice:
  assumes "sane_inv table s" shows "sane_inv table (send_slice clk s i)"
proof (cases rule: send_slice_cases [of s i clk])
  case (slice p)
  have p: "0 < c_display_quantity p" "known_symbol table (c_symbol_id p)" using sane_parent [OF assms] slice(1,2) by simp_all
  have base: "sane_inv table (s\<lparr>active_icebergs := (active_icebergs s)(i \<mapsto> p), next_child_order_id := next_child_order_id s + 1,
          child_to_parent := (child_to_parent s)(next_child_order_id s \<mapsto> i), oms_ticks := oms_ticks s + 1\<rparr>)"
    using sane_inv_iceberg [OF assms, of p i] p by simp
  have "0 < min (c_display_quantity p) (c_quantity p - c_filled_quantity p)"
    using p(1) slice(3) by (simp add: word_neq_0_conv [symmetric])
  then show ?thesis unfolding slice(4) using p(2) by (intro sane_inv_send [OF base]) (simp, simp_all)
qed (use sane_parent [OF assms] sane_inv_iceberg [OF assms] in simp_all)

lemma sane_inv_stops:
  assumes "sane_inv table s" "\<forall>c \<in> set sells \<union> set buys. 0 < c_quantity c \<and> admitted s c"
  shows "sane_inv table (s\<lparr>stop_loss_registry := (stop_loss_registry s)(k := \<lparr>sell_stops = sells, buy_stops = buys\<rparr>)\<rparr>)"
  using assms by (auto simp: sane_inv_def stops_at_def)

lemma sane_stops_at: "sane_inv table s \<Longrightarrow> c \<in> stops_at s k \<Longrightarrow> 0 < c_quantity c \<and> admitted s c"
  by (auto simp: sane_inv_def)

lemma sane_inv_table: "sane_inv table s \<Longrightarrow> symbolLookupTable s = table"
  by (simp add: sane_inv_def)

lemma sane_inv_trigger:
  assumes "sane_inv table s" "c \<in> stops_at s k" "trigger_order clk s c = Some s'"
  shows "sane_inv table s'"
proof -
  obtain symbol where sym: "c_str (c_symbol c) = Some symbol"
    and s': "s' = sendToEngine (s\<lparr>next_oms_order_id := next_oms_order_id s + 1, oms_ticks := oms_ticks s + 1\<rparr>)
      \<lparr>o_order_id = next_oms_order_id s, o_execution_type = LIMIT, o_price = c_price c, o_timestamp = clk (oms_ticks s),
       o_trader_id = c_trader_id c, o_type = c_type c, o_symbol_id = find_id s symbol, o_quantity = c_quantity c,
       o_client_order_id = c_client_order_id c\<rparr>"
    using assms(3) by (rule trigger_order_cases)
  have "0 < c_quantity c" "find_id s symbol \<noteq> - 1"
    using sane_stops_at [OF assms(1,2)] sym by (auto simp: admitted_def)
  then show ?thesis
    unfolding s' using sane_inv_table [OF assms(1)] find_id_known [of s symbol]
    by (intro sane_inv_send [OF assms(1)]) (simp, simp_all)
qed

lemma sane_inv_register:
  assumes "sane_inv table s" "admitted s c" "0 < c_quantity c"
  shows "sane_inv table (registerStopLoss s c)"
proof -
  let ?k = "unat (c_symbol_id c AND SYMBOL_MASK)"
  let ?r = "stop_loss_registry s ?k"
  have old: "\<forall>x \<in> set (sell_stops ?r) \<union> set (buy_stops ?r). 0 < c_quantity x \<and> admitted s x"
    using sane_stops_at [OF assms(1), of _ ?k] by (auto simp: stops_at_def)
  let ?b = "\<lparr>sell_stops = sell_stops ?r, buy_stops = heap_push MinTrigger c (buy_stops ?r)\<rparr>"
  let ?s = "\<lparr>sell_stops = heap_push MaxTrigger c (sell_stops ?r), buy_stops = buy_stops ?r\<rparr>"
  have "registerStopLoss s c = s\<lparr>stop_loss_registry := (stop_loss_registry s)(?k := if c_type c = BUY then ?b else ?s)\<rparr>"
    by (cases ?r) (simp add: registerStopLoss_def Let_def)
  moreover have "sane_inv table (s\<lparr>stop_loss_registry := (stop_loss_registry s)(?k := ?b)\<rparr>)"
    by (rule sane_inv_stops [OF assms(1)]) (use old assms in auto)
  moreover have "sane_inv table (s\<lparr>stop_loss_registry := (stop_loss_registry s)(?k := ?s)\<rparr>)"
    by (rule sane_inv_stops [OF assms(1)]) (use old assms in auto)
  ultimately show ?thesis by simp
qed

interpretation sane: oms_invariant clk valid_client "sane_inv table" for clk table
proof unfold_locales
  fix s c out assume s: "sane_inv table s" "admitted s c" "valid_client c"
  have q: "0 < c_quantity c" "known_symbol table (c_symbol_id c)"
    using s admitted_known [OF s(2)] sane_inv_table [OF s(1)] by (simp_all add: valid_client_def)
  show "sane_inv table (handle_market clk out s c)"
    unfolding handle_market_eq using q by (intro sane_inv_send [OF s(1)]) (simp, simp_all)
  show "sane_inv table (handle_limit clk out s c)"
    unfolding handle_limit_eq using q s(1) by (cases "c_price c = 0") (simp, intro sane_inv_send [OF s(1)], simp, simp_all)
  show "sane_inv table (registerStopLoss s c)" by (rule sane_inv_register [OF s(1,2) q(1)])
  show "sane_inv table (s\<lparr>active_icebergs := (active_icebergs s)(c_client_order_id c \<mapsto> c)\<rparr>)"
    if "c_execution_type c = C_ICEBERG"
    by (rule sane_inv_iceberg [OF s(1)]) (use that s(3) q(2) in \<open>simp add: valid_client_def\<close>)
next
  fix s k sells buys assume s: "sane_inv table s" and sub: "suffix sells (sell_stops (stop_loss_registry s k))"
    "suffix buys (buy_stops (stop_loss_registry s k))"
  show "sane_inv table (s\<lparr>stop_loss_registry := (stop_loss_registry s)(k := \<lparr>sell_stops = sells, buy_stops = buys\<rparr>)\<rparr>)"
    by (rule sane_inv_stops [OF s]) (use sub [THEN set_mono_suffix] sane_stops_at [OF s, of _ k] in \<open>auto simp: stops_at_def\<close>)
next
  fix s p f assume s: "sane_inv table s"
  show "sane_inv table (s\<lparr>active_icebergs := (active_icebergs s)(p \<mapsto> iceberg_parent s p\<lparr>c_filled_quantity := f\<rparr>)\<rparr>)"
    by (rule sane_inv_iceberg [OF s]) (use sane_parent [OF s] in simp)
qed (simp_all add: valid_client_def sane_inv_slice sane_inv_trigger)

section \<open>A new system\<close>

lemma fill_table_range: "fill_table infos table = Some t \<Longrightarrow> range t \<subseteq> range table \<union> s_symbol_id ` set infos"
proof (induction infos arbitrary: table)
  case (Cons i infos)
  let ?h = "unat (find_hash (s_symbol i))"
  have "fill_table infos (table(?h := s_symbol_id i)) = Some t" using Cons.prems by (auto simp: Let_def split: if_splits)
  then have "range t \<subseteq> range (table(?h := s_symbol_id i)) \<union> s_symbol_id ` set infos" by (rule Cons.IH)
  then show ?case by (auto simp: fun_upd_def split: if_splits)
qed simp

lemma oms_new_cases:
  assumes "OrderManagementSystem_new clk blank cap csv = Some (Inr s)"
  obtains infos where "loadSymbolCSV csv = Inr infos" "fill_table infos (\<lambda>_. - 1) = Some (symbolLookupTable s)"
    "next_oms_order_id s = clk 0" "next_child_order_id s = ICEBERG_BIT OR 1" "oms_sent s = []" "active_icebergs s = Map.empty"
    "stop_loss_registry s = (\<lambda>_. \<lparr>sell_stops = [], buy_stops = []\<rparr>)" "incoming_orders s = RingBuffer_new cap blank"
  using assms by (auto simp: OrderManagementSystem_new_def split: sum.splits option.splits)

lemma child_id_start: "unat (ICEBERG_BIT OR 1) = 2 ^ 63 + 1"
  by (simp add: ICEBERG_BIT_def)

lemma oms_new_ok:
  assumes new: "OrderManagementSystem_new clk blank cap csv = Some (Inr s)" and "0 < unat cap" "pow2_part (unat cap) \<le> 2 ^ 32"
  shows "oms_ok (\<lambda>_. True) (ids_inv (clk 0)) s" "oms_ok valid_client (sane_inv (symbolLookupTable s)) s"
  using new
  by (auto elim!: oms_new_cases simp: oms_ok_def ids_inv_def sane_inv_def stops_at_def rb_inv_new [OF assms(2,3)] child_id_start)

lemma oms_reach_mono: "oms_reach clk accept s0 s \<Longrightarrow> (\<And>c. accept c \<Longrightarrow> accept' c) \<Longrightarrow> oms_reach clk accept' s0 s"
  by (induction rule: oms_reach.induct) (blast intro: oms_reach.intros)+

lemma reach_ids:
  assumes "OrderManagementSystem_new clk blank cap csv = Some (Inr s0)" "0 < unat cap" "pow2_part (unat cap) \<le> 2 ^ 32"
    "oms_reach clk accept s0 s"
  shows "ids_inv (clk 0) s"
  using ids.reach_ok [OF oms_reach_mono [OF assms(4)] oms_new_ok(1) [OF assms(1-3)]] by (simp add: oms_ok_def)

lemma reach_sane:
  assumes "OrderManagementSystem_new clk blank cap csv = Some (Inr s0)" "0 < unat cap" "pow2_part (unat cap) \<le> 2 ^ 32"
    "oms_reach clk valid_client s0 s"
  shows "sane_inv (symbolLookupTable s0) s"
  using sane.reach_ok [OF assms(4) oms_new_ok(2) [OF assms(1-3)]] by (simp add: oms_ok_def)

section \<open>A run to try things on\<close>

definition demo_csv :: string where
  "demo_csv = csv_header @ csv_row ''AAPL'' 5 100 90 110 @ [CHR 0x0A]"

definition demo_client :: "ClientOrderType \<Rightarrow> OrderType \<Rightarrow> u64 \<Rightarrow> u64 \<Rightarrow> u32 \<Rightarrow> u32 \<Rightarrow> ClientOrder" where
  "demo_client ex ty price trigger qty display = \<lparr>c_client_order_id = 77, c_price = price, c_trigger_price = trigger,
     c_symbol = ''AAPL'' @ replicate 4 (CHR 0x00), c_symbol_id = 0, c_trader_id = 3, c_type = ty, c_quantity = qty,
     c_display_quantity = display, c_filled_quantity = 0, c_execution_type = ex, c_is_active = True\<rparr>"

definition demo_oms :: OrderManagementSystem where
  "demo_oms = \<lparr>oms_shutdown = False, symbolLookupTable = (\<lambda>_. - 1)(34316 := 5), next_oms_order_id = 1000,
     stop_loss_registry = (\<lambda>_. \<lparr>sell_stops = [], buy_stops = []\<rparr>), last_seen_price = (\<lambda>_. 0),
     active_icebergs = Map.empty, child_to_parent = Map.empty,
     incoming_orders = RingBuffer_new 16 zero_client_order, next_child_order_id = ICEBERG_BIT OR 1,
     trade_consumers = [trade_ring_buffer_new False 0, trade_ring_buffer_new False 1], oms_sent = [], oms_ticks = 1\<rparr>"

definition demo_out :: Order where
  "demo_out = \<lparr>o_order_id = 0, o_execution_type = LIMIT, o_price = 0, o_timestamp = 0, o_trader_id = 0, o_type = BUY,
     o_symbol_id = 0, o_quantity = 0, o_client_order_id = 0\<rparr>"

definition demo_clk :: "nat \<Rightarrow> u64" where "demo_clk n = 1000 + of_nat n"

lemma demo_hash: "find_hash ''AAPL'' = 34316"
  by code_simp

lemma demo_load: "loadSymbolCSV (Some demo_csv) =
    Inr [\<lparr>s_symbol = ''AAPL'', s_symbol_id = 5, s_ltp = 100, s_lower_limit = 90, s_upper_limit = 110\<rparr>]"
proof -
  have h: "CHR 0x0A \<notin> set ''symbol,symbol_id,ltp,lower_limit,upper_limit''" and r: "CHR 0x0A \<notin> set (csv_row ''AAPL'' 5 100 90 110)"
    using csv_row_plain [of "''AAPL''"] by simp_all
  have p: "CHR '','' \<notin> set ''AAPL''" by simp
  have "file_lines demo_csv = [''symbol,symbol_id,ltp,lower_limit,upper_limit'', csv_row ''AAPL'' 5 100 90 110]"
    unfolding demo_csv_def csv_header_def append_assoc
    by (simp only: append_Cons [of "CHR 0x0A" "[]"] append_Nil file_lines_row [OF h] file_lines_row [OF r] file_lines.simps)
  then show ?thesis using parse_csv_row [OF p, of 5 100 90 110] by (simp add: loadSymbolCSV_def)
qed

lemma demo_oms_new: "OrderManagementSystem_new demo_clk zero_client_order 16 (Some demo_csv) = Some (Inr demo_oms)"
proof -
  have "[0..<GROUP_COUNT] = [0, 1]" by (simp add: GROUP_COUNT_def numeral_2_eq_2)
  then show ?thesis
    by (simp add: OrderManagementSystem_new_def demo_load demo_hash demo_oms_def demo_clk_def Let_def)
qed

lemma demo_room: "rb_inv (RingBuffer_new 16 z)" "rb_contents (RingBuffer_new 16 z) = []" "rb_room (RingBuffer_new 16 z) = 15"
proof -
  have p: "pow2_part 16 = 16" by code_simp
  show "rb_inv (RingBuffer_new 16 z)" "rb_contents (RingBuffer_new 16 z) = []" "rb_room (RingBuffer_new 16 z) = 15"
    using rb_inv_new [of 16 z] by (simp_all add: p)
qed

lemma demo_idle: "poll_groups clk (\<lambda>_. zero_ring) [0..<GROUP_COUNT] s = Some s"
  if "trade_consumers s = [trade_ring_buffer_new False 0, trade_ring_buffer_new False 1]"
proof -
  have g: "[0..<GROUP_COUNT] = [0, 1]" by (simp add: GROUP_COUNT_def numeral_2_eq_2)
  have n: "\<not> any_new_trade zero_ring (trade_ring_buffer_new False i)" for i
    by (simp add: any_new_trade_def zero_ring_def trade_ring_buffer_new_def)
  have "s\<lparr>trade_consumers := trade_consumers s\<rparr> = s" by (cases s) simp
  then show ?thesis using that by (simp add: g poll_trades.simps n)
qed

lemma demo_str: "c_str (''AAPL'' @ replicate 4 (CHR 0x00)) = Some ''AAPL''"
  by (simp add: c_str_def eval_nat_numeral)

text \<open>The demo system after one client order has been queued and handled.\<close>

lemma demo_run:
  assumes "valid_client c" "c_symbol c = ''AAPL'' @ replicate 4 (CHR 0x00)"
  obtains s q where "oms_reach demo_clk valid_client demo_oms s" 
    "handle_client_order demo_clk demo_out (demo_oms\<lparr>incoming_orders := q\<rparr>) c = Some s"
    "trade_consumers s = trade_consumers demo_oms"
proof -
  obtain q where q: "RingBuffer_push (incoming_orders demo_oms) c = Some (q, True)" "rb_inv q" "rb_contents q = [c]"
    using rb.push_accept [OF demo_room(1), of zero_client_order c] by (auto simp: demo_oms_def demo_room)
  obtain q1 where q1: "RingBuffer_pop q = Some (q1, Some c)" using rb.pop_front [OF q(2,3)] by blast
  let ?s = "demo_oms\<lparr>incoming_orders := q1\<rparr>"
  have sym: "c_str (c_symbol c) = Some ''AAPL''" by (simp only: assms(2) demo_str)
  have id5: "find_id ?s ''AAPL'' = 5" by (simp add: find_id_def demo_hash demo_oms_def)
  obtain s where s: "handle_client_order demo_clk demo_out ?s c = Some s"
    using sym id5 by (simp add: handle_client_order_def Let_def)
  have tc: "trade_consumers s = trade_consumers demo_oms"
    using s sym id5 by (cases "c_execution_type c") (auto simp: handle_client_order_def Let_def handle_market_eq handle_limit_eq
      registerStopLoss_def send_slice_def getCurrentTimestamp_def split: if_splits)
  have r1: "oms_reach demo_clk valid_client demo_oms (demo_oms\<lparr>incoming_orders := q\<rparr>)"
    by (rule oms_reach.enqueue, rule oms_reach.start, rule assms(1)) (simp add: enqueueClientOrder_def q(1))
  have "poll_groups demo_clk (\<lambda>_. zero_ring) [0..<GROUP_COUNT] s = Some s"
    by (rule demo_idle) (simp add: tc, simp add: demo_oms_def)
  then have "oms_pass demo_clk demo_out (\<lambda>_. zero_ring) None (demo_oms\<lparr>incoming_orders := q\<rparr>) = Some s"
    using q1 s by (simp add: oms_pass_def demo_oms_def)
  from oms_reach.pass [OF r1 this] show thesis using that s tc by blast
qed

lemma demo_limit: "valid_client (demo_client C_LIMIT SELL 101 0 10 0)"
    "c_symbol (demo_client C_LIMIT SELL 101 0 10 0) = ''AAPL'' @ replicate 4 (CHR 0x00)"
  by (simp_all add: demo_client_def valid_client_def)

lemma demo_limit_sent:
  assumes "handle_client_order demo_clk demo_out (demo_oms\<lparr>incoming_orders := q\<rparr>) (demo_client C_LIMIT SELL 101 0 10 0) = Some s"
  shows "oms_sent s = [\<lparr>o_order_id = 1000, o_execution_type = LIMIT, o_price = 101, o_timestamp = 1001, o_trader_id = 3, o_type = SELL,
     o_symbol_id = 5, o_quantity = 10, o_client_order_id = 77\<rparr>]"
proof -
  have "c_str (c_symbol (demo_client C_LIMIT SELL 101 0 10 0)) = Some ''AAPL''" by (simp only: demo_limit(2) demo_str)
  then show ?thesis
    using assms by (auto simp: handle_client_order_def find_id_def demo_hash handle_limit_eq demo_client_def demo_oms_def
      demo_clk_def demo_out_def Let_def)
qed

section \<open>Properties of the orders the system sends\<close>



text \<open>
  Nothing for an unknown symbol reaches the engine: every order sent, at once, by a stop-loss trigger or as a slice of an iceberg,
  carries the id of a symbol of the loaded file and a positive quantity (given that the clients send positive
  quantities).
\<close>

theorem oms_sends_known_symbols:
  assumes "OrderManagementSystem_new clk blank cap csv = Some (Inr s0)" "0 < unat cap" "pow2_part (unat cap) \<le> 2 ^ 32"
    "oms_reach clk valid_client s0 s" "loadSymbolCSV csv = Inr infos" "x \<in> set (oms_sent s)"
  shows "0 < o_quantity x \<and> o_symbol_id x \<in> s_symbol_id ` set infos"
proof -
  have x: "0 < o_quantity x" "known_symbol (symbolLookupTable s0) (o_symbol_id x)"
    using reach_sane [OF assms(1-4)] assms(6) by (simp_all add: sane_inv_def)
  have "range (symbolLookupTable s0) \<subseteq> {- 1} \<union> s_symbol_id ` set infos"
    using assms(1,5) by (auto elim!: oms_new_cases dest!: fill_table_range)
  then show ?thesis using x by (auto simp: known_symbol_def)
qed

theorem oms_sends_known_symbols_witness:
  "\<exists>s x. oms_reach demo_clk valid_client demo_oms s \<and> x \<in> set (oms_sent s) \<and> o_symbol_id x = 5"
proof -
  obtain s q where s: "oms_reach demo_clk valid_client demo_oms s"
    "handle_client_order demo_clk demo_out (demo_oms\<lparr>incoming_orders := q\<rparr>) (demo_client C_LIMIT SELL 101 0 10 0) = Some s"
    by (rule demo_run [OF demo_limit])
  have p: "pow2_part 16 = 16" by code_simp
  have "o_symbol_id (hd (oms_sent s)) \<in> {5}"
    using oms_sends_known_symbols [OF demo_oms_new _ _ s(1) demo_load, of "hd (oms_sent s)"]
    by (simp add: p demo_limit_sent [OF s(2)])
  then show ?thesis using s(1) demo_limit_sent [OF s(2)] by (intro exI [of _ s] exI [of _ "hd (oms_sent s)"]) simp
qed

lemma sent_orders_ok:
  assumes "OrderManagementSystem_new clk blank cap csv = Some (Inr s0)" "0 < unat cap" "pow2_part (unat cap) \<le> 2 ^ 32"
    "oms_reach clk valid_client s0 s" "unat (clk 0) + length (oms_sent s) < 2 ^ 63 - 1" "known_order_ids g = {}"
  shows "orders_ok g (filter P (oms_sent s))"
proof -
  have "distinct (map o_order_id (oms_sent s))" using reach_ids [OF assms(1-4)] assms(5) by (simp add: ids_inv_def)
  then show ?thesis
    using reach_sane [OF assms(1-4)] assms(6) by (auto simp: orders_ok_def sane_inv_def distinct_map_filter)
qed

text \<open>
  C3. From the clients to the books: whatever the clients with positive quantities enqueue and in whatever order fills and
  prices come back, a matching group with empty books processes all orders the system sends it (those with
  \<open>P\<close>, such as the orders routed to the group) to the end, without an exception, an access outside an
  array or an endless loop, as the price-time specification says, and its books stay well formed.
\<close>

theorem oms_orders_processed:
  assumes "OrderManagementSystem_new clk blank cap csv = Some (Inr s0)" "0 < unat cap" "pow2_part (unat cap) \<le> 2 ^ 32"
    "oms_reach clk valid_client s0 s" "unat (clk 0) + length (oms_sent s) < 2 ^ 63 - 1"
    "wf_group g" "known_order_ids g = {}"
  shows "\<exists>g'. process_orders g (filter P (oms_sent s)) = Some (Inr g') \<and> wf_group g' \<and>
    group_abs g' = fold (spec_step g) (filter P (oms_sent s)) (group_abs g)"
proof -
  have "orders_ok g (filter P (oms_sent s))" by (rule sent_orders_ok [OF assms(1-5,7)])
  then show ?thesis using process_orders_total [OF assms(6)] by blast
qed

theorem oms_orders_processed_witness:
  "\<exists>s g'. oms_reach demo_clk valid_client demo_oms s \<and> length (oms_sent s) = 1 \<and>
    process_orders demo_group (filter (\<lambda>x. o_symbol_id x = 5) (oms_sent s)) = Some (Inr g')"
proof -
  obtain s q where s: "oms_reach demo_clk valid_client demo_oms s"
    "handle_client_order demo_clk demo_out (demo_oms\<lparr>incoming_orders := q\<rparr>) (demo_client C_LIMIT SELL 101 0 10 0) = Some s"
    by (rule demo_run [OF demo_limit])
  have p: "pow2_part 16 = 16" by code_simp
  have "\<exists>g'. process_orders demo_group (filter (\<lambda>x. o_symbol_id x = 5) (oms_sent s)) = Some (Inr g')"
    using oms_orders_processed [OF demo_oms_new _ _ s(1) _ demo_group_wf(1) demo_known, of "\<lambda>x. o_symbol_id x = 5"]
    by (auto simp: p demo_limit_sent [OF s(2)] demo_clk_def)
  then show ?thesis using s(1) demo_limit_sent [OF s(2)] by (intro exI [of _ s]) auto
qed



end
