(* ===== verification/Oms_Symbols.thy ===== *)
theory Oms_Symbols
  imports Oms_Run
begin

text \<open>
  The symbol table of the order management system: the hash of a name of up to four letters is its number in base 32, so
  two such names never collide and every one fits the table of 880000 entries.
\<close>

section \<open>The hash in base 32\<close>

definition upper_letter :: "char \<Rightarrow> bool" where
  "upper_letter c \<longleftrightarrow> 65 \<le> (of_char c :: nat) \<and> (of_char c :: nat) \<le> 90"

definition plain_name :: "string \<Rightarrow> bool" where
  "plain_name s \<longleftrightarrow> length s \<le> 4 \<and> list_all upper_letter s"

definition letter_at :: "string \<Rightarrow> nat \<Rightarrow> nat" where
  "letter_at s i = (if i < length s then of_char (s ! i) - 64 else 0)"

lemma letter_at_bound: "plain_name s \<Longrightarrow> letter_at s i \<le> 26"
  by (auto simp: plain_name_def letter_at_def upper_letter_def list_all_length)

lemma hash_char_letter:
  assumes "plain_name s" shows "unat (hash_char s i) = letter_at s i"
proof (cases "i < length s")
  case True
  then have c: "65 \<le> (of_char (s ! i) :: nat)" "(of_char (s ! i) :: nat) \<le> 90"
    using assms by (auto simp: plain_name_def upper_letter_def list_all_length)
  have n: "(of_char (s ! i) :: int) = int (of_char (s ! i))" by (simp only: of_nat_of_char)
  have "toupper_int (s ! i) - 65 + 1 = int (of_char (s ! i) - 64)"
    unfolding toupper_int_def Let_def n using c by (simp add: of_nat_diff)
  then have "hash_char s i = of_nat (of_char (s ! i) - 64)" using True by (simp only: hash_char_def of_int_of_nat_eq if_True)
  then show ?thesis using True c by (simp only: letter_at_def unat_of_nat if_True) simp
qed (simp add: hash_char_def letter_at_def)

lemma shift_or_add:
  fixes h v :: u32
  assumes "unat v < 32" "unat h < 2 ^ 27" shows "unat (push_bit 5 h OR v) = 32 * unat h + unat v"
proof -
  have v: "take_bit 5 v = v" using assms(1) by (simp add: word_eq_iff_unsigned [where 'a = nat] unat_take_bit_word)
  have "push_bit 5 h AND v = 0"
    using arg_cong [OF v, of "\<lambda>x. push_bit 5 h AND x"] by (auto simp: bit_eq_iff bit_simps)
  then have "push_bit 5 h OR v = push_bit 5 h + v" by (simp only: disjunctive_add_eq_or)
  moreover have "push_bit 5 h = 32 * h" by (simp add: push_bit_eq_mult)
  ultimately show ?thesis using assms by (simp add: unat_word_ariths)
qed

lemma find_hash_value:
  assumes "plain_name s"
  shows "unat (find_hash s) = 32768 * letter_at s 0 + 1024 * letter_at s 1 + 32 * letter_at s 2 + letter_at s 3"
proof -
  have u: "[0..<4] = [0, 1, 2, 3 :: nat]" by (simp add: upt_rec)
  have b: "unat (hash_char s i) < 32" for i using letter_at_bound [OF assms, of i] by (simp add: hash_char_letter [OF assms])
  note v = hash_char_letter [OF assms] and l = letter_at_bound [OF assms]
  let ?h0 = "hash_char s 0" let ?h1 = "push_bit 5 ?h0 OR hash_char s 1" let ?h2 = "push_bit 5 ?h1 OR hash_char s 2"
  have 1: "unat ?h1 = 32 * letter_at s 0 + letter_at s 1"
    using shift_or_add [OF b, of ?h0 1] l [of 0] by (simp add: v)
  have 2: "unat ?h2 = 32 * (32 * letter_at s 0 + letter_at s 1) + letter_at s 2"
    using shift_or_add [OF b, of ?h1 2, unfolded 1 v] l [of 0] l [of 1] by simp
  have 3: "unat (push_bit 5 ?h2 OR hash_char s 3) = 32 * (32 * (32 * letter_at s 0 + letter_at s 1) + letter_at s 2) + letter_at s 3"
    using shift_or_add [OF b, of ?h2 3, unfolded 2 v] l [of 0] l [of 1] l [of 2] by simp
  have "find_hash s = push_bit 5 ?h2 OR hash_char s 3" by (simp add: find_hash_def u)
  then show ?thesis using 3 by simp
qed

lemma letter_at_inj:
  assumes "plain_name s" "plain_name t" "\<forall>i < 4. letter_at s i = letter_at t i" shows "s = t"
proof (rule nth_equalityI)
  have pos: "0 < letter_at u i \<longleftrightarrow> i < length u" if "plain_name u" for u i
    using that by (auto simp: letter_at_def plain_name_def upper_letter_def list_all_length)
  have len: "length s \<le> 4" "length t \<le> 4" using assms(1,2) by (simp_all add: plain_name_def)
  have same: "i < length s \<longleftrightarrow> i < length t" if "i < 4" for i using pos [OF assms(1)] pos [OF assms(2)] assms(3) that by metis
  show l: "length s = length t"
  proof (cases "length s < length t")
    case True
    then show ?thesis using same [of "length s"] len by simp
  next
    case False
    then show ?thesis using same [of "length t"] len by (cases "length t < length s") simp_all
  qed
  fix i assume i: "i < length s"
  have ge: "64 \<le> (of_char (s ! i) :: nat)" "64 \<le> (of_char (t ! i) :: nat)"
    using assms(1,2) i l by (auto simp: plain_name_def upper_letter_def list_all_length intro: order_trans [of 64 65])
  have "letter_at s i = letter_at t i" using assms(3) i len by simp
  then have "(of_char (s ! i) :: nat) - 64 = of_char (t ! i) - 64" using i l by (simp add: letter_at_def)
  then have "(of_char (s ! i) :: nat) = of_char (t ! i)" using ge by linarith
  then show "s ! i = t ! i" by simp
qed

lemma digit_split: "32 * a + b = 32 * c + d \<Longrightarrow> b < 32 \<Longrightarrow> d < 32 \<Longrightarrow> a = c \<and> b = (d :: nat)"
proof -
  assume e: "32 * a + b = 32 * c + d" and b: "b < 32" "d < 32"
  have "(32 * a + b) div 32 = a" "(32 * c + d) div 32 = c" using b by simp_all
  then show "a = c \<and> b = d" using e by simp
qed

lemma find_hash_inj:
  assumes "plain_name s" "plain_name t" "find_hash s = find_hash t" shows "s = t"
proof (rule letter_at_inj [OF assms(1,2)], intro allI impI)
  have "unat (find_hash s) = unat (find_hash t)" by (simp add: assms(3))
  then have e: "32768 * letter_at s 0 + 1024 * letter_at s 1 + 32 * letter_at s 2 + letter_at s 3 =
      32768 * letter_at t 0 + 1024 * letter_at t 1 + 32 * letter_at t 2 + letter_at t 3"
    by (simp only: find_hash_value [OF assms(1)] find_hash_value [OF assms(2)])
  note l = letter_at_bound [OF assms(1)] letter_at_bound [OF assms(2)]
  have d: "letter_at s 0 = letter_at t 0 \<and> letter_at s 1 = letter_at t 1 \<and> letter_at s 2 = letter_at t 2 \<and> letter_at s 3 = letter_at t 3"
  proof -
    have b: "letter_at s i < 32" "letter_at t i < 32" for i using l [of i] by simp_all
    have "32 * (32 * (32 * letter_at s 0 + letter_at s 1) + letter_at s 2) + letter_at s 3 =
        32 * (32 * (32 * letter_at t 0 + letter_at t 1) + letter_at t 2) + letter_at t 3" using e by simp
    then have 3: "32 * (32 * letter_at s 0 + letter_at s 1) + letter_at s 2 = 32 * (32 * letter_at t 0 + letter_at t 1) + letter_at t 2 \<and>
        letter_at s 3 = letter_at t 3" by (rule digit_split) (rule b)+
    then have 2: "32 * letter_at s 0 + letter_at s 1 = 32 * letter_at t 0 + letter_at t 1 \<and> letter_at s 2 = letter_at t 2"
      using digit_split b by blast
    then show ?thesis using digit_split b 3 by blast
  qed
  fix i :: nat assume "i < 4"
  then consider "i = 0" | "i = 1" | "i = 2" | "i = 3" by linarith
  then show "letter_at s i = letter_at t i" using d by cases simp_all
qed

lemma find_hash_bound: "plain_name s \<Longrightarrow> unat (find_hash s) < 880000"
  using letter_at_bound [of s 0] letter_at_bound [of s 1] letter_at_bound [of s 2] letter_at_bound [of s 3]
  by (simp add: find_hash_value)

section \<open>The loaded table\<close>

lemma fill_table_lookup:
  assumes "\<forall>i \<in> set infos. plain_name (s_symbol i)" "distinct (map s_symbol infos)"
  shows "\<exists>t. fill_table infos table = Some t \<and> (\<forall>i \<in> set infos. t (unat (find_hash (s_symbol i))) = s_symbol_id i) \<and>
    (\<forall>s. plain_name s \<longrightarrow> s \<notin> s_symbol ` set infos \<longrightarrow> t (unat (find_hash s)) = table (unat (find_hash s)))"
  using assms
proof (induction infos arbitrary: table)
  case (Cons i infos)
  let ?t = "table(unat (find_hash (s_symbol i)) := s_symbol_id i)"
  obtain t where t: "fill_table infos ?t = Some t" "\<forall>i \<in> set infos. t (unat (find_hash (s_symbol i))) = s_symbol_id i"
    "\<forall>s. plain_name s \<longrightarrow> s \<notin> s_symbol ` set infos \<longrightarrow> t (unat (find_hash s)) = ?t (unat (find_hash s))"
    using Cons.IH [of ?t] Cons.prems by (auto simp del: fun_upd_apply)
  have "plain_name (s_symbol i)" using Cons.prems by simp
  then have "fill_table (i # infos) table = Some t" using t(1) find_hash_bound by (simp add: Let_def)
  moreover have "t (unat (find_hash (s_symbol i))) = s_symbol_id i" using t(3) Cons.prems by auto
  moreover have "t (unat (find_hash s)) = table (unat (find_hash s))"
    if "plain_name s" "s \<notin> s_symbol ` set (i # infos)" for s
    using t(3) that find_hash_inj [OF that(1) \<open>plain_name (s_symbol i)\<close>] by auto
  ultimately show ?case using t(2) by (intro exI [of _ t]) auto
qed simp

section \<open>Properties of the symbol table\<close>

text \<open>
  Symbol lookup is exact: when the symbol file holds distinct names of up to four capital letters, the constructor stays inside its
  table, every name of the file is translated to its own id, and every other such name to -1, so that its orders are dropped.
\<close>

theorem symbol_lookup_exact:
  assumes "loadSymbolCSV csv = Inr infos" "\<forall>i \<in> set infos. plain_name (s_symbol i)" "distinct (map s_symbol infos)"
  shows "\<exists>s. OrderManagementSystem_new clk blank cap csv = Some (Inr s) \<and>
    (\<forall>i \<in> set infos. find_id s (s_symbol i) = s_symbol_id i) \<and>
    (\<forall>name. plain_name name \<longrightarrow> name \<notin> s_symbol ` set infos \<longrightarrow> find_id s name = - 1)"
proof -
  obtain t where t: "fill_table infos (\<lambda>_. - 1) = Some t" "\<forall>i \<in> set infos. t (unat (find_hash (s_symbol i))) = s_symbol_id i"
    "\<forall>s. plain_name s \<longrightarrow> s \<notin> s_symbol ` set infos \<longrightarrow> t (unat (find_hash s)) = - 1"
    using fill_table_lookup [OF assms(2,3), of "\<lambda>_. - 1"] by auto
  have b: "\<not> 880000 \<le> find_hash n" if "plain_name n" for n
    using find_hash_bound [OF that] by (simp add: word_le_nat_alt)
  have new: "\<exists>s. OrderManagementSystem_new clk blank cap csv = Some (Inr s) \<and> symbolLookupTable s = t"
    using assms(1) t(1) by (simp add: OrderManagementSystem_new_def)
  then obtain s where s: "OrderManagementSystem_new clk blank cap csv = Some (Inr s)" "symbolLookupTable s = t" by blast
  have "find_id s n = t (unat (find_hash n))" if "plain_name n" for n
    using b [OF that] s(2) by (simp add: find_id_def Let_def)
  then show ?thesis using s t assms(2) by (intro exI [of _ s]) auto
qed

theorem symbol_lookup_exact_witness:
  "\<exists>s. OrderManagementSystem_new demo_clk zero_client_order 16 (Some demo_csv) = Some (Inr s) \<and>
    find_id s ''AAPL'' = 5 \<and> find_id s ''MSFT'' = - 1"
  using symbol_lookup_exact [OF demo_load, of demo_clk zero_client_order 16]
  by (auto simp: plain_name_def upper_letter_def)

end
