(* ===== verification/State_Machine.thy ===== *)
theory State_Machine
  imports Prelude
begin

text \<open>
  Components whose threads interleave are state machines: an event is one step of one thread, with what the environment returns to it, and a step is
  a partial function, undefined where the event cannot happen. The locale \<open>step_invariant\<close> is the contract of an invariant: it survives every step whose
  event the environment may produce. It gives the invariant for every run.
\<close>

text \<open>A run in which the environment keeps to its rules \<open>ok\<close>; \<open>None\<close> for a sequence of events that is no such run.\<close>

fun run_steps :: "('s \<Rightarrow> 'e \<Rightarrow> bool) \<Rightarrow> ('e \<Rightarrow> 's \<Rightarrow> 's option) \<Rightarrow> 'e list \<Rightarrow> 's \<Rightarrow> 's option" where
  "run_steps ok step [] s = Some s"
| "run_steps ok step (e # es) s = (if ok s e then Option.bind (step e s) (run_steps ok step es) else None)"

lemma run_steps_append: "run_steps ok step (xs @ ys) s = Option.bind (run_steps ok step xs s) (run_steps ok step ys)"
  by (induction xs arbitrary: s) (auto split: Option.bind_splits)

lemma run_steps_snoc:
  "run_steps ok step xs s = Some s1 \<Longrightarrow> ok s1 e \<Longrightarrow> step e s1 = Some s2 \<Longrightarrow> run_steps ok step (xs @ [e]) s = Some s2"
  by (simp add: run_steps_append)

lemma run_steps_trans:
  "run_steps ok step xs s = Some s1 \<Longrightarrow> run_steps ok step ys s1 = Some s2 \<Longrightarrow> run_steps ok step (xs @ ys) s = Some s2"
  by (simp add: run_steps_append)

locale step_invariant =
  fixes ok :: "'s \<Rightarrow> 'e \<Rightarrow> bool" and step :: "'e \<Rightarrow> 's \<Rightarrow> 's option" and I :: "'s \<Rightarrow> bool"
  assumes keeps: "I s \<Longrightarrow> ok s e \<Longrightarrow> step e s = Some s' \<Longrightarrow> I s'"
begin

lemma run_inv: "run_steps ok step es s = Some s' \<Longrightarrow> I s \<Longrightarrow> I s'"
proof (induction es arbitrary: s)
  case (Cons e es)
  then show ?case using keeps by (auto simp: bind_eq_Some_conv split: if_splits)
qed simp

end

end
