(* ===== verification/Queue_Threads.thy ===== *)
theory Queue_Threads
  imports Ring_Queue State_Machine
begin

text \<open>
  The queues under their two threads. \<open>Ring_Queue\<close> treats \<open>push\<close> and \<open>pop\<close> as single steps; here they are cut at their accesses to shared memory, and a producer and a consumer interleave freely:
  \<open>push\<close> loads the consumer's index, tests for room, writes the slot and stores its own index; \<open>pop\<close> loads the producer's index, tests, reads the slot and stores its own. The index a
  thread owns is changed by no other, so that loading it is part of the test. Each thread keeps the outcomes of the operations it has finished, refused ones included. The locale \<open>split_queue\<close> states what the parts of the operations must satisfy for every interleaving to look like whole
  operations; it is interpreted for the \<open>spsc_queue\<close> classes and for \<open>RingBuffer\<close>.
\<close>

section \<open>Operations cut into steps\<close>

text \<open>The accesses of a queue of type \<open>'q\<close> with indices \<open>'i\<close>: the two atomic indices, the slots, the test for a full queue and the successor of an index.\<close>

record ('q, 'i, 'a) queue_parts =
  qp_head :: "'q \<Rightarrow> 'i"
  qp_tail :: "'q \<Rightarrow> 'i"
  qp_set_head :: "'i \<Rightarrow> 'q \<Rightarrow> 'q"
  qp_set_tail :: "'i \<Rightarrow> 'q \<Rightarrow> 'q"
  qp_full :: "'q \<Rightarrow> 'i \<Rightarrow> 'i \<Rightarrow> bool"
  qp_next :: "'q \<Rightarrow> 'i \<Rightarrow> 'i"
  qp_slot :: "'q \<Rightarrow> 'i \<Rightarrow> nat"
  qp_write :: "'i \<Rightarrow> 'a \<Rightarrow> 'q \<Rightarrow> 'q"
  qp_read :: "'q \<Rightarrow> 'i \<Rightarrow> 'a"

datatype ('i, 'a) producer_at = PIdle | PLoaded 'a 'i | PTested 'a | PWritten 'a
datatype ('i, 'a) consumer_at = CIdle | CLoaded 'i | CTested | CRead 'a

record ('q, 'i, 'a) shared_queue =
  cq_queue :: 'q
  cq_producer :: "('i, 'a) producer_at"
  cq_consumer :: "('i, 'a) consumer_at"
  cq_pushes :: "('a \<times> bool) list"
  cq_pops :: "'a option list"

datatype 'a queue_event = PushLoad 'a | PushTest | PushWrite | PushStore | PopLoad | PopTest | PopRead | PopStore

text \<open>A failed test ends the operation. \<open>cq_pushes\<close> and \<open>cq_pops\<close> record what each call returned.\<close>

definition push_step :: "('q, 'i, 'a) queue_parts \<Rightarrow> 'a queue_event \<Rightarrow> ('q, 'i, 'a) shared_queue \<Rightarrow> ('q, 'i, 'a) shared_queue option" where
  "push_step p e s = (let q = cq_queue s in case (e, cq_producer s) of
     (PushLoad x, PIdle) \<Rightarrow> Some (s\<lparr>cq_producer := PLoaded x (qp_head p q)\<rparr>)
   | (PushTest, PLoaded x h) \<Rightarrow>
       if qp_full p q h (qp_tail p q) then Some (s\<lparr>cq_producer := PIdle, cq_pushes := cq_pushes s @ [(x, False)]\<rparr>)
       else Some (s\<lparr>cq_producer := PTested x\<rparr>)
   | (PushWrite, PTested x) \<Rightarrow> Some (s\<lparr>cq_queue := qp_write p (qp_tail p q) x q, cq_producer := PWritten x\<rparr>)
   | (PushStore, PWritten x) \<Rightarrow>
       Some (s\<lparr>cq_queue := qp_set_tail p (qp_next p q (qp_tail p q)) q, cq_producer := PIdle, cq_pushes := cq_pushes s @ [(x, True)]\<rparr>)
   | _ \<Rightarrow> None)"

definition pop_step :: "('q, 'i, 'a) queue_parts \<Rightarrow> 'a queue_event \<Rightarrow> ('q, 'i, 'a) shared_queue \<Rightarrow> ('q, 'i, 'a) shared_queue option" where
  "pop_step p e s = (let q = cq_queue s in case (e, cq_consumer s) of
     (PopLoad, CIdle) \<Rightarrow> Some (s\<lparr>cq_consumer := CLoaded (qp_tail p q)\<rparr>)
   | (PopTest, CLoaded t) \<Rightarrow>
       if qp_head p q = t then Some (s\<lparr>cq_consumer := CIdle, cq_pops := cq_pops s @ [None]\<rparr>)
       else Some (s\<lparr>cq_consumer := CTested\<rparr>)
   | (PopRead, CTested) \<Rightarrow> Some (s\<lparr>cq_consumer := CRead (qp_read p q (qp_head p q))\<rparr>)
   | (PopStore, CRead y) \<Rightarrow>
       Some (s\<lparr>cq_queue := qp_set_head p (qp_next p q (qp_head p q)) q, cq_consumer := CIdle, cq_pops := cq_pops s @ [Some y]\<rparr>)
   | _ \<Rightarrow> None)"

definition queue_step :: "('q, 'i, 'a) queue_parts \<Rightarrow> 'a queue_event \<Rightarrow> ('q, 'i, 'a) shared_queue \<Rightarrow> ('q, 'i, 'a) shared_queue option" where
  "queue_step p e s = (case e of
     PushLoad _ \<Rightarrow> push_step p e s | PushTest \<Rightarrow> push_step p e s | PushWrite \<Rightarrow> push_step p e s | PushStore \<Rightarrow> push_step p e s
   | _ \<Rightarrow> pop_step p e s)"

definition queue_start :: "'q \<Rightarrow> ('q, 'i, 'a) shared_queue" where
  "queue_start q = \<lparr>cq_queue = q, cq_producer = PIdle, cq_consumer = CIdle, cq_pushes = [], cq_pops = []\<rparr>"

definition queue_runs :: "('q, 'i, 'a) queue_parts \<Rightarrow> 'a queue_event list \<Rightarrow> ('q, 'i, 'a) shared_queue \<Rightarrow> ('q, 'i, 'a) shared_queue option" where
  "queue_runs p = run_steps (\<lambda>_ _. True) (queue_step p)"

text \<open>
  \<open>enqueueClientOrder\<close> may be called by every client session: the call holds \<open>enqueue_mutex\<close> while it pushes. \<open>en_holder\<close> is the session inside the lock with the order it brings,
  and whether it has begun its push; \<open>en_log\<close> records the calls that have finished their push, with the session.
\<close>

record ('q, 'i, 'a) enqueue_state =
  en_shared :: "('q, 'i, 'a) shared_queue"
  en_holder :: "(nat \<times> 'a \<times> bool) option"
  en_log :: "(nat \<times> 'a \<times> bool) list"

datatype 'a enqueue_event = Lock nat 'a | Inside nat "'a queue_event" | Unlock nat | Oms "'a queue_event"

definition enqueue_step :: "('q, 'i, 'a) queue_parts \<Rightarrow> 'a enqueue_event \<Rightarrow> ('q, 'i, 'a) enqueue_state \<Rightarrow> ('q, 'i, 'a) enqueue_state option" where
  "enqueue_step p ev s = (case ev of
     Lock i x \<Rightarrow> (case en_holder s of None \<Rightarrow> Some (s\<lparr>en_holder := Some (i, x, False)\<rparr>) | Some _ \<Rightarrow> None)
   | Inside i e \<Rightarrow> (case en_holder s of None \<Rightarrow> None | Some (j, x, begun) \<Rightarrow>
       if j = i \<and> (if begun then cq_producer (en_shared s) \<noteq> PIdle else e = PushLoad x)
       then map_option (\<lambda>c. s\<lparr>en_shared := c, en_holder := Some (i, x, True),
           en_log := en_log s @ map (Pair i) (drop (length (cq_pushes (en_shared s))) (cq_pushes c))\<rparr>) (push_step p e (en_shared s))
       else None)
   | Unlock i \<Rightarrow> (case en_holder s of Some (j, x, True) \<Rightarrow>
       if j = i \<and> cq_producer (en_shared s) = PIdle then Some (s\<lparr>en_holder := None\<rparr>) else None | _ \<Rightarrow> None)
   | Oms e \<Rightarrow> map_option (\<lambda>c. s\<lparr>en_shared := c\<rparr>) (pop_step p e (en_shared s)))"

definition enqueue_start :: "'q \<Rightarrow> ('q, 'i, 'a) enqueue_state" where
  "enqueue_start q = \<lparr>en_shared = queue_start q, en_holder = None, en_log = []\<rparr>"

definition enqueue_runs :: "('q, 'i, 'a) queue_parts \<Rightarrow> 'a enqueue_event list \<Rightarrow> ('q, 'i, 'a) enqueue_state \<Rightarrow> ('q, 'i, 'a) enqueue_state option" where
  "enqueue_runs p = run_steps (\<lambda>_ _. True) (enqueue_step p)"

text \<open>The orders session \<open>i\<close> brought, from its events; and the one it still has to push.\<close>

fun brought :: "nat \<Rightarrow> 'a enqueue_event list \<Rightarrow> 'a list" where
  "brought i [] = []"
| "brought i (Lock j x # es) = (if i = j then x # brought i es else brought i es)"
| "brought i (_ # es) = brought i es"

definition unpushed :: "nat \<Rightarrow> ('q, 'i, 'a) enqueue_state \<Rightarrow> 'a list" where
  "unpushed i s = (case en_holder s of None \<Rightarrow> []
     | Some (j, x, begun) \<Rightarrow> if i = j \<and> (begun \<longrightarrow> cq_producer (en_shared s) \<noteq> PIdle) then [x] else [])"

definition logged :: "nat \<Rightarrow> ('q, 'i, 'a) enqueue_state \<Rightarrow> 'a list" where
  "logged i s = map (fst \<circ> snd) (filter (\<lambda>l. fst l = i) (en_log s))"

text \<open>An operation that has loaded the other thread's index and will fail has its outcome settled already.\<close>

definition settled_push :: "('q, 'i, 'a) queue_parts \<Rightarrow> ('q, 'i, 'a) shared_queue \<Rightarrow> ('a \<times> bool) list" where
  "settled_push p s = (case cq_producer s of
     PLoaded x h \<Rightarrow> if qp_full p (cq_queue s) h (qp_tail p (cq_queue s)) then [(x, False)] else [] | _ \<Rightarrow> [])"

definition settled_pop :: "('q, 'i, 'a) queue_parts \<Rightarrow> ('q, 'i, 'a) shared_queue \<Rightarrow> 'a option list" where
  "settled_pop p s = (case cq_consumer s of CLoaded t \<Rightarrow> if qp_head p (cq_queue s) = t then [None] else [] | _ \<Rightarrow> [])"

text \<open>The producer is about to write, or has written and not yet published, the slot the consumer is about to read.\<close>

definition slots_clash :: "('q, 'i, 'a) queue_parts \<Rightarrow> ('q, 'i, 'a) shared_queue \<Rightarrow> bool" where
  "slots_clash p s \<longleftrightarrow> (case cq_producer s of PTested _ \<Rightarrow> True | PWritten _ \<Rightarrow> True | _ \<Rightarrow> False) \<and>
     (case cq_consumer s of CTested \<Rightarrow> True | CRead _ \<Rightarrow> True | _ \<Rightarrow> False) \<and>
     qp_slot p (cq_queue s) (qp_head p (cq_queue s)) = qp_slot p (cq_queue s) (qp_tail p (cq_queue s))"

section \<open>Whole operations and their outcomes\<close>

fun fifo_trace :: "('q \<Rightarrow> 'a \<Rightarrow> ('q \<times> bool) option) \<Rightarrow> ('q \<Rightarrow> ('q \<times> 'a option) option) \<Rightarrow>
    'a fifo_op list \<Rightarrow> 'q \<Rightarrow> ('q \<times> ('a \<times> bool) list \<times> 'a option list) option" where
  "fifo_trace push pop [] q = Some (q, [], [])"
| "fifo_trace push pop (Push x # ops) q = Option.bind (push q x) (\<lambda>(q', ok).
     map_option (\<lambda>(r, ps, vs). (r, (x, ok) # ps, vs)) (fifo_trace push pop ops q'))"
| "fifo_trace push pop (Pop # ops) q = Option.bind (pop q) (\<lambda>(q', v).
     map_option (\<lambda>(r, ps, vs). (r, ps, v # vs)) (fifo_trace push pop ops q'))"

lemma fifo_trace_push:
  "fifo_trace push pop ops q = Some (r, ps, vs) \<Longrightarrow> push r x = Some (r', ok) \<Longrightarrow>
    fifo_trace push pop (ops @ [Push x]) q = Some (r', ps @ [(x, ok)], vs)"
  by (induction push pop ops q arbitrary: ps vs rule: fifo_trace.induct) (fastforce simp: bind_eq_Some_conv)+

lemma fifo_trace_pop:
  "fifo_trace push pop ops q = Some (r, ps, vs) \<Longrightarrow> pop r = Some (r', v) \<Longrightarrow>
    fifo_trace push pop (ops @ [Pop]) q = Some (r', ps, vs @ [v])"
  by (induction push pop ops q arbitrary: ps vs rule: fifo_trace.induct) (fastforce simp: bind_eq_Some_conv)+

definition accepted :: "('a \<times> bool) list \<Rightarrow> 'a list" where
  "accepted ps = map fst (filter snd ps)"

definition delivered :: "'a option list \<Rightarrow> 'a list" where
  "delivered vs = map the (filter (\<lambda>v. v \<noteq> None) vs)"

lemma fifo_run_of_trace:
  "fifo_trace push pop ops q = Some (r, ps, vs) \<Longrightarrow> fifo_run push pop ops q = Some (r, accepted ps, delivered vs)"
proof (induction push pop ops q arbitrary: ps vs rule: fifo_trace.induct)
  case (2 push pop x ops q)
  from "2.prems" obtain q' ok ps' where q': "push q x = Some (q', ok)" "fifo_trace push pop ops q' = Some (r, ps', vs)" and ps: "ps = (x, ok) # ps'"
    by (auto simp: bind_eq_Some_conv)
  have "fifo_run push pop ops q' = Some (r, accepted ps', delivered vs)" by (rule "2.IH" [OF q'(1) refl q'(2)])
  then show ?case using q'(1) ps by (simp add: accepted_def)
next
  case (3 push pop ops q)
  from "3.prems" obtain q' v vs' where q': "pop q = Some (q', v)" "fifo_trace push pop ops q' = Some (r, ps, vs')" and vs: "vs = v # vs'"
    by (auto simp: bind_eq_Some_conv)
  have "fifo_run push pop ops q' = Some (r, accepted ps, delivered vs')" by (rule "3.IH" [OF q'(1) refl q'(2)])
  then show ?case using q'(1) vs by (cases v) (simp_all add: delivered_def)
qed (simp add: accepted_def delivered_def)

lemma settled_outcomes [simp]:
  "accepted (ps @ settled_push p s) = accepted ps" "delivered (vs @ settled_pop p s) = delivered vs"
  by (simp_all add: accepted_def delivered_def settled_push_def settled_pop_def split: producer_at.split consumer_at.split)

section \<open>The contract of the parts\<close>

locale split_queue = bounded_fifo push pop contents inv room
  for push :: "'q \<Rightarrow> 'a \<Rightarrow> ('q \<times> bool) option" and pop :: "'q \<Rightarrow> ('q \<times> 'a option) option"
    and contents :: "'q \<Rightarrow> 'a list" and inv :: "'q \<Rightarrow> bool" and room :: "'q \<Rightarrow> nat" +
  fixes p :: "('q, 'i, 'a) queue_parts"
  assumes push_parts: "inv q \<Longrightarrow> push q x = Some (if qp_full p q (qp_head p q) (qp_tail p q) then (q, False)
      else (qp_set_tail p (qp_next p q (qp_tail p q)) (qp_write p (qp_tail p q) x q), True))"
    and pop_parts: "inv q \<Longrightarrow> pop q = Some (if qp_head p q = qp_tail p q then (q, None)
      else (qp_set_head p (qp_next p q (qp_head p q)) q, Some (qp_read p q (qp_head p q))))"
    and write_frame: "inv (qp_write p i x q) = inv q" "qp_head p (qp_write p i x q) = qp_head p q"
      "qp_tail p (qp_write p i x q) = qp_tail p q" "qp_full p (qp_write p i x q) = qp_full p q"
      "qp_next p (qp_write p i x q) = qp_next p q" "qp_slot p (qp_write p i x q) = qp_slot p q"
    and head_frame: "qp_tail p (qp_set_head p i q) = qp_tail p q" "qp_full p (qp_set_head p i q) = qp_full p q"
      "qp_set_head p i (qp_write p j x q) = qp_write p j x (qp_set_head p i q)"
    and tail_frame: "qp_head p (qp_set_tail p i q) = qp_head p q"
    and disjoint_slots: "inv q \<Longrightarrow> qp_head p q \<noteq> qp_tail p q \<Longrightarrow> \<not> qp_full p q (qp_head p q) (qp_tail p q) \<Longrightarrow>
      qp_slot p q (qp_head p q) \<noteq> qp_slot p q (qp_tail p q)"
    and read_other: "qp_slot p q i \<noteq> qp_slot p q j \<Longrightarrow> qp_read p (qp_write p j x q) i = qp_read p q i"
begin

lemma full_iff: "inv q \<Longrightarrow> qp_full p q (qp_head p q) (qp_tail p q) \<longleftrightarrow> \<not> length (contents q) < room q"
  by (rule push_total [of q undefined], assumption) (use push_parts [of q undefined] in \<open>auto split: if_splits\<close>)

lemma empty_iff: "inv q \<Longrightarrow> qp_head p q = qp_tail p q \<longleftrightarrow> contents q = []"
proof (cases "contents q")
  case (Cons x xs)
  then show "inv q \<Longrightarrow> ?thesis" using pop_front [of q x xs] pop_parts [of q] by (auto split: if_splits)
qed (use pop_empty [of q] pop_parts [of q] in \<open>auto split: if_splits\<close>)

lemma read_front: "inv q \<Longrightarrow> contents q = x # xs \<Longrightarrow> qp_read p q (qp_head p q) = x"
  using pop_front [of q x xs] pop_parts [of q] by (auto split: if_splits)

text \<open>The whole-operation state \<open>r\<close> behind an interleaved state \<open>s\<close>.\<close>

definition behind :: "('q, 'i, 'a) shared_queue \<Rightarrow> 'q \<Rightarrow> bool" where
  "behind s r \<longleftrightarrow> inv r \<and>
     cq_queue s = (case cq_producer s of PWritten x \<Rightarrow> qp_write p (qp_tail p r) x r | _ \<Rightarrow> r) \<and>
     (case cq_producer s of PIdle \<Rightarrow> True
      | PLoaded x h \<Rightarrow> \<not> qp_full p r h (qp_tail p r) \<longrightarrow> length (contents r) < room r
      | _ \<Rightarrow> length (contents r) < room r) \<and>
     (case cq_consumer s of CIdle \<Rightarrow> True
      | CLoaded t \<Rightarrow> qp_head p r \<noteq> t \<longrightarrow> contents r \<noteq> []
      | CTested \<Rightarrow> contents r \<noteq> []
      | CRead y \<Rightarrow> contents r \<noteq> [] \<and> hd (contents r) = y)"

definition traced :: "'q \<Rightarrow> ('q, 'i, 'a) shared_queue \<Rightarrow> bool" where
  "traced q0 s \<longleftrightarrow> (\<exists>ops r. behind s r \<and>
     fifo_trace push pop ops q0 = Some (r, cq_pushes s @ settled_push p s, cq_pops s @ settled_pop p s))"

lemma push_at:
  fixes x :: 'a
  assumes "inv r" "length (contents r) < room r"
  defines "r' \<equiv> qp_set_tail p (qp_next p r (qp_tail p r)) (qp_write p (qp_tail p r) x r)"
  shows "push r x = Some (r', True)" "inv r'" "contents r' = contents r @ [x]" "room r' = room r" "qp_head p r' = qp_head p r"
  using push_accept [OF assms(1,2), of x] push_parts [OF assms(1), of x] full_iff [OF assms(1)] assms(2)
  by (simp_all add: r'_def tail_frame write_frame)

lemma pop_at:
  assumes "inv r" "contents r \<noteq> []"
  defines "r' \<equiv> qp_set_head p (qp_next p r (qp_head p r)) r"
  shows "pop r = Some (r', Some (hd (contents r)))" "inv r'" "contents r' = tl (contents r)" "room r' = room r" "qp_tail p r' = qp_tail p r"
proof -
  obtain x xs where c: "contents r = x # xs" using assms(2) by (cases "contents r") simp_all
  show "pop r = Some (r', Some (hd (contents r)))" "inv r'" "contents r' = tl (contents r)" "room r' = room r" "qp_tail p r' = qp_tail p r"
    using pop_front [OF assms(1) c] pop_parts [OF assms(1)] empty_iff [OF assms(1)] assms(2) c by (simp_all add: r'_def head_frame)
qed

lemma behind_reads:
  assumes "behind s r"
  shows "inv r" "qp_head p (cq_queue s) = qp_head p r" "qp_tail p (cq_queue s) = qp_tail p r" "qp_full p (cq_queue s) = qp_full p r"
    "qp_next p (cq_queue s) = qp_next p r" "qp_slot p (cq_queue s) = qp_slot p r" "inv (cq_queue s)"
  using assms by (auto simp: behind_def write_frame split: producer_at.splits)

lemma behind_no_clash:
  assumes "behind s r"
  shows "\<not> slots_clash p s"
proof -
  have "qp_slot p r (qp_head p r) \<noteq> qp_slot p r (qp_tail p r)" if "length (contents r) < room r" "contents r \<noteq> []"
    using disjoint_slots [of r] full_iff [of r] empty_iff [of r] behind_reads(1) [OF assms] that by simp
  then show ?thesis
    using assms behind_reads [OF assms] by (auto simp: slots_clash_def behind_def split: producer_at.splits consumer_at.splits)
qed

lemma behind_read:
  assumes "behind s r" "cq_consumer s = CTested"
  shows "qp_read p (cq_queue s) (qp_head p (cq_queue s)) = hd (contents r)"
proof -
  have r: "inv r" "contents r \<noteq> []" using assms by (auto simp: behind_def)
  then have front: "qp_read p r (qp_head p r) = hd (contents r)" using read_front [OF r(1)] by (cases "contents r") simp_all
  show ?thesis
  proof (cases "cq_producer s")
    case (PWritten x)
    then have "qp_slot p r (qp_head p r) \<noteq> qp_slot p r (qp_tail p r)"
      using behind_no_clash [OF assms(1)] behind_reads [OF assms(1)] assms(2) by (simp add: slots_clash_def)
    moreover have "cq_queue s = qp_write p (qp_tail p r) x r" using assms(1) PWritten by (simp add: behind_def)
    ultimately show ?thesis using front by (simp add: read_other write_frame)
  qed (use assms(1) front in \<open>simp_all add: behind_def\<close>)
qed

lemmas step_defs = queue_step_def push_step_def pop_step_def settled_push_def settled_pop_def Let_def

text \<open>A push takes effect when it loads, if it fails, and when it stores its index, if it succeeds; a pop likewise.\<close>

lemma traced_push_load:
  assumes "traced q0 s" "queue_step p (PushLoad x) s = Some s'"
  shows "traced q0 s'"
proof -
  obtain ops r where r: "behind s r" "fifo_trace push pop ops q0 = Some (r, cq_pushes s @ settled_push p s, cq_pops s @ settled_pop p s)"
    using assms(1) by (auto simp: traced_def)
  have s: "cq_producer s = PIdle" "s' = s\<lparr>cq_producer := PLoaded x (qp_head p r)\<rparr>"
    using assms(2) behind_reads [OF r(1)] by (auto simp: step_defs split: producer_at.splits)
  have b: "behind s' r" using r(1) s full_iff [OF behind_reads(1) [OF r(1)]] by (simp add: behind_def)
  show ?thesis
  proof (cases "qp_full p r (qp_head p r) (qp_tail p r)")
    case True
    then have "push r x = Some (r, False)" using push_parts [OF behind_reads(1) [OF r(1)]] by simp
    from fifo_trace_push [OF r(2) this] show ?thesis
      unfolding traced_def using b True s behind_reads [OF r(1)] by (intro exI [of _ "ops @ [Push x]"] exI [of _ r]) (simp add: step_defs split: producer_at.split consumer_at.split)
  qed (use b r s behind_reads [OF r(1)] in \<open>auto simp: traced_def step_defs intro!: exI [of _ ops] exI [of _ r] split: producer_at.split consumer_at.split\<close>)
qed

lemma traced_push_test:
  assumes "traced q0 s" "queue_step p PushTest s = Some s'"
  shows "traced q0 s'"
proof -
  obtain ops r where r: "behind s r" "fifo_trace push pop ops q0 = Some (r, cq_pushes s @ settled_push p s, cq_pops s @ settled_pop p s)"
    using assms(1) by (auto simp: traced_def)
  obtain x h where x: "cq_producer s = PLoaded x h" using assms(2) by (auto simp: step_defs split: producer_at.splits)
  have q: "cq_queue s = r" "inv r" using r(1) x by (auto simp: behind_def)
  have s': "s' = (if qp_full p r h (qp_tail p r) then s\<lparr>cq_producer := PIdle, cq_pushes := cq_pushes s @ [(x, False)]\<rparr>
      else s\<lparr>cq_producer := PTested x\<rparr>)"
    using assms(2) x q by (auto simp: step_defs)
  have "behind s' r" using r(1) x by (auto simp: s' behind_def)
  moreover have "settled_pop p s' = settled_pop p s" by (auto simp: s' settled_pop_def split: consumer_at.split)
  moreover have "cq_pushes s' @ settled_push p s' = cq_pushes s @ settled_push p s" "cq_pops s' = cq_pops s"
    using x q by (simp_all add: s' settled_push_def)
  ultimately show ?thesis using r(2) unfolding traced_def by (intro exI [of _ ops] exI [of _ r]) simp
qed

lemma traced_push_write:
  assumes "traced q0 s" "queue_step p PushWrite s = Some s'"
  shows "traced q0 s'"
proof -
  obtain ops r where r: "behind s r" "fifo_trace push pop ops q0 = Some (r, cq_pushes s @ settled_push p s, cq_pops s @ settled_pop p s)"
    using assms(1) by (auto simp: traced_def)
  then show ?thesis using assms(2) behind_reads [OF r(1)] unfolding traced_def
    by (intro exI [of _ ops] exI [of _ r]) (auto simp: step_defs behind_def write_frame split: producer_at.splits consumer_at.split if_splits)
qed

lemma traced_push_store:
  assumes "traced q0 s" "queue_step p PushStore s = Some s'"
  shows "traced q0 s'"
proof -
  obtain ops r where r: "behind s r" "fifo_trace push pop ops q0 = Some (r, cq_pushes s @ settled_push p s, cq_pops s @ settled_pop p s)"
    using assms(1) by (auto simp: traced_def)
  obtain x where x: "cq_producer s = PWritten x" using assms(2) by (auto simp: step_defs split: producer_at.splits)
  define r' where "r' = qp_set_tail p (qp_next p r (qp_tail p r)) (qp_write p (qp_tail p r) x r)"
  have lt: "length (contents r) < room r" and q: "cq_queue s = qp_write p (qp_tail p r) x r" using r(1) x by (simp_all add: behind_def)
  note at = push_at [OF behind_reads(1) [OF r(1)] lt, of x, folded r'_def]
  have s': "s' = s\<lparr>cq_queue := r', cq_producer := PIdle, cq_pushes := cq_pushes s @ [(x, True)]\<rparr>"
    using assms(2) x q by (simp add: step_defs r'_def write_frame)
  have "behind s' r'" using r(1) at by (auto simp: s' behind_def split: consumer_at.splits)
  moreover have "settled_pop p s' = settled_pop p s" using at(5) behind_reads(2) [OF r(1)] by (simp add: s' settled_pop_def split: consumer_at.split)
  ultimately show ?thesis using fifo_trace_push [OF r(2) at(1)] x unfolding traced_def
    by (intro exI [of _ "ops @ [Push x]"] exI [of _ r']) (simp add: s' settled_push_def)
qed

lemma traced_pop_load:
  assumes "traced q0 s" "queue_step p PopLoad s = Some s'"
  shows "traced q0 s'"
proof -
  obtain ops r where r: "behind s r" "fifo_trace push pop ops q0 = Some (r, cq_pushes s @ settled_push p s, cq_pops s @ settled_pop p s)"
    using assms(1) by (auto simp: traced_def)
  have s: "cq_consumer s = CIdle" "s' = s\<lparr>cq_consumer := CLoaded (qp_tail p r)\<rparr>"
    using assms(2) behind_reads [OF r(1)] by (auto simp: step_defs split: consumer_at.splits)
  have b: "behind s' r" using r(1) s empty_iff [OF behind_reads(1) [OF r(1)]] by (simp add: behind_def)
  show ?thesis
  proof (cases "qp_head p r = qp_tail p r")
    case True
    then have "pop r = Some (r, None)" using pop_parts [OF behind_reads(1) [OF r(1)]] by simp
    from fifo_trace_pop [OF r(2) this] show ?thesis
      unfolding traced_def using b True s behind_reads [OF r(1)] by (intro exI [of _ "ops @ [Pop]"] exI [of _ r]) (simp add: step_defs split: producer_at.split consumer_at.split)
  qed (use b r s behind_reads [OF r(1)] in \<open>auto simp: traced_def step_defs intro!: exI [of _ ops] exI [of _ r] split: producer_at.split consumer_at.split\<close>)
qed

lemma traced_pop_test:
  assumes "traced q0 s" "queue_step p PopTest s = Some s'"
  shows "traced q0 s'"
proof -
  obtain ops r where r: "behind s r" "fifo_trace push pop ops q0 = Some (r, cq_pushes s @ settled_push p s, cq_pops s @ settled_pop p s)"
    using assms(1) by (auto simp: traced_def)
  obtain t where t: "cq_consumer s = CLoaded t" using assms(2) by (auto simp: step_defs split: consumer_at.splits)
  have s': "s' = (if qp_head p r = t then s\<lparr>cq_consumer := CIdle, cq_pops := cq_pops s @ [None]\<rparr> else s\<lparr>cq_consumer := CTested\<rparr>)"
    using assms(2) t behind_reads [OF r(1)] by (auto simp: step_defs)
  have "behind s' r" using r(1) t by (auto simp: s' behind_def)
  moreover have "settled_push p s' = settled_push p s" by (auto simp: s' settled_push_def split: producer_at.split)
  moreover have "cq_pops s' @ settled_pop p s' = cq_pops s @ settled_pop p s" "cq_pushes s' = cq_pushes s"
    using t behind_reads [OF r(1)] by (simp_all add: s' settled_pop_def)
  ultimately show ?thesis using r(2) unfolding traced_def by (intro exI [of _ ops] exI [of _ r]) simp
qed

lemma traced_pop_read:
  assumes "traced q0 s" "queue_step p PopRead s = Some s'"
  shows "traced q0 s'"
proof -
  obtain ops r where r: "behind s r" "fifo_trace push pop ops q0 = Some (r, cq_pushes s @ settled_push p s, cq_pops s @ settled_pop p s)"
    using assms(1) by (auto simp: traced_def)
  have s: "cq_consumer s = CTested" using assms(2) by (auto simp: step_defs split: consumer_at.splits)
  then show ?thesis using r assms(2) behind_read [OF r(1) s] unfolding traced_def
    by (intro exI [of _ ops] exI [of _ r]) (auto simp: step_defs behind_def split: producer_at.split)
qed

lemma traced_pop_store:
  assumes "traced q0 s" "queue_step p PopStore s = Some s'"
  shows "traced q0 s'"
proof -
  obtain ops r where r: "behind s r" "fifo_trace push pop ops q0 = Some (r, cq_pushes s @ settled_push p s, cq_pops s @ settled_pop p s)"
    using assms(1) by (auto simp: traced_def)
  obtain y where y: "cq_consumer s = CRead y" using assms(2) by (auto simp: step_defs split: consumer_at.splits)
  define r' where "r' = qp_set_head p (qp_next p r (qp_head p r)) r"
  have c: "contents r \<noteq> []" "hd (contents r) = y" using r(1) y by (simp_all add: behind_def)
  note at = pop_at [OF behind_reads(1) [OF r(1)] c(1), folded r'_def, unfolded c(2)]
  define q' where "q' = qp_set_head p (qp_next p r (qp_head p r)) (cq_queue s)"
  have s': "s' = s\<lparr>cq_queue := q', cq_consumer := CIdle, cq_pops := cq_pops s @ [Some y]\<rparr>"
    using assms(2) y behind_reads [OF r(1)] by (simp add: step_defs q'_def)
  have q': "q' = (case cq_producer s of PWritten x \<Rightarrow> qp_write p (qp_tail p r') x r' | _ \<Rightarrow> r')"
    using r(1) at(5) by (auto simp: q'_def r'_def behind_def head_frame split: producer_at.splits)
  have "behind s' r'" using r(1) at c q' by (auto simp: s' behind_def r'_def head_frame split: producer_at.splits)
  moreover have "settled_push p s' = settled_push p s" by (simp add: s' settled_push_def q'_def head_frame split: producer_at.split)
  ultimately show ?thesis using fifo_trace_pop [OF r(2) at(1)] y unfolding traced_def
    by (intro exI [of _ "ops @ [Pop]"] exI [of _ r']) (simp add: s' settled_pop_def)
qed

lemma traced_step: "traced q0 s \<Longrightarrow> queue_step p e s = Some s' \<Longrightarrow> traced q0 s'"
  by (cases e) (metis traced_push_load traced_push_test traced_push_write traced_push_store traced_pop_load traced_pop_test
      traced_pop_read traced_pop_store)+

lemma traced_start: "inv q0 \<Longrightarrow> traced q0 (queue_start q0)"
  by (auto simp: traced_def queue_start_def behind_def settled_push_def settled_pop_def intro!: exI [of _ "[]"])

lemma traced_run: "inv q0 \<Longrightarrow> queue_runs p es (queue_start q0) = Some s \<Longrightarrow> traced q0 s"
proof -
  have i: "step_invariant (\<lambda>_ _. True) (queue_step p) (traced q0)" by unfold_locales (rule traced_step)
  show "inv q0 \<Longrightarrow> queue_runs p es (queue_start q0) = Some s \<Longrightarrow> traced q0 s"
    using step_invariant.run_inv [OF i] traced_start unfolding queue_runs_def by blast
qed

text \<open>Every interleaving returns what some sequence of whole operations returns, and its two threads never meet on a slot.\<close>

lemma interleaved:
  assumes "inv q0" "contents q0 = []" "queue_runs p es (queue_start q0) = Some s"
  shows "\<exists>ops r ps vs. fifo_trace push pop ops q0 = Some (r, ps, vs) \<and> ps = cq_pushes s @ settled_push p s \<and> vs = cq_pops s @ settled_pop p s \<and>
    accepted ps = delivered vs @ contents r \<and> qp_head p (cq_queue s) = qp_head p r \<and> qp_tail p (cq_queue s) = qp_tail p r"
    "\<not> slots_clash p s" "inv (cq_queue s)"
proof -
  obtain ops r where r: "behind s r" "fifo_trace push pop ops q0 = Some (r, cq_pushes s @ settled_push p s, cq_pops s @ settled_pop p s)"
    using traced_run [OF assms(1,3)] by (auto simp: traced_def)
  show "\<not> slots_clash p s" "inv (cq_queue s)" using behind_no_clash [OF r(1)] behind_reads(7) [OF r(1)] by simp_all
  have "accepted (cq_pushes s @ settled_push p s) = delivered (cq_pops s @ settled_pop p s) @ contents r"
    using run_history [OF assms(1), of ops] fifo_run_of_trace [OF r(2)] assms(2) by simp
  then show "\<exists>ops r ps vs. fifo_trace push pop ops q0 = Some (r, ps, vs) \<and> ps = cq_pushes s @ settled_push p s \<and> vs = cq_pops s @ settled_pop p s \<and>
    accepted ps = delivered vs @ contents r \<and> qp_head p (cq_queue s) = qp_head p r \<and> qp_tail p (cq_queue s) = qp_tail p r"
    using r(2) behind_reads [OF r(1)] by blast
qed

end

section \<open>The queues of the program\<close>

definition spsc_parts :: "nat \<Rightarrow> ('a spsc, u64, 'a) queue_parts" where
  "spsc_parts k = \<lparr>qp_head = sq_head, qp_tail = sq_tail,
     qp_set_head = (\<lambda>i q. q\<lparr>sq_head := i\<rparr>), qp_set_tail = (\<lambda>i q. q\<lparr>sq_tail := i\<rparr>),
     qp_full = (\<lambda>q h t. (t + 1) AND (2 ^ k - 1) = h AND (2 ^ k - 1)), qp_next = (\<lambda>q i. i + 1),
     qp_slot = (\<lambda>q i. unat (i AND (2 ^ k - 1))),
     qp_write = (\<lambda>i x q. q\<lparr>sq_array := (sq_array q)(i AND (2 ^ k - 1) := x)\<rparr>),
     qp_read = (\<lambda>q i. sq_array q (i AND (2 ^ k - 1)))\<rparr>"

text \<open>The listener's copy of the class holds sequence numbers; \<open>give_region\<close> and \<open>get_region\<close> of the store are the push and pop of a queue of 32 slots.\<close>

definition Client_queue_parts :: "(u64 spsc, u64, u64) queue_parts" where
  "Client_queue_parts = spsc_parts 20"

definition region_queue_parts :: "(nat spsc, u64, nat) queue_parts" where
  "region_queue_parts = spsc_parts 5"

definition RingBuffer_parts :: "('a RingBuffer, u32, 'a) queue_parts" where
  "RingBuffer_parts = \<lparr>qp_head = rb_head, qp_tail = rb_tail,
     qp_set_head = (\<lambda>i q. q\<lparr>rb_head := i\<rparr>), qp_set_tail = (\<lambda>i q. q\<lparr>rb_tail := i\<rparr>),
     qp_full = (\<lambda>q h t. rb_next q t = h), qp_next = rb_next, qp_slot = (\<lambda>q i. unat i),
     qp_write = (\<lambda>i x q. q\<lparr>rb_buffer := (rb_buffer q)[unat i := x]\<rparr>),
     qp_read = (\<lambda>q i. rb_buffer q ! unat i)\<rparr>"

lemma spsc_disjoint:
  fixes h t :: u64
  assumes "k < 64" "unat (t - h) < 2 ^ k" "h \<noteq> t"
  shows "take_bit k h \<noteq> take_bit k t"
proof -
  have "0 < unat (t - h)" using assms(3) by (simp add: unat_gt_0)
  then have "take_bit k (h + of_nat 0) \<noteq> take_bit k (h + of_nat (unat (t - h)))"
    using assms(1,2) by (intro take_bit_offset_inject) simp_all
  then show ?thesis by simp
qed

lemma spsc_split_queue:
  assumes "0 < k" "k < 64"
  shows "split_queue (spsc_push k) (spsc_pop k) (spsc_contents k) (spsc_inv k) (\<lambda>_. 2 ^ k - 1) (spsc_parts k)"
  using spsc_bounded_fifo [OF assms] spsc_disjoint [OF assms(2)]
  by (intro split_queue.intro split_queue_axioms.intro)
    (auto simp: spsc_parts_def spsc_push_def spsc_pop_def spsc_inv_def mask_eq_take_bit)

interpretation sqt: split_queue "spsc_push 20" "spsc_pop 20" "spsc_contents 20" "spsc_inv 20" "\<lambda>_. 2 ^ 20 - 1" "spsc_parts 20"
  by (rule spsc_split_queue) simp_all

interpretation rqt: split_queue "spsc_push 5" "spsc_pop 5" "spsc_contents 5" "spsc_inv 5" "\<lambda>_. 2 ^ 5 - 1" "spsc_parts 5"
  by (rule spsc_split_queue) simp_all

interpretation rbt: split_queue RingBuffer_push RingBuffer_pop rb_contents rb_inv rb_room RingBuffer_parts
  by unfold_locales (auto simp: RingBuffer_parts_def RingBuffer_push_def RingBuffer_pop_def Let_def rb_tail_in_bounds rb_next_def rb_inv_def rb_period_def)

subsection \<open>Many sessions behind one lock\<close>

lemma queue_step_of_push: "push_step p e c = Some c' \<Longrightarrow> queue_step p e c = Some c'"
  by (auto simp: queue_step_def push_step_def Let_def split: queue_event.splits producer_at.splits)

lemma queue_step_of_pop: "pop_step p e c = Some c' \<Longrightarrow> queue_step p e c = Some c'"
  by (auto simp: queue_step_def pop_step_def Let_def split: queue_event.splits consumer_at.splits)

lemma pop_step_producer: "pop_step p e c = Some c' \<Longrightarrow> cq_producer c' = cq_producer c \<and> cq_pushes c' = cq_pushes c"
  by (auto simp: pop_step_def Let_def split: queue_event.splits consumer_at.splits if_splits)

text \<open>The order a push in progress carries.\<close>

fun carried :: "('i, 'a) producer_at \<Rightarrow> 'a option" where
  "carried PIdle = None"
| "carried (PLoaded x h) = Some x"
| "carried (PTested x) = Some x"
| "carried (PWritten x) = Some x"

lemma carried_None [simp]: "carried c = None \<longleftrightarrow> c = PIdle"
  by (cases c) simp_all

lemma push_step_carries:
  assumes "push_step p e c = Some c'"
  shows "case carried (cq_producer c) of
     None \<Rightarrow> \<exists>x. e = PushLoad x \<and> carried (cq_producer c') = Some x \<and> cq_pushes c' = cq_pushes c
   | Some x \<Rightarrow> (carried (cq_producer c') = Some x \<and> cq_pushes c' = cq_pushes c) \<or>
       (cq_producer c' = PIdle \<and> (\<exists>ok. cq_pushes c' = cq_pushes c @ [(x, ok)]))"
  using assms by (cases e; cases "cq_producer c") (auto simp: push_step_def Let_def split: if_splits)

definition serial :: "('q, 'i, 'a) enqueue_state \<Rightarrow> bool" where
  "serial s \<longleftrightarrow> map snd (en_log s) = cq_pushes (en_shared s) \<and>
     (case en_holder s of None \<Rightarrow> cq_producer (en_shared s) = PIdle
      | Some (i, x, begun) \<Rightarrow> carried (cq_producer (en_shared s)) \<in> (if begun then {None, Some x} else {None}))"

definition enqueued_as :: "('q, 'i, 'a) queue_parts \<Rightarrow> 'a enqueue_event list \<Rightarrow> ('q, 'i, 'a) enqueue_state \<Rightarrow> ('q, 'i, 'a) enqueue_state \<Rightarrow> bool" where
  "enqueued_as p evs s s' \<longleftrightarrow> serial s' \<and> (\<exists>qs. queue_runs p qs (en_shared s) = Some (en_shared s')) \<and>
     (\<forall>i. logged i s @ unpushed i s @ brought i evs = logged i s' @ unpushed i s')"

lemma queue_runs_one: "queue_step p e c = Some c' \<Longrightarrow> \<exists>qs. queue_runs p qs c = Some c'"
  by (rule exI [of _ "[e]"]) (simp add: queue_runs_def)

lemma queue_runs_none: "\<exists>qs. queue_runs p qs c = Some c"
  by (rule exI [of _ "[]"]) (simp add: queue_runs_def)

lemma enqueue_inside:
  assumes "serial s" "enqueue_step p (Inside i e) s = Some s'"
  shows "enqueued_as p [Inside i e] s s'"
proof -
  obtain x begun where h: "en_holder s = Some (i, x, begun)" "if begun then cq_producer (en_shared s) \<noteq> PIdle else e = PushLoad x"
    using assms(2) by (auto simp: enqueue_step_def split: option.splits if_splits)
  then obtain c where c: "push_step p e (en_shared s) = Some c" and s': "s' = s\<lparr>en_shared := c, en_holder := Some (i, x, True),
      en_log := en_log s @ map (Pair i) (drop (length (cq_pushes (en_shared s))) (cq_pushes c))\<rparr>"
    using assms(2) by (auto simp: enqueue_step_def split: if_splits)
  note k = push_step_carries [OF c]
  have run: "\<exists>qs. queue_runs p qs (en_shared s) = Some (en_shared s')"
    using queue_runs_one [OF queue_step_of_push [OF c]] by (simp add: s')
  show ?thesis
  proof (cases "carried (cq_producer (en_shared s))")
    case None
    then have idle: "cq_producer (en_shared s) = PIdle" "\<not> begun" using h(2) by (auto split: if_splits)
    then have "carried (cq_producer c) = Some x" "cq_pushes c = cq_pushes (en_shared s)" using k h(2) None by auto
    then show ?thesis using assms(1) h(1) idle run
      by (auto simp: s' enqueued_as_def serial_def logged_def unpushed_def)
  next
    case (Some y)
    then have b: "begun" "y = x" using assms(1) h by (auto simp: serial_def split: if_splits)
    have busy: "cq_producer (en_shared s) \<noteq> PIdle" using Some by auto
    consider "carried (cq_producer c) = Some x" "cq_pushes c = cq_pushes (en_shared s)"
      | ok where "cq_producer c = PIdle" "cq_pushes c = cq_pushes (en_shared s) @ [(x, ok)]"
      using k Some b by auto
    then show ?thesis
    proof cases
      case 1
      then have "cq_producer c \<noteq> PIdle" by auto
      then show ?thesis using assms(1) h(1) b busy run 1
        by (auto simp: s' enqueued_as_def serial_def logged_def unpushed_def)
    next
      case 2
      then show ?thesis using assms(1) h(1) b busy run
        by (auto simp: s' enqueued_as_def serial_def logged_def unpushed_def)
    qed
  qed
qed

lemma enqueue_lock:
  assumes "serial s" "enqueue_step p (Lock i x) s = Some s'"
  shows "enqueued_as p [Lock i x] s s'"
  using assms queue_runs_none [of p]
  by (auto simp: enqueue_step_def enqueued_as_def serial_def logged_def unpushed_def split: option.splits)

lemma enqueue_unlock:
  assumes "serial s" "enqueue_step p (Unlock i) s = Some s'"
  shows "enqueued_as p [Unlock i] s s'"
  using assms queue_runs_none [of p]
  by (auto simp: enqueue_step_def enqueued_as_def serial_def logged_def unpushed_def split: option.splits bool.splits if_splits)

lemma enqueue_oms:
  assumes "serial s" "enqueue_step p (Oms e) s = Some s'"
  shows "enqueued_as p [Oms e] s s'"
proof -
  obtain c where c: "pop_step p e (en_shared s) = Some c" and s': "s' = s\<lparr>en_shared := c\<rparr>"
    using assms(2) by (auto simp: enqueue_step_def)
  show ?thesis using queue_runs_one [OF queue_step_of_pop [OF c]] pop_step_producer [OF c] assms(1)
    by (auto simp: s' enqueued_as_def serial_def logged_def unpushed_def split: option.splits if_splits)
qed

lemma enqueued_as_step: "serial s \<Longrightarrow> enqueue_step p ev s = Some s' \<Longrightarrow> enqueued_as p [ev] s s'"
  by (cases ev) (metis enqueue_lock enqueue_inside enqueue_unlock enqueue_oms)+

lemma brought_append: "brought i (xs @ ys) = brought i xs @ brought i ys"
  by (induction i xs rule: brought.induct) simp_all

lemma enqueued_as_trans:
  assumes "enqueued_as p xs s s1" "enqueued_as p ys s1 s2"
  shows "enqueued_as p (xs @ ys) s s2"
proof -
  obtain qs1 qs2 where "queue_runs p qs1 (en_shared s) = Some (en_shared s1)" "queue_runs p qs2 (en_shared s1) = Some (en_shared s2)"
    using assms by (auto simp: enqueued_as_def)
  then have "queue_runs p (qs1 @ qs2) (en_shared s) = Some (en_shared s2)" unfolding queue_runs_def by (rule run_steps_trans)
  moreover have "logged i s @ unpushed i s @ brought i (xs @ ys) = logged i s2 @ unpushed i s2" for i
    using assms unfolding enqueued_as_def brought_append by (metis append.assoc)
  ultimately show ?thesis using assms(2) by (auto simp: enqueued_as_def)
qed

lemma enqueued_as_run:
  "serial s \<Longrightarrow> enqueue_runs p evs s = Some s' \<Longrightarrow> enqueued_as p evs s s'"
proof (induction evs arbitrary: s)
  case Nil
  then show ?case using queue_runs_none by (simp add: enqueue_runs_def enqueued_as_def)
next
  case (Cons ev evs)
  then obtain s1 where s1: "enqueue_step p ev s = Some s1" "enqueue_runs p evs s1 = Some s'"
    by (auto simp: enqueue_runs_def bind_eq_Some_conv)
  have a: "enqueued_as p [ev] s s1" by (rule enqueued_as_step [OF Cons.prems(1) s1(1)])
  then have "serial s1" by (simp add: enqueued_as_def)
  from enqueued_as_trans [OF a Cons.IH [OF this s1(2)]] show ?case by simp
qed

lemma enqueued_from_start:
  assumes "enqueue_runs p evs (enqueue_start q) = Some s"
  shows "\<exists>qs. queue_runs p qs (queue_start q) = Some (en_shared s)" "map snd (en_log s) = cq_pushes (en_shared s)"
    "brought i evs = logged i s @ unpushed i s"
proof -
  have "serial (enqueue_start q)" by (simp add: serial_def enqueue_start_def queue_start_def)
  from enqueued_as_run [OF this assms]
  show "\<exists>qs. queue_runs p qs (queue_start q) = Some (en_shared s)" "map snd (en_log s) = cq_pushes (en_shared s)"
    "brought i evs = logged i s @ unpushed i s"
    by (auto simp: enqueued_as_def serial_def enqueue_start_def logged_def unpushed_def)
qed

text \<open>
  C15. Many sessions, one queue: under \<open>enqueue_mutex\<close> every interleaving of any number of sessions with the order management system's thread pushes each order a session brings
  once and in the order the session brought them; what the accepted calls pushed, in the order of the calls, is what the order management system has taken
  out followed by what is waiting; and the threads never meet on a slot.
\<close>

theorem enqueue_serialises_sessions:
  assumes "0 < unat cap" "pow2_part (unat cap) \<le> 2 ^ 32"
    and "enqueue_runs RingBuffer_parts evs (enqueue_start (RingBuffer_new cap z)) = Some s"
  shows "(\<forall>i. brought i evs = logged i s @ unpushed i s) \<and>
    (\<exists>r. rb_inv r \<and> accepted (map snd (en_log s)) = delivered (cq_pops (en_shared s)) @ rb_contents r \<and>
       rb_head (cq_queue (en_shared s)) = rb_head r \<and> rb_tail (cq_queue (en_shared s)) = rb_tail r) \<and>
    \<not> slots_clash RingBuffer_parts (en_shared s)"
proof -
  note new = rb_inv_new [OF assms(1,2), of z]
  have p: "qp_head RingBuffer_parts = rb_head" "qp_tail RingBuffer_parts = rb_tail" by (simp_all add: RingBuffer_parts_def)
  obtain qs where qs: "queue_runs RingBuffer_parts qs (queue_start (RingBuffer_new cap z)) = Some (en_shared s)"
    using enqueued_from_start(1) [OF assms(3)] by blast
  note i = rbt.interleaved [OF new(1,2) qs, unfolded p]
  obtain ops r where r: "fifo_trace RingBuffer_push RingBuffer_pop ops (RingBuffer_new cap z) =
      Some (r, cq_pushes (en_shared s) @ settled_push RingBuffer_parts (en_shared s), cq_pops (en_shared s) @ settled_pop RingBuffer_parts (en_shared s))"
    "accepted (cq_pushes (en_shared s) @ settled_push RingBuffer_parts (en_shared s)) =
      delivered (cq_pops (en_shared s) @ settled_pop RingBuffer_parts (en_shared s)) @ rb_contents r"
    "rb_head (cq_queue (en_shared s)) = rb_head r" "rb_tail (cq_queue (en_shared s)) = rb_tail r"
    using i(1) by blast
  have "rb_inv r" using rb.run_history [OF new(1), of ops] fifo_run_of_trace [OF r(1)] by auto
  moreover have "accepted (cq_pushes (en_shared s)) = delivered (cq_pops (en_shared s)) @ rb_contents r"
    using r(2) by (simp add: settled_outcomes)
  ultimately show ?thesis using r(3,4) i(2) enqueued_from_start(2,3) [OF assms(3)] by metis
qed

text \<open>
  C16. The order queues under two threads: however the accesses of \<open>RingBuffer::push\<close> and \<open>RingBuffer::pop\<close> interleave, every call returns what it returns in
  some sequence of whole operations, the calls that will fail included; what was accepted is what was delivered followed by what is waiting; the threads never
  meet on a slot, and no access leaves the vector.
\<close>

theorem ring_buffer_interleaved:
  assumes "0 < unat cap" "pow2_part (unat cap) \<le> 2 ^ 32"
    and "queue_runs RingBuffer_parts es (queue_start (RingBuffer_new cap z)) = Some s"
  shows "(\<exists>ops r ps vs. fifo_trace RingBuffer_push RingBuffer_pop ops (RingBuffer_new cap z) = Some (r, ps, vs) \<and>
      ps = cq_pushes s @ settled_push RingBuffer_parts s \<and> vs = cq_pops s @ settled_pop RingBuffer_parts s \<and>
      accepted ps = delivered vs @ rb_contents r \<and> rb_head (cq_queue s) = rb_head r \<and> rb_tail (cq_queue s) = rb_tail r) \<and>
    \<not> slots_clash RingBuffer_parts s \<and>
    unat (rb_head (cq_queue s)) < length (rb_buffer (cq_queue s)) \<and> unat (rb_tail (cq_queue s)) < length (rb_buffer (cq_queue s))"
proof -
  have p: "qp_head RingBuffer_parts = rb_head" "qp_tail RingBuffer_parts = rb_tail" by (simp_all add: RingBuffer_parts_def)
  note i = rbt.interleaved [OF rb_inv_new(1,2) [OF assms(1,2)] assms(3), unfolded p]
  show ?thesis using i rb_tail_in_bounds [OF i(3)] by blast
qed

text \<open>
  C17. The counter queues under two threads: the same holds for the accesses of \<open>push\<close> and \<open>pop\<close> of the three \<open>spsc_queue\<close> classes, with \<open>2^k\<close> slots and wherever the 64-bit
  counters stand.
\<close>

theorem spsc_interleaved:
  assumes "0 < k" "k < 64" "spsc_inv k q0" "spsc_contents k q0 = []" "queue_runs (spsc_parts k) es (queue_start q0) = Some s"
  shows "(\<exists>ops r ps vs. fifo_trace (spsc_push k) (spsc_pop k) ops q0 = Some (r, ps, vs) \<and>
      ps = cq_pushes s @ settled_push (spsc_parts k) s \<and> vs = cq_pops s @ settled_pop (spsc_parts k) s \<and>
      accepted ps = delivered vs @ spsc_contents k r \<and> sq_head (cq_queue s) = sq_head r \<and> sq_tail (cq_queue s) = sq_tail r) \<and>
    \<not> slots_clash (spsc_parts k) s"
proof -
  have p: "qp_head (spsc_parts k) = sq_head" "qp_tail (spsc_parts k) = sq_tail" by (simp_all add: spsc_parts_def)
  show ?thesis using split_queue.interleaved [OF spsc_split_queue [OF assms(1,2)] assms(3-5), unfolded p] by blast
qed

text \<open>The queue of missing messages in the listener and the queues of regions in the store are two of them.\<close>

theorem other_queues_interleaved:
  "spsc_inv 20 q0 \<Longrightarrow> spsc_contents 20 q0 = [] \<Longrightarrow> queue_runs Client_queue_parts es (queue_start q0) = Some s \<Longrightarrow>
    \<exists>ops r. fifo_trace (spsc_push 20) (spsc_pop 20) ops q0 =
      Some (r, cq_pushes s @ settled_push Client_queue_parts s, cq_pops s @ settled_pop Client_queue_parts s)"
  "spsc_inv 5 q1 \<Longrightarrow> spsc_contents 5 q1 = [] \<Longrightarrow> queue_runs region_queue_parts fs (queue_start q1) = Some u \<Longrightarrow>
    \<exists>ops r. fifo_trace (spsc_push 5) (spsc_pop 5) ops q1 =
      Some (r, cq_pushes u @ settled_push region_queue_parts u, cq_pops u @ settled_pop region_queue_parts u)"
  unfolding Client_queue_parts_def region_queue_parts_def by (auto dest!: sqt.interleaved(1) rqt.interleaved(1))

definition sample_events :: "nat queue_event list" where
  "sample_events = [PopLoad, PushLoad 7, PushTest, PushWrite, PopTest, PushStore, PopLoad, PushLoad 8, PopTest, PushTest, PopRead, PushWrite, PopStore, PushStore]"

definition sample_sessions :: "nat enqueue_event list" where
  "sample_sessions = [Lock 1 7, Inside 1 (PushLoad 7), Oms PopLoad, Inside 1 PushTest, Inside 1 PushWrite, Inside 1 PushStore, Oms PopTest, Unlock 1,
     Lock 2 8, Inside 2 (PushLoad 8), Oms PopLoad, Inside 2 PushTest, Oms PopTest, Inside 2 PushWrite, Oms PopRead, Inside 2 PushStore, Oms PopStore, Unlock 2]"

theorem ring_buffer_interleaved_witness:
  "\<exists>s. queue_runs RingBuffer_parts sample_events (queue_start (RingBuffer_new 8 0)) = Some s \<and>
    cq_pushes s = [(7, True), (8, True)] \<and> cq_pops s = [None, Some 7] \<and> \<not> slots_clash RingBuffer_parts s"
proof -
  have "pow2_part 8 = 8" by code_simp
  moreover obtain s where "queue_runs RingBuffer_parts sample_events (queue_start (RingBuffer_new 8 0)) = Some s"
    "cq_pushes s = [(7, True), (8, True)]" "cq_pops s = [None, Some 7]"
    by (simp add: queue_runs_def sample_events_def queue_start_def RingBuffer_new_def RingBuffer_parts_def queue_step_def push_step_def pop_step_def Let_def rb_next_def)
  ultimately show ?thesis using ring_buffer_interleaved [of 8 sample_events 0 s] by auto
qed

theorem enqueue_serialises_sessions_witness:
  "\<exists>s. enqueue_runs RingBuffer_parts sample_sessions (enqueue_start (RingBuffer_new 8 0)) = Some s \<and>
    en_log s = [(1, 7, True), (2, 8, True)] \<and> brought 2 sample_sessions = [8 :: nat] \<and> logged 2 s = [8] \<and> \<not> slots_clash RingBuffer_parts (en_shared s)"
proof -
  have "pow2_part 8 = 8" by code_simp
  moreover obtain s where s: "enqueue_runs RingBuffer_parts sample_sessions (enqueue_start (RingBuffer_new 8 0)) = Some s"
    "en_log s = [(1, 7, True), (2, 8, True)]" "en_holder s = None"
    by (simp add: enqueue_runs_def enqueue_step_def sample_sessions_def enqueue_start_def queue_start_def RingBuffer_new_def RingBuffer_parts_def
        push_step_def pop_step_def Let_def rb_next_def)
  ultimately have "\<forall>i. brought i sample_sessions = logged i s @ unpushed i s" "\<not> slots_clash RingBuffer_parts (en_shared s)"
    using enqueue_serialises_sessions [of 8 sample_sessions 0 s] by auto
  moreover have "brought 2 sample_sessions = [8]" "unpushed 2 s = []" using s by (simp_all add: sample_sessions_def unpushed_def)
  ultimately show ?thesis using s by (metis append_Nil2)
qed

text \<open>A start where the tail counter wraps around to zero with the first message.\<close>

theorem spsc_interleaved_witness:
  "\<exists>s. queue_runs (spsc_parts 20) sample_events (queue_start \<lparr>sq_array = (\<lambda>_. 0), sq_head = - 1, sq_tail = - 1\<rparr>) = Some s \<and>
    cq_pushes s = [(7, True), (8, True)] \<and> cq_pops s = [None, Some 7] \<and> \<not> slots_clash (spsc_parts 20) s"
proof -
  let ?q = "\<lparr>sq_array = (\<lambda>_. 0 :: nat), sq_head = - 1, sq_tail = - 1\<rparr>"
  obtain s where s: "queue_runs (spsc_parts 20) sample_events (queue_start ?q) = Some s"
    "cq_pushes s = [(7, True), (8, True)]" "cq_pops s = [None, Some 7]"
    by (simp add: queue_runs_def sample_events_def queue_start_def spsc_parts_def queue_step_def push_step_def pop_step_def Let_def)
  moreover have "spsc_inv 20 ?q" "spsc_contents 20 ?q = []" by (simp_all add: spsc_inv_def spsc_contents_def)
  ultimately show ?thesis using spsc_interleaved [of 20 ?q sample_events s] by auto
qed

end
