(* ===== verification/Oms_Stops.thy ===== *)
theory Oms_Stops
  imports Oms_Run
begin

text \<open>
  The stop-loss registry: the two heaps of a symbol are priority queues in the sense of \<open>Price_Heap\<close>, and a change of the last
  traded price fires exactly the stops it has reached.
\<close>

section \<open>The heaps\<close>

interpretation sell_stop_heap: priority_queue MaxTrigger "heap_push MaxTrigger" heap_top heap_pop mset "heap_sorted MaxTrigger"
  by (rule heap_priority_queue) (auto simp: MaxTrigger_def)

interpretation buy_stop_heap: priority_queue MinTrigger "heap_push MinTrigger" heap_top heap_pop mset "heap_sorted MinTrigger"
  by (rule heap_priority_queue) (auto simp: MinTrigger_def)

definition stops_inv :: "OrderManagementSystem \<Rightarrow> bool" where
  "stops_inv s \<longleftrightarrow> (\<forall>k. heap_sorted MaxTrigger (sell_stops (stop_loss_registry s k)) \<and>
     heap_sorted MinTrigger (buy_stops (stop_loss_registry s k)) \<and> (\<forall>c \<in> stops_at s k. \<exists>symbol. c_str (c_symbol c) = Some symbol))"

lemma stops_inv_cong: "stop_loss_registry s' = stop_loss_registry s \<Longrightarrow> stops_inv s' \<longleftrightarrow> stops_inv s"
  by (simp add: stops_inv_def stops_at_def)

lemma stops_inv_register:
  assumes "stops_inv s" "admitted s c" shows "stops_inv (registerStopLoss s c)"
proof -
  have "\<exists>symbol. c_str (c_symbol c) = Some symbol" using assms(2) by (auto simp: admitted_def)
  then show ?thesis
    using assms(1) sell_stop_heap.inv_push buy_stop_heap.inv_push
    by (auto simp: stops_inv_def registerStopLoss_def stops_at_def Let_def)
qed

section \<open>What a price change fires\<close>

text \<open>The engine order of a triggered client order.\<close>

definition triggered :: "OrderManagementSystem \<Rightarrow> ClientOrder \<Rightarrow> Order \<Rightarrow> bool" where
  "triggered s c x \<longleftrightarrow> o_execution_type x = LIMIT \<and> o_price x = c_price c \<and> o_quantity x = c_quantity c \<and> o_type x = c_type c \<and>
     o_trader_id x = c_trader_id c \<and> o_client_order_id x = c_client_order_id c \<and>
     o_symbol_id x = find_id s (the (c_str (c_symbol c)))"

lemma triggered_cong: "symbolLookupTable s' = symbolLookupTable s \<Longrightarrow> triggered s' = triggered s"
  by (simp add: fun_eq_iff triggered_def find_id_def Let_def)

lemma trigger_order_ok:
  assumes "c_str (c_symbol c) = Some symbol"
  obtains s' x where "trigger_order clk s c = Some s'" "oms_sent s' = oms_sent s @ [x]" "triggered s c x"
proof -
  obtain s' where s': "trigger_order clk s c = Some s'"
    using assms by (simp add: trigger_order_def fetch_order_id_def getCurrentTimestamp_def)
  show thesis
  proof (rule trigger_order_cases [OF s'])
    fix symbol' assume *: "c_str (c_symbol c) = Some symbol'"
      and eq: "s' = sendToEngine (s\<lparr>next_oms_order_id := next_oms_order_id s + 1, oms_ticks := oms_ticks s + 1\<rparr>)
        \<lparr>o_order_id = next_oms_order_id s, o_execution_type = LIMIT, o_price = c_price c, o_timestamp = clk (oms_ticks s),
         o_trader_id = c_trader_id c, o_type = c_type c, o_symbol_id = find_id s symbol', o_quantity = c_quantity c,
         o_client_order_id = c_client_order_id c\<rparr>"
    show thesis by (rule that [OF s']) (simp add: eq, simp add: triggered_def *)
  qed
qed

lemma trigger_loop_ok:
  assumes "\<forall>c \<in> set cs. \<exists>symbol. c_str (c_symbol c) = Some symbol"
  shows "\<exists>s' xs. trigger_loop clk fires s cs = Some (s', dropWhile fires cs) \<and>
    oms_sent s' = oms_sent s @ xs \<and> list_all2 (triggered s) (takeWhile fires cs) xs"
  using assms
proof (induction cs arbitrary: s)
  case (Cons c cs)
  show ?case
  proof (cases "fires c")
    case True
    obtain symbol where "c_str (c_symbol c) = Some symbol" using Cons.prems by auto
    then obtain s1 x where s1: "trigger_order clk s c = Some s1" "oms_sent s1 = oms_sent s @ [x]" "triggered s c x"
      by (rule trigger_order_ok)
    have t: "triggered s1 = triggered s" by (rule triggered_cong) (rule trigger_order_frame [OF s1(1)])
    have "\<forall>c \<in> set cs. \<exists>symbol. c_str (c_symbol c) = Some symbol" using Cons.prems by simp
    then obtain s' xs where r: "trigger_loop clk fires s1 cs = Some (s', dropWhile fires cs)"
      "oms_sent s' = oms_sent s1 @ xs" "list_all2 (triggered s1) (takeWhile fires cs) xs"
      using Cons.IH [of s1] by blast
    have "trigger_loop clk fires s (c # cs) = Some (s', dropWhile fires (c # cs))" using True s1(1) r(1) by simp
    moreover have "oms_sent s' = oms_sent s @ (x # xs)" using r(2) s1(2) by simp
    moreover have "list_all2 (triggered s) (takeWhile fires (c # cs)) (x # xs)" using True r(3) s1(3) t by simp
    ultimately show ?thesis by blast
  qed simp
qed simp

text \<open>In a list sorted by priority the stops that fire are a prefix.\<close>

lemma sorted_split:
  assumes "heap_sorted cmp cs" "\<And>x y. \<not> cmp x y \<Longrightarrow> fires y \<Longrightarrow> fires x"
  shows "takeWhile fires cs = filter fires cs" "dropWhile fires cs = filter (\<lambda>c. \<not> fires c) cs"
proof -
  have "takeWhile fires cs = filter fires cs \<and> dropWhile fires cs = filter (\<lambda>c. \<not> fires c) cs"
    using assms(1)
  proof (induction cs)
    case (Cons c cs)
    have "fires c" if "y \<in> set cs" "fires y" for y using assms(2) [of c y] Cons.prems that by (auto simp: heap_sorted_def)
    then have "filter fires cs = [] \<and> filter (\<lambda>c. \<not> fires c) cs = cs" if "\<not> fires c"
      using that by (auto simp: filter_empty_conv filter_id_conv)
    then show ?case using Cons by (auto simp: heap_sorted_def)
  qed simp
  then show "takeWhile fires cs = filter fires cs" "dropWhile fires cs = filter (\<lambda>c. \<not> fires c) cs" by simp_all
qed

lemma sell_split:
  assumes "heap_sorted MaxTrigger cs"
  shows "takeWhile (\<lambda>c. ltp \<le> c_trigger_price c) cs = filter (\<lambda>c. ltp \<le> c_trigger_price c) cs"
    "dropWhile (\<lambda>c. ltp \<le> c_trigger_price c) cs = filter (\<lambda>c. c_trigger_price c < ltp) cs"
  using sorted_split [OF assms, of "\<lambda>c. ltp \<le> c_trigger_price c"] by (auto simp: MaxTrigger_def not_le)

lemma buy_split:
  assumes "heap_sorted MinTrigger cs"
  shows "takeWhile (\<lambda>c. ltp \<ge> c_trigger_price c) cs = filter (\<lambda>c. ltp \<ge> c_trigger_price c) cs"
    "dropWhile (\<lambda>c. ltp \<ge> c_trigger_price c) cs = filter (\<lambda>c. c_trigger_price c > ltp) cs"
  using sorted_split [OF assms, of "\<lambda>c. ltp \<ge> c_trigger_price c"] by (auto simp: MinTrigger_def not_le)

lemma check_stops_ok:
  assumes "stops_inv s"
  shows "\<exists>s' xs. checkAndTriggerSL clk s k ltp = Some s' \<and>
    sell_stops (stop_loss_registry s' k) = filter (\<lambda>c. c_trigger_price c < ltp) (sell_stops (stop_loss_registry s k)) \<and>
    buy_stops (stop_loss_registry s' k) = filter (\<lambda>c. c_trigger_price c > ltp) (buy_stops (stop_loss_registry s k)) \<and>
    (\<forall>j. j \<noteq> k \<longrightarrow> stop_loss_registry s' j = stop_loss_registry s j) \<and>
    oms_sent s' = oms_sent s @ xs \<and>
    list_all2 (triggered s) (filter (\<lambda>c. ltp \<le> c_trigger_price c) (sell_stops (stop_loss_registry s k)) @
      filter (\<lambda>c. ltp \<ge> c_trigger_price c) (buy_stops (stop_loss_registry s k))) xs"
proof -
  let ?sells = "sell_stops (stop_loss_registry s k)" and ?buys = "buy_stops (stop_loss_registry s k)"
  have sorted: "heap_sorted MaxTrigger ?sells" "heap_sorted MinTrigger ?buys"
    and str: "\<forall>c \<in> set ?sells. \<exists>symbol. c_str (c_symbol c) = Some symbol" "\<forall>c \<in> set ?buys. \<exists>symbol. c_str (c_symbol c) = Some symbol"
    using assms unfolding stops_inv_def stops_at_def by blast+
  obtain s1 xs where s1: "trigger_loop clk (\<lambda>c. ltp \<le> c_trigger_price c) s ?sells = Some (s1, filter (\<lambda>c. c_trigger_price c < ltp) ?sells)"
    "oms_sent s1 = oms_sent s @ xs" "list_all2 (triggered s) (filter (\<lambda>c. ltp \<le> c_trigger_price c) ?sells) xs"
    using trigger_loop_ok [OF str(1), of clk "\<lambda>c. ltp \<le> c_trigger_price c" s, unfolded sell_split [OF sorted(1)]] by blast
  obtain s2 ys where s2: "trigger_loop clk (\<lambda>c. ltp \<ge> c_trigger_price c) s1 ?buys = Some (s2, filter (\<lambda>c. c_trigger_price c > ltp) ?buys)"
    "oms_sent s2 = oms_sent s1 @ ys" "list_all2 (triggered s1) (filter (\<lambda>c. ltp \<ge> c_trigger_price c) ?buys) ys"
    using trigger_loop_ok [OF str(2), of clk "\<lambda>c. ltp \<ge> c_trigger_price c" s1, unfolded buy_split [OF sorted(2)]] by blast
  have f: "stop_loss_registry s2 = stop_loss_registry s" "symbolLookupTable s1 = symbolLookupTable s"
    using trigger_loop_frame [OF s1(1)] trigger_loop_frame [OF s2(1)] by simp_all
  have run: "checkAndTriggerSL clk s k ltp = Some (s2\<lparr>stop_loss_registry := (stop_loss_registry s2)(k :=
      \<lparr>sell_stops = filter (\<lambda>c. c_trigger_price c < ltp) ?sells, buy_stops = filter (\<lambda>c. c_trigger_price c > ltp) ?buys\<rparr>)\<rparr>)"
    using s1(1) s2(1) by (simp add: checkAndTriggerSL_def Let_def)
  have "list_all2 (triggered s) (filter (\<lambda>c. ltp \<le> c_trigger_price c) ?sells @ filter (\<lambda>c. ltp \<ge> c_trigger_price c) ?buys) (xs @ ys)"
    using s1(3) s2(3) triggered_cong [OF f(2)] by (simp add: list_all2_appendI)
  moreover have "oms_sent s2 = oms_sent s @ (xs @ ys)" using s1(2) s2(2) by simp
  ultimately show ?thesis unfolding run using f(1) by simp
qed

text \<open>The stops of a symbol that stay when the price becomes \<open>p\<close>.\<close>

definition stops_left :: "u64 \<Rightarrow> StopLossContainer \<Rightarrow> StopLossContainer" where
  "stops_left p r = \<lparr>sell_stops = filter (\<lambda>c. c_trigger_price c < p) (sell_stops r),
     buy_stops = filter (\<lambda>c. c_trigger_price c > p) (buy_stops r)\<rparr>"

lemma list_all2_member: "list_all2 P as bs \<Longrightarrow> a \<in> set as \<Longrightarrow> \<exists>b \<in> set bs. P a b"
  by (induction rule: list_all2_induct) auto

lemma check_stops_registry:
  assumes "stops_inv s"
  obtains s' xs where "checkAndTriggerSL clk s k p = Some s'" "oms_sent s' = oms_sent s @ xs"
    "stop_loss_registry s' = (stop_loss_registry s)(k := stops_left p (stop_loss_registry s k))"
    "\<forall>c \<in> stops_at s k. c \<notin> stops_at s' k \<longrightarrow> (\<exists>x \<in> set xs. triggered s c x)"
proof -
  let ?r = "stop_loss_registry s k"
  obtain s' xs where s': "checkAndTriggerSL clk s k p = Some s'"
    "sell_stops (stop_loss_registry s' k) = filter (\<lambda>c. c_trigger_price c < p) (sell_stops ?r)"
    "buy_stops (stop_loss_registry s' k) = filter (\<lambda>c. c_trigger_price c > p) (buy_stops ?r)"
    "\<forall>i. i \<noteq> k \<longrightarrow> stop_loss_registry s' i = stop_loss_registry s i" "oms_sent s' = oms_sent s @ xs"
    "list_all2 (triggered s) (filter (\<lambda>c. p \<le> c_trigger_price c) (sell_stops ?r) @ filter (\<lambda>c. p \<ge> c_trigger_price c) (buy_stops ?r)) xs"
    using check_stops_ok [OF assms, of clk k p] by blast
  have reg: "stop_loss_registry s' = (stop_loss_registry s)(k := stops_left p ?r)"
    using s'(2-4) by (auto simp: fun_eq_iff stops_left_def)
  have "\<forall>c \<in> stops_at s k. c \<notin> stops_at s' k \<longrightarrow> (\<exists>x \<in> set xs. triggered s c x)"
    using list_all2_member [OF s'(6)] by (auto simp: stops_at_def reg stops_left_def)
  then show thesis using that s'(1,5) reg by blast
qed

section \<open>Reachable registries\<close>

lemma stops_inv_frame [simp]:
  "stops_inv (s\<lparr>active_icebergs := m\<rparr>) = stops_inv s" "stops_inv (s\<lparr>child_to_parent := cp\<rparr>) = stops_inv s"
  "stops_inv (s\<lparr>last_seen_price := l\<rparr>) = stops_inv s" "stops_inv (s\<lparr>incoming_orders := q\<rparr>) = stops_inv s"
  "stops_inv (s\<lparr>trade_consumers := hs\<rparr>) = stops_inv s" "stops_inv (s\<lparr>oms_shutdown := b\<rparr>) = stops_inv s"
  "stops_inv (handle_market clk out s c) = stops_inv s" "stops_inv (handle_limit clk out s c) = stops_inv s"
  "stops_inv (send_slice clk s i) = stops_inv s"
  by (rule stops_inv_cong, simp add: handle_market_eq handle_limit_eq send_slice_def getCurrentTimestamp_def Let_def)+

lemma heap_sorted_suffix: "heap_sorted cmp cs \<Longrightarrow> suffix ds cs \<Longrightarrow> heap_sorted cmp ds"
  by (auto simp: heap_sorted_def suffix_def sorted_wrt_append)

lemma stops_inv_suffix:
  assumes "stops_inv s" "suffix sells (sell_stops (stop_loss_registry s k))" "suffix buys (buy_stops (stop_loss_registry s k))"
  shows "stops_inv (s\<lparr>stop_loss_registry := (stop_loss_registry s)(k := \<lparr>sell_stops = sells, buy_stops = buys\<rparr>)\<rparr>)"
  using assms heap_sorted_suffix set_mono_suffix by (fastforce simp: stops_inv_def stops_at_def)

interpretation stops: oms_invariant clk "\<lambda>_. True" stops_inv for clk
proof unfold_locales
  show "stops_inv s'" if "stops_inv s" "trigger_order clk s c = Some s'" for s c s'
    using that stops_inv_cong [OF trigger_order_frame(1) [OF that(2)]] by simp
qed (simp_all add: stops_inv_register stops_inv_suffix)

lemma reach_stops:
  assumes "OrderManagementSystem_new clk blank cap csv = Some (Inr s0)" "0 < unat cap" "pow2_part (unat cap) \<le> 2 ^ 32"
    "oms_reach clk accept s0 s"
  shows "stops_inv s"
proof -
  have "stops_inv s0" using assms(1) by (auto elim!: oms_new_cases simp: stops_inv_def stops_at_def heap_sorted_def)
  then have "oms_ok (\<lambda>_. True) stops_inv s0" using oms_new_ok(1) [OF assms(1-3)] by (simp add: oms_ok_def)
  then show ?thesis using stops.reach_ok [OF oms_reach_mono [OF assms(4)]] by (simp add: oms_ok_def)
qed

section \<open>The scan of the last traded prices\<close>

lemma check_frame:
  assumes "checkAndTriggerSL clk s k ltp = Some s'"
  shows "last_seen_price s' = last_seen_price s" "symbolLookupTable s' = symbolLookupTable s"
  using assms by (auto simp: checkAndTriggerSL_def Let_def split: bind_splits dest!: trigger_loop_frame)

lemma scan_ltp_ok:
  assumes "stops_inv s" "distinct js" "\<forall>j \<in> set js. j < length prices"
  shows "\<exists>s' xs. scan_ltp clk prices js s = Some s' \<and> oms_sent s' = oms_sent s @ xs \<and>
    (\<forall>j. last_seen_price s' j = (if j \<in> set js then prices ! j else last_seen_price s j)) \<and>
    (\<forall>j. stop_loss_registry s' j = (if j \<in> set js \<and> prices ! j \<noteq> last_seen_price s j
       then stops_left (prices ! j) (stop_loss_registry s j) else stop_loss_registry s j)) \<and>
    (\<forall>j. \<forall>c \<in> stops_at s j. c \<notin> stops_at s' j \<longrightarrow> (\<exists>x \<in> set xs. triggered s c x))"
  using assms
proof (induction js arbitrary: s)
  case (Cons j js)
  show ?case
  proof (cases "prices ! j = last_seen_price s j")
    case True
    then have "scan_ltp clk prices (j # js) s = scan_ltp clk prices js s" using Cons.prems by simp
    then show ?thesis using Cons.IH [of s] Cons.prems True by auto
  next
    case False
    obtain s1 xs where s1: "checkAndTriggerSL clk s j (prices ! j) = Some s1" "oms_sent s1 = oms_sent s @ xs"
      "stop_loss_registry s1 = (stop_loss_registry s)(j := stops_left (prices ! j) (stop_loss_registry s j))"
      "\<forall>c \<in> stops_at s j. c \<notin> stops_at s1 j \<longrightarrow> (\<exists>x \<in> set xs. triggered s c x)"
      by (rule check_stops_registry [OF Cons.prems(1), of clk j "prices ! j"])
    let ?s1 = "s1\<lparr>last_seen_price := (last_seen_price s1)(j := prices ! j)\<rparr>"
    have "stops_inv ?s1" "distinct js" "\<forall>j \<in> set js. j < length prices"
      using stops.I_check [OF Cons.prems(1) s1(1)] Cons.prems by simp_all
    from Cons.IH [OF this] obtain s' ys where s': "scan_ltp clk prices js ?s1 = Some s'" "oms_sent s' = oms_sent ?s1 @ ys"
      "\<forall>i. last_seen_price s' i = (if i \<in> set js then prices ! i else last_seen_price ?s1 i)"
      "\<forall>i. stop_loss_registry s' i = (if i \<in> set js \<and> prices ! i \<noteq> last_seen_price ?s1 i
         then stops_left (prices ! i) (stop_loss_registry ?s1 i) else stop_loss_registry ?s1 i)"
      "\<forall>i. \<forall>c \<in> stops_at ?s1 i. c \<notin> stops_at s' i \<longrightarrow> (\<exists>x \<in> set ys. triggered ?s1 c x)"
      by blast
    have run: "scan_ltp clk prices (j # js) s = Some s'" "oms_sent s' = oms_sent s @ (xs @ ys)"
      using False s1(1,2) s'(1,2) Cons.prems by simp_all
    have j: "j \<notin> set js" using Cons.prems by simp
    have t: "triggered ?s1 = triggered s" by (rule triggered_cong) (simp add: check_frame [OF s1(1)])
    have seen: "last_seen_price ?s1 i = (if i = j then prices ! j else last_seen_price s i)" for i
      by (simp add: check_frame [OF s1(1)])
    have A: "last_seen_price s' i = (if i \<in> set (j # js) then prices ! i else last_seen_price s i)" for i
      using s'(3) check_frame [OF s1(1)] j by auto
    have B: "stop_loss_registry s' i = (if i \<in> set (j # js) \<and> prices ! i \<noteq> last_seen_price s i
       then stops_left (prices ! i) (stop_loss_registry s i) else stop_loss_registry s i)" for i
      using s'(4) [rule_format, of i] seen [of i] j s1(3) False by (cases "i = j") simp_all
    have C: "\<exists>x \<in> set (xs @ ys). triggered s c x" if "c \<in> stops_at s i" "c \<notin> stops_at s' i" for i c
    proof (cases "c \<in> stops_at ?s1 i")
      case True
      then show ?thesis using s'(5) that(2) t by auto
    next
      case False
      then have "i = j" using that(1) s1(3) by (cases "i = j") (simp_all add: stops_at_def)
      then show ?thesis using s1(4) that(1) False by (auto simp: stops_at_def)
    qed
    show ?thesis using run A B C by blast
  qed
qed simp

section \<open>Properties of the stop-loss registry\<close>

text \<open>
  A price change fires exactly the stops it reaches. In every reachable state the scan of the shared prices ends; for a symbol
  slot whose price changed, precisely the sell stops with a trigger below the price and the buy stops with a trigger above it
  stay registered, the other slots keep theirs, and every stop that leaves the registry has been sent to the engine as a limit order
  with the price, quantity, side and symbol of the client's order.
\<close>

theorem price_change_fires_stops:
  assumes "OrderManagementSystem_new clk blank cap csv = Some (Inr s0)" "0 < unat cap" "pow2_part (unat cap) \<le> 2 ^ 32"
    "oms_reach clk accept s0 s" "length prices = MAX_SYMBOLS"
  shows "\<exists>s' xs. scan_ltp clk prices [0..<MAX_SYMBOLS] s = Some s' \<and> oms_sent s' = oms_sent s @ xs \<and>
    (\<forall>j < MAX_SYMBOLS. last_seen_price s' j = prices ! j) \<and>
    (\<forall>j < MAX_SYMBOLS. stop_loss_registry s' j = (if prices ! j \<noteq> last_seen_price s j
       then \<lparr>sell_stops = filter (\<lambda>c. c_trigger_price c < prices ! j) (sell_stops (stop_loss_registry s j)),
             buy_stops = filter (\<lambda>c. c_trigger_price c > prices ! j) (buy_stops (stop_loss_registry s j))\<rparr>
       else stop_loss_registry s j)) \<and>
    (\<forall>j. \<forall>c \<in> stops_at s j. c \<notin> stops_at s' j \<longrightarrow> (\<exists>x \<in> set xs. triggered s c x))"
proof -
  have "stops_inv s" by (rule reach_stops [OF assms(1-4)])
  then show ?thesis
    using scan_ltp_ok [of s "[0..<MAX_SYMBOLS]" prices clk] assms(5) by (auto simp: stops_left_def)
qed

text \<open>A sell stop at 95 waiting in the demo system.\<close>

lemma demo_stop:
  obtains s where "oms_reach demo_clk valid_client demo_oms s"
    "stop_loss_registry s 5 = \<lparr>sell_stops = [demo_client C_STOP_LOSS SELL 90 95 10 0\<lparr>c_symbol_id := 5\<rparr>], buy_stops = []\<rparr>"
    "last_seen_price s 5 = 0"
proof -
  let ?c = "demo_client C_STOP_LOSS SELL 90 95 10 0"
  have c: "valid_client ?c" "c_symbol ?c = ''AAPL'' @ replicate 4 (CHR 0x00)" by (simp_all add: demo_client_def valid_client_def)
  obtain s q where s: "oms_reach demo_clk valid_client demo_oms s"
    "handle_client_order demo_clk demo_out (demo_oms\<lparr>incoming_orders := q\<rparr>) ?c = Some s"
    by (rule demo_run [OF c])
  have m: "unat (5 AND SYMBOL_MASK) = 5" by (simp add: unat_masked_symbol)
  have str: "c_str (c_symbol ?c) = Some ''AAPL''" by (simp only: c(2) demo_str)
  have id5: "find_id (demo_oms\<lparr>incoming_orders := q\<rparr>) ''AAPL'' = 5" by (simp add: find_id_def demo_hash demo_oms_def)
  have ty: "c_execution_type ?c = C_STOP_LOSS" "c_type ?c = SELL" by (simp_all add: demo_client_def)
  have "s = registerStopLoss (demo_oms\<lparr>incoming_orders := q\<rparr>) (?c\<lparr>c_symbol_id := 5\<rparr>)"
    using s(2) str id5 ty by (simp add: handle_client_order_def)
  then show thesis using that s(1) ty by (simp add: registerStopLoss_def m demo_oms_def Let_def)
qed

theorem price_change_fires_stops_witness:
  "\<exists>s s' x. oms_reach demo_clk valid_client demo_oms s \<and>
    scan_ltp demo_clk ((replicate MAX_SYMBOLS 0)[5 := 94]) [0..<MAX_SYMBOLS] s = Some s' \<and> x \<in> set (oms_sent s') \<and>
    o_price x = 90 \<and> sell_stops (stop_loss_registry s' 5) = []"
proof -
  obtain s where s: "oms_reach demo_clk valid_client demo_oms s"
    "stop_loss_registry s 5 = \<lparr>sell_stops = [demo_client C_STOP_LOSS SELL 90 95 10 0\<lparr>c_symbol_id := 5\<rparr>], buy_stops = []\<rparr>"
    "last_seen_price s 5 = 0"
    by (rule demo_stop)
  have p: "pow2_part 16 = 16" by code_simp
  have m: "5 < MAX_SYMBOLS" by (simp add: MAX_SYMBOLS_def SYMBOL_BITS_def)
  have lt: "\<not> c_trigger_price (demo_client C_STOP_LOSS SELL 90 95 10 0) < 94" by (simp add: demo_client_def)
  obtain s' xs where s': "scan_ltp demo_clk ((replicate MAX_SYMBOLS 0)[5 := 94]) [0..<MAX_SYMBOLS] s = Some s'"
      "oms_sent s' = oms_sent s @ xs" "stop_loss_registry s' 5 = \<lparr>sell_stops = [], buy_stops = []\<rparr>"
      "\<forall>c \<in> stops_at s 5. c \<notin> stops_at s' 5 \<longrightarrow> (\<exists>x \<in> set xs. triggered s c x)"
    using price_change_fires_stops [OF demo_oms_new _ _ s(1), of "(replicate MAX_SYMBOLS 0)[5 := 94]"] m s(2,3) lt
    by (auto simp: p)
  then have "\<exists>x \<in> set xs. triggered s (demo_client C_STOP_LOSS SELL 90 95 10 0\<lparr>c_symbol_id := 5\<rparr>) x"
    using s(2) by (simp add: stops_at_def)
  then obtain x where "x \<in> set xs" "o_price x = 90" by (auto simp: triggered_def demo_client_def)
  then show ?thesis using s(1) s'(1-3) by (intro exI [of _ s] exI [of _ s'] exI [of _ x]) simp
qed

text \<open>
  Two symbols share one slot: a stop for symbol \<open>k + 1024\<close> is registered under \<open>k\<close>, and the price of symbol \<open>k\<close> fires it; the
  order it becomes is for symbol \<open>k + 1024\<close>.
\<close>

theorem stop_fired_by_other_symbol:
  assumes "stops_inv s" "admitted s c" "c_type c = SELL" "c_symbol_id c = of_nat (k + 1024)" "k < 1024" "ltp \<le> c_trigger_price c"
  shows "\<exists>s' x. checkAndTriggerSL clk (registerStopLoss s c) k ltp = Some s' \<and> x \<in> set (oms_sent s') \<and>
    o_symbol_id x = of_nat (k + 1024) \<and> o_client_order_id x = c_client_order_id c"
proof -
  let ?s = "registerStopLoss s c"
  have "unat (of_nat (k + 1024) :: u32) = k + 1024" using assms(5) by (simp only: unat_of_nat) simp
  then have m: "unat (c_symbol_id c AND SYMBOL_MASK) = k" using assms(4,5) by (simp add: unat_masked_symbol)
  have "stops_inv ?s" by (rule stops_inv_register [OF assms(1,2)])
  then obtain s' xs where s': "checkAndTriggerSL clk ?s k ltp = Some s'" "oms_sent s' = oms_sent ?s @ xs"
    "list_all2 (triggered ?s) (filter (\<lambda>c. ltp \<le> c_trigger_price c) (sell_stops (stop_loss_registry ?s k)) @
      filter (\<lambda>c. ltp \<ge> c_trigger_price c) (buy_stops (stop_loss_registry ?s k))) xs"
    using check_stops_ok [of ?s clk k ltp] by blast
  have "c \<in> set (sell_stops (stop_loss_registry ?s k))" using assms(3) m by (simp add: registerStopLoss_def Let_def)
  then obtain x where x: "x \<in> set xs" "triggered ?s c x" using list_all2_member [OF s'(3), of c] assms(6) by auto
  have "symbolLookupTable ?s = symbolLookupTable s" by (simp add: registerStopLoss_def Let_def)
  then have "triggered s c x" using x(2) triggered_cong [of ?s s] by simp
  then have "o_symbol_id x = c_symbol_id c" "o_client_order_id x = c_client_order_id c"
    using assms(2) by (auto simp: triggered_def admitted_def)
  then show ?thesis using s'(1,2) x(1) assms(4) by (intro exI [of _ s'] exI [of _ x]) simp
qed

theorem stop_fired_by_other_symbol_witness:
  "\<exists>s' x. checkAndTriggerSL demo_clk (registerStopLoss (demo_oms\<lparr>symbolLookupTable := (\<lambda>_. - 1)(34316 := 1029)\<rparr>)
      (demo_client C_STOP_LOSS SELL 90 95 10 0\<lparr>c_symbol_id := 1029\<rparr>)) 5 94 = Some s' \<and> x \<in> set (oms_sent s') \<and> o_symbol_id x = 1029"
proof -
  let ?s = "demo_oms\<lparr>symbolLookupTable := (\<lambda>_. - 1)(34316 := 1029)\<rparr>"
  let ?c = "demo_client C_STOP_LOSS SELL 90 95 10 0\<lparr>c_symbol_id := 1029\<rparr>"
  have inv: "stops_inv ?s" by (simp add: stops_inv_def stops_at_def heap_sorted_def demo_oms_def)
  have "c_str (c_symbol ?c) = Some ''AAPL''" using demo_str by (simp add: demo_client_def del: append.simps)
  moreover have "find_id ?s ''AAPL'' = 1029" by (simp add: find_id_def demo_hash)
  ultimately have adm: "admitted ?s ?c" by (auto simp: admitted_def)
  show ?thesis
    using stop_fired_by_other_symbol [OF inv adm, of 5 94 demo_clk] by (auto simp: demo_client_def)
qed

end
