(* ===== verification/Oms_Icebergs.thy ===== *)
theory Oms_Icebergs
  imports Oms_Run
begin

text \<open>
  Iceberg orders and the poll of the trade rings: an iceberg shows one slice at a time, the next one when the trades
  have filled the current one, until the whole quantity is done; and the poll hands every new trade of a ring to
  \<open>check_fill\<close>, in order, and ends.
\<close>

section \<open>One fill\<close>

text \<open>The slices an order of quantity \<open>q\<close> with display quantity \<open>d\<close> is cut into.\<close>

function slices :: "nat \<Rightarrow> nat \<Rightarrow> nat list" where
  "slices d q = (if q = 0 \<or> d = 0 then [] else min d q # slices d (q - d))"
  by auto
termination by (relation "measure snd") auto

declare slices.simps [simp del]

text \<open>
  \<open>showing s i p k child\<close>: iceberg \<open>i\<close> (order \<open>p\<close>) has \<open>k\<close> full slices behind it and shows a slice as \<open>child\<close>, of which
  \<open>f\<close> has been filled.
\<close>

definition showing :: "OrderManagementSystem \<Rightarrow> u64 \<Rightarrow> ClientOrder \<Rightarrow> nat \<Rightarrow> nat \<Rightarrow> u64 \<Rightarrow> bool" where
  "showing s i p k f child \<longleftrightarrow> active_icebergs s i = Some p \<and> child_to_parent s child = Some i \<and> c_is_active p \<and>
     0 < c_display_quantity p \<and> unat (c_filled_quantity p) = k * unat (c_display_quantity p) + f \<and>
     k * unat (c_display_quantity p) < unat (c_quantity p) \<and>
     f < min (unat (c_display_quantity p)) (unat (c_quantity p) - k * unat (c_display_quantity p))"

lemma showing_parent: "showing s i p k f child \<Longrightarrow> iceberg_parent s i = p"
  by (simp add: showing_def iceberg_parent_def)

lemma filled_after:
  assumes "showing s i p k f child" "f + unat t \<le> min (unat (c_display_quantity p)) (unat (c_quantity p) - k * unat (c_display_quantity p))"
  shows "unat (c_filled_quantity p + t) = k * unat (c_display_quantity p) + f + unat t"
proof -
  have "k * unat (c_display_quantity p) + f + unat t \<le> unat (c_quantity p)" using assms by (auto simp: showing_def)
  also have "\<dots> < 2 ^ 32" using unsigned_less [of "c_quantity p", where 'a = nat] by simp
  finally show ?thesis using assms(1) by (simp add: showing_def unat_word_ariths)
qed

text \<open>A fill that leaves part of the slice open.\<close>

lemma leg_partial:
  assumes w: "showing s i p k f child" and t: "0 < unat t"
    and lt: "f + unat t < min (unat (c_display_quantity p)) (unat (c_quantity p) - k * unat (c_display_quantity p))"
  obtains s' where "process_iceberg_leg clk s child t = Some s'" "oms_sent s' = oms_sent s"
    "showing s' i (p\<lparr>c_filled_quantity := c_filled_quantity p + t\<rparr>) k (f + unat t) child" "next_child_order_id s' = next_child_order_id s"
proof -
  let ?p = "p\<lparr>c_filled_quantity := c_filled_quantity p + t\<rparr>"
  have F: "unat (c_filled_quantity p + t) = k * unat (c_display_quantity p) + (f + unat t)"
    using filled_after [OF w, of t] lt by simp
  have d: "0 < unat (c_display_quantity p)" "c_display_quantity p \<noteq> 0" using w by (auto simp: showing_def word_less_nat_alt)
  have "unat ((c_filled_quantity p + t) mod c_display_quantity p) = f + unat t"
    using F lt by (simp add: unat_mod)
  then have "(c_filled_quantity p + t) mod c_display_quantity p \<noteq> 0" using t by (metis add_gr_0 less_numeral_extra(3) unsigned_0)
  moreover have "c_filled_quantity p + t \<noteq> c_quantity p" using F lt w by (auto simp: showing_def)
  ultimately have run: "process_iceberg_leg clk s child t = Some (s\<lparr>active_icebergs := (active_icebergs s)(i \<mapsto> ?p)\<rparr>)"
    using w d(2) by (simp add: process_iceberg_leg_def showing_parent [OF w] showing_def Let_def)
  show thesis
    by (rule that [OF run]) (use w F lt in \<open>auto simp: showing_def\<close>)
qed

text \<open>When a slice is complete the filled quantity is a multiple of the display quantity or the whole.\<close>

lemma slice_filled:
  assumes w: "showing s i p k f child"
    and eq: "f + unat t = min (unat (c_display_quantity p)) (unat (c_quantity p) - k * unat (c_display_quantity p))"
  shows "unat (c_filled_quantity p + t) = (if Suc k * unat (c_display_quantity p) < unat (c_quantity p)
      then Suc k * unat (c_display_quantity p) else unat (c_quantity p))"
    "(c_filled_quantity p + t) mod c_display_quantity p = 0 \<or> c_filled_quantity p + t = c_quantity p"
proof -
  let ?D = "unat (c_display_quantity p)" and ?Q = "unat (c_quantity p)"
  have "k * ?D < ?Q" using w by (simp add: showing_def)
  then show F: "unat (c_filled_quantity p + t) = (if Suc k * ?D < ?Q then Suc k * ?D else ?Q)"
    using filled_after [OF w, of t] eq by auto
  show "(c_filled_quantity p + t) mod c_display_quantity p = 0 \<or> c_filled_quantity p + t = c_quantity p"
  proof (cases "Suc k * ?D < ?Q")
    case True
    then have "unat ((c_filled_quantity p + t) mod c_display_quantity p) = 0" by (simp only: F unat_mod if_True mod_mult_self2_is_0)
    then show ?thesis by (metis unsigned_0 unat_inject)
  next
    case False
    then show ?thesis using F by simp
  qed
qed

text \<open>The fill that completes the slice: the next slice is sent, or the iceberg is finished.\<close>

lemma leg_full:
  assumes w: "showing s i p k f child" and t: "0 < unat t" and fresh: "child \<noteq> next_child_order_id s"
    and eq: "f + unat t = min (unat (c_display_quantity p)) (unat (c_quantity p) - k * unat (c_display_quantity p))"
  obtains (more) s' x where "process_iceberg_leg clk s child t = Some s'" "Suc k * unat (c_display_quantity p) < unat (c_quantity p)"
      "oms_sent s' = oms_sent s @ [x]" "unat (o_quantity x) =
        min (unat (c_display_quantity p)) (unat (c_quantity p) - Suc k * unat (c_display_quantity p))"
      "o_order_id x = next_child_order_id s" "o_price x = c_price p" "o_type x = c_type p" "o_symbol_id x = c_symbol_id p"
      "showing s' i (p\<lparr>c_filled_quantity := c_filled_quantity p + t\<rparr>) (Suc k) 0 (next_child_order_id s)"
      "next_child_order_id s' = next_child_order_id s + 1"
  | (complete) s' where "process_iceberg_leg clk s child t = Some s'" "unat (c_quantity p) \<le> Suc k * unat (c_display_quantity p)"
      "oms_sent s' = oms_sent s" "child_to_parent s' child = None"
      "active_icebergs s' i = Some (p\<lparr>c_filled_quantity := c_quantity p, c_is_active := False\<rparr>)"
proof -
  let ?D = "unat (c_display_quantity p)" and ?Q = "unat (c_quantity p)"
  let ?p = "p\<lparr>c_filled_quantity := c_filled_quantity p + t\<rparr>"
  let ?s = "s\<lparr>active_icebergs := (active_icebergs s)(i \<mapsto> ?p), child_to_parent := (child_to_parent s)(child := None)\<rparr>"
  have d: "0 < ?D" "c_display_quantity p \<noteq> 0" and a: "c_is_active p" "k * ?D < ?Q" using w by (auto simp: showing_def word_less_nat_alt)
  have F: "unat (c_filled_quantity p + t) = (if Suc k * ?D < ?Q then Suc k * ?D else ?Q)" by (rule slice_filled(1) [OF w eq])
  have par: "iceberg_parent ?s i = ?p" by (simp add: iceberg_parent_def)
  have run: "process_iceberg_leg clk s child t = Some (send_slice clk ?s i)"
    using w d(2) slice_filled(2) [OF w eq] by (auto simp: process_iceberg_leg_def showing_parent [OF w] showing_def Let_def)
  show thesis
  proof (cases "Suc k * ?D < ?Q")
    case True
    then have ne: "c_quantity ?p \<noteq> c_filled_quantity ?p" using F by auto
    have r: "unat (c_quantity p - (c_filled_quantity p + t)) = ?Q - Suc k * ?D"
      using F True by (subst unat_sub) (auto simp: word_le_nat_alt)
    show thesis
    proof (cases rule: send_slice_cases [of ?s i clk])
      case (slice p')
      then have p': "p' = ?p" using par by simp
      have q: "unat (min (c_display_quantity p) (c_quantity p - (c_filled_quantity p + t))) = min ?D (?Q - Suc k * ?D)"
        unfolding r [symmetric] by (simp add: min_def word_le_nat_alt)
      have "showing (send_slice clk ?s i) i ?p (Suc k) 0 (next_child_order_id s)"
        unfolding slice(4) p' using True F a d w fresh by (simp add: showing_def)
      then show thesis
        by (intro more [OF run True, of "last (oms_sent (send_slice clk ?s i))"]) (simp_all add: slice(4) p' q)
    qed (use par ne a in simp_all)
  next
    case False
    then have Q: "c_filled_quantity p + t = c_quantity p" using F by simp
    show thesis
    proof (cases rule: send_slice_cases [of ?s i clk])
      case (finished p')
      then show thesis using par Q False by (intro complete [OF run]) simp_all
    qed (use par Q a in simp_all)
  qed
qed

section \<open>The life of an iceberg\<close>

text \<open>The trades against one slice, and against the slices one after the other (the newest child is the one shown).\<close>

fun fill_child :: "(nat \<Rightarrow> u64) \<Rightarrow> OrderManagementSystem \<Rightarrow> u64 \<Rightarrow> u32 list \<Rightarrow> OrderManagementSystem option" where
  "fill_child clk s child [] = Some s"
| "fill_child clk s child (t # ts) = do { s1 \<leftarrow> process_iceberg_leg clk s child t; fill_child clk s1 child ts }"

fun fill_iceberg :: "(nat \<Rightarrow> u64) \<Rightarrow> OrderManagementSystem \<Rightarrow> u32 list list \<Rightarrow> OrderManagementSystem option" where
  "fill_iceberg clk s [] = Some s"
| "fill_iceberg clk s (ts # tss) = do { s1 \<leftarrow> fill_child clk s (next_child_order_id s - 1) ts; fill_iceberg clk s1 tss }"

definition traded :: "u32 list \<Rightarrow> nat" where "traded ts = sum_list (map unat ts)"

lemma traded_simps [simp]: "traded [] = 0" "traded (t # ts) = unat t + traded ts"
  by (simp_all add: traded_def)

lemma fill_child_prefix:
  assumes "showing s i p k f child" "\<forall>t \<in> set ts. 0 < unat t"
    "f + traded ts < min (unat (c_display_quantity p)) (unat (c_quantity p) - k * unat (c_display_quantity p))"
  shows "\<exists>s' v. fill_child clk s child ts = Some s' \<and> oms_sent s' = oms_sent s \<and> next_child_order_id s' = next_child_order_id s \<and>
    showing s' i (p\<lparr>c_filled_quantity := v\<rparr>) k (f + traded ts) child"
  using assms
proof (induction ts arbitrary: s p f)
  case Nil
  then show ?case by (intro exI [of _ s] exI [of _ "c_filled_quantity p"]) simp
next
  case (Cons t ts)
  let ?p = "p\<lparr>c_filled_quantity := c_filled_quantity p + t\<rparr>"
  have "0 < unat t" "f + unat t < min (unat (c_display_quantity p)) (unat (c_quantity p) - k * unat (c_display_quantity p))"
    using Cons.prems by simp_all
  then obtain s1 where s1: "process_iceberg_leg clk s child t = Some s1" "oms_sent s1 = oms_sent s"
    "showing s1 i ?p k (f + unat t) child" "next_child_order_id s1 = next_child_order_id s"
    by (rule leg_partial [OF Cons.prems(1)])
  have "\<exists>s' v. fill_child clk s1 child ts = Some s' \<and> oms_sent s' = oms_sent s1 \<and> next_child_order_id s' = next_child_order_id s1 \<and>
      showing s' i (?p\<lparr>c_filled_quantity := v\<rparr>) k (f + unat t + traded ts) child"
    by (rule Cons.IH [OF s1(3)]) (use Cons.prems in \<open>simp_all add: add.assoc\<close>)
  then show ?case using s1 by (auto simp: add.assoc)
qed

lemma fill_child_append: "fill_child clk s child (ts @ us) = fill_child clk s child ts \<bind> (\<lambda>s. fill_child clk s child us)"
  by (induction ts arbitrary: s) (simp_all add: bind_assoc)

text \<open>Filling the whole slice, in any number of trades.\<close>

lemma fill_child_slice:
  assumes w: "showing s i p k 0 (next_child_order_id s - 1)" and pos: "\<forall>t \<in> set ts. 0 < unat t"
    and eq: "traded ts = min (unat (c_display_quantity p)) (unat (c_quantity p) - k * unat (c_display_quantity p))"
  obtains (more) s' x v where "fill_child clk s (next_child_order_id s - 1) ts = Some s'"
      "Suc k * unat (c_display_quantity p) < unat (c_quantity p)" "oms_sent s' = oms_sent s @ [x]"
      "unat (o_quantity x) = min (unat (c_display_quantity p)) (unat (c_quantity p) - Suc k * unat (c_display_quantity p))"
      "o_price x = c_price p" "o_type x = c_type p" "o_symbol_id x = c_symbol_id p"
      "showing s' i (p\<lparr>c_filled_quantity := v\<rparr>) (Suc k) 0 (next_child_order_id s' - 1)"
  | (complete) s' where "fill_child clk s (next_child_order_id s - 1) ts = Some s'"
      "unat (c_quantity p) \<le> Suc k * unat (c_display_quantity p)"
      "oms_sent s' = oms_sent s" "active_icebergs s' i = Some (p\<lparr>c_filled_quantity := c_quantity p, c_is_active := False\<rparr>)"
proof -
  let ?child = "next_child_order_id s - 1"
  let ?slice = "min (unat (c_display_quantity p)) (unat (c_quantity p) - k * unat (c_display_quantity p))"
  have "0 < ?slice" using w by (simp add: showing_def)
  then have "ts \<noteq> []" using eq by auto
  then obtain us t where ts: "ts = us @ [t]" by (metis rev_exhaust)
  have t: "0 < unat t" "0 + traded us + unat t = ?slice" using pos eq by (simp_all add: ts traded_def)
  obtain s1 v where s1: "fill_child clk s ?child us = Some s1" "oms_sent s1 = oms_sent s"
    "next_child_order_id s1 = next_child_order_id s" "showing s1 i (p\<lparr>c_filled_quantity := v\<rparr>) k (traded us) ?child"
  proof -
    have "0 + traded us < ?slice" using t by linarith
    moreover have "\<forall>t \<in> set us. 0 < unat t" using pos by (simp add: ts)
    ultimately show thesis using fill_child_prefix [OF w, of us clk] that by auto
  qed
  have run: "fill_child clk s ?child ts = process_iceberg_leg clk s1 ?child t"
    using s1(1) by (simp add: ts fill_child_append)
  have fresh: "?child \<noteq> next_child_order_id s1" by (simp add: s1(3))
  have eq': "traded us + unat t = min (unat (c_display_quantity (p\<lparr>c_filled_quantity := v\<rparr>)))
      (unat (c_quantity (p\<lparr>c_filled_quantity := v\<rparr>)) - k * unat (c_display_quantity (p\<lparr>c_filled_quantity := v\<rparr>)))" using t by simp
  show thesis
  proof (cases rule: leg_full [OF s1(4) t(1) fresh eq', of clk])
    case (1 s' x)
    then show thesis using s1(2,3) by (intro more [of s' x "v + t"]) (simp_all add: run)
  next
    case (2 s')
    then show thesis using s1(2) by (intro complete [of s']) (simp_all add: run)
  qed
qed

lemma slices_step:
  assumes "0 < d" "k * d < q"
  shows "slices d (q - k * d) = min d (q - k * d) # (if Suc k * d < q then slices d (q - Suc k * d) else [])"
proof -
  have "q - k * d - d = q - Suc k * d" by simp
  then show ?thesis using assms by (subst slices.simps) (simp add: slices.simps [of d 0])
qed

lemma open_slice:
  "showing s i p k f c \<Longrightarrow> 0 < unat (c_display_quantity p)" "showing s i p k f c \<Longrightarrow> k * unat (c_display_quantity p) < unat (c_quantity p)"
  by (auto simp: showing_def word_less_nat_alt)

lemma fill_iceberg_ok:
  assumes "showing s i p k 0 (next_child_order_id s - 1)" "\<forall>ts \<in> set tss. \<forall>t \<in> set ts. 0 < unat t"
    "map traded tss = slices (unat (c_display_quantity p)) (unat (c_quantity p) - k * unat (c_display_quantity p))"
  shows "\<exists>s' xs. fill_iceberg clk s tss = Some s' \<and> oms_sent s' = oms_sent s @ xs \<and>
    map (\<lambda>x. unat (o_quantity x)) xs = tl (map traded tss) \<and>
    (\<forall>x \<in> set xs. o_price x = c_price p \<and> o_type x = c_type p \<and> o_symbol_id x = c_symbol_id p) \<and>
    active_icebergs s' i = Some (p\<lparr>c_filled_quantity := c_quantity p, c_is_active := False\<rparr>)"
  using assms
proof (induction tss arbitrary: s p k)
  case Nil
  then show ?case using slices_step [OF open_slice [OF Nil(1)]] by simp
next
    case (Cons ts tss)
  let ?D = "unat (c_display_quantity p)" and ?Q = "unat (c_quantity p)"
  note st = slices_step [OF open_slice [OF Cons.prems(1)]]
  have ts: "traded ts = min ?D (?Q - k * ?D)" and pos: "\<forall>t \<in> set ts. 0 < unat t"
    and rest: "map traded tss = (if Suc k * ?D < ?Q then slices ?D (?Q - Suc k * ?D) else [])"
    using Cons.prems(2,3) by (simp_all add: st del: mult_Suc)
  show ?case
  proof (cases rule: fill_child_slice [OF Cons.prems(1) pos ts, of clk])
    case (1 s1 x v)
    let ?p = "p\<lparr>c_filled_quantity := v\<rparr>"
    have "map traded tss = slices (unat (c_display_quantity ?p)) (unat (c_quantity ?p) - Suc k * unat (c_display_quantity ?p))"
      using rest 1(2) by simp
    then obtain s' xs where s': "fill_iceberg clk s1 tss = Some s'" "oms_sent s' = oms_sent s1 @ xs"
      "map (\<lambda>x. unat (o_quantity x)) xs = tl (map traded tss)"
      "\<forall>x \<in> set xs. o_price x = c_price ?p \<and> o_type x = c_type ?p \<and> o_symbol_id x = c_symbol_id ?p"
      "active_icebergs s' i = Some (?p\<lparr>c_filled_quantity := c_quantity ?p, c_is_active := False\<rparr>)"
      using Cons.IH [OF 1(8)] Cons.prems(2) by auto
    have "map traded tss = unat (o_quantity x) # tl (map traded tss)"
      using rest 1(2,4) slices_step [OF open_slice [OF 1(8)]] by (simp del: mult_Suc)
    then have "map (\<lambda>x. unat (o_quantity x)) (x # xs) = tl (map traded (ts # tss))" using s'(3) by simp
    then show ?thesis using 1 s' by (intro exI [of _ s'] exI [of _ "x # xs"]) simp
  next
    case (2 s1)
    then have "tss = []" using rest by (simp del: mult_Suc)
    then show ?thesis using 2 by (intro exI [of _ s1]) simp
  qed
qed

section \<open>The poll of a trade ring\<close>

fun check_fills :: "(nat \<Rightarrow> u64) \<Rightarrow> OrderManagementSystem \<Rightarrow> Trade list \<Rightarrow> OrderManagementSystem option" where
  "check_fills clk s [] = Some s"
| "check_fills clk s (t # ts) = do { s1 \<leftarrow> check_fill clk s t; check_fills clk s1 ts }"

lemma poll_trades_drop:
  assumes ring: "ring_holds ring ts" and h: "handle_at h j" and j: "j \<le> length ts" "length ts \<le> j + 2 ^ 20" "length ts + 3 < 2 ^ 21"
    and fills: "check_fills clk s (drop j ts) = Some s'"
  shows "\<exists>h'. poll_trades clk ring h s = Some (h', s') \<and> handle_at h' (length ts)"
  using h j(1,2) fills
proof (induction "length ts - j" arbitrary: j h s)
  case 0
  then have e: "j = length ts" by simp
  have "\<not> any_new_trade ring h" using consumer_any_new [OF ring 0(2) 0(3) 0(4)] j(3) e by simp
  then show ?case using 0 e by (simp add: poll_trades.simps)
next
  case (Suc n)
  then have lt: "j < length ts" by simp
  then have d: "drop j ts = ts ! j # drop (j + 1) ts" by (simp add: Cons_nth_drop_Suc)
  obtain s1 where s1: "check_fill clk s (ts ! j) = Some s1" "check_fills clk s1 (drop (j + 1) ts) = Some s'"
    using Suc.prems(4) d by (auto split: bind_splits)
  have new: "any_new_trade ring h" using consumer_any_new [OF ring Suc.prems(1-3)] lt j(3) by simp
  have get: "get_trade ring h = Some (update_index_and_seq h, ts ! j)" by (rule consumer_get [OF ring Suc.prems(1) lt Suc.prems(3)])
  have h1: "handle_at (update_index_and_seq h) (j + 1)" by (rule handle_at_update [OF Suc.prems(1)]) (use lt j(3) in simp)
  have "\<exists>h'. poll_trades clk ring (update_index_and_seq h) s1 = Some (h', s') \<and> handle_at h' (length ts)"
    by (rule Suc.hyps(1) [OF _ h1 _ _ s1(2)]) (use Suc lt in simp_all)
  then show ?case using new get s1(1) by (subst poll_trades.simps) auto
qed

lemma first_slice:
  assumes par: "iceberg_parent s i = p" and p: "c_is_active p" "c_filled_quantity p = 0" "0 < c_display_quantity p" "0 < c_quantity p"
  obtains x where "oms_sent (send_slice clk s i) = oms_sent s @ [x]"
    "unat (o_quantity x) = min (unat (c_display_quantity p)) (unat (c_quantity p))"
    "o_price x = c_price p" "o_type x = c_type p" "o_symbol_id x = c_symbol_id p"
    "showing (send_slice clk s i) i p 0 0 (next_child_order_id (send_slice clk s i) - 1)"
proof (cases rule: send_slice_cases [of s i clk])
  case (slice p')
  then have p': "p' = p" using par by simp
  have "unat (min (c_display_quantity p) (c_quantity p)) = min (unat (c_display_quantity p)) (unat (c_quantity p))"
    by (simp add: min_def word_le_nat_alt)
  moreover have "showing (send_slice clk s i) i p 0 0 (next_child_order_id (send_slice clk s i) - 1)"
    unfolding slice(4) p' using p by (simp add: showing_def word_less_nat_alt)
  ultimately show thesis using p(2) by (intro that [of "last (oms_sent (send_slice clk s i))"]) (simp_all add: slice(4) p')
qed (use par p in simp_all)

section \<open>Properties of icebergs and of the poll\<close>

text \<open>
  C22. The life of an iceberg: an active iceberg order is accepted, shows a first slice, and, when the trades against each slice shown
  add up to that slice (in any number of fills), sends in total exactly the slices \<open>d, d, \<dots>, rest\<close> of its quantity, all with
  its price, side and symbol, and is then inactive and completely filled.
\<close>

theorem iceberg_life:
  assumes "c_str (c_symbol c) = Some symbol" "find_id s symbol \<noteq> - 1" "c_execution_type c = C_ICEBERG" "c_is_active c"
    "c_filled_quantity c = 0" "0 < c_display_quantity c" "0 < c_quantity c"
    "map traded tss = slices (unat (c_display_quantity c)) (unat (c_quantity c))" "\<forall>ts \<in> set tss. \<forall>t \<in> set ts. 0 < unat t"
  shows "\<exists>s1 s' xs. handle_client_order clk out s c = Some s1 \<and> fill_iceberg clk s1 tss = Some s' \<and>
    oms_sent s' = oms_sent s @ xs \<and>
    map (\<lambda>x. unat (o_quantity x)) xs = slices (unat (c_display_quantity c)) (unat (c_quantity c)) \<and>
    (\<forall>x \<in> set xs. o_price x = c_price c \<and> o_type x = c_type c \<and> o_symbol_id x = find_id s symbol) \<and>
    (\<exists>p. active_icebergs s' (c_client_order_id c) = Some p \<and> \<not> c_is_active p \<and> c_filled_quantity p = c_quantity c)"
proof -
  let ?D = "unat (c_display_quantity c)" and ?Q = "unat (c_quantity c)" and ?i = "c_client_order_id c"
  define p where "p = c\<lparr>c_symbol_id := find_id s symbol\<rparr>"
  let ?s = "s\<lparr>active_icebergs := (active_icebergs s)(?i \<mapsto> p)\<rparr>"
  let ?s1 = "send_slice clk ?s ?i"
  have run: "handle_client_order clk out s c = Some ?s1" using assms(1-3) by (simp add: handle_client_order_def p_def)
  have par: "iceberg_parent ?s ?i = p" by (simp add: iceberg_parent_def)
  have d: "0 < ?D" "0 * ?D < ?Q" using assms(6,7) by (simp_all add: word_less_nat_alt)
  have p: "c_is_active p" "c_filled_quantity p = 0" "0 < c_display_quantity p" "0 < c_quantity p" using assms(4-7) by (simp_all add: p_def)
  obtain x where x: "oms_sent ?s1 = oms_sent s @ [x]" "unat (o_quantity x) = min ?D ?Q" "o_price x = c_price c" "o_type x = c_type c"
      "o_symbol_id x = find_id s symbol" and w: "showing ?s1 ?i p 0 0 (next_child_order_id ?s1 - 1)"
    by (rule first_slice [OF par p, of clk]) (simp add: p_def)
  have "map traded tss = slices (unat (c_display_quantity p)) (unat (c_quantity p) - 0 * unat (c_display_quantity p))"
    using assms(8) by (simp add: p_def)
  then obtain s' xs where s': "fill_iceberg clk ?s1 tss = Some s'" "oms_sent s' = oms_sent ?s1 @ xs"
    "map (\<lambda>x. unat (o_quantity x)) xs = tl (map traded tss)"
    "\<forall>x \<in> set xs. o_price x = c_price p \<and> o_type x = c_type p \<and> o_symbol_id x = c_symbol_id p"
    "active_icebergs s' ?i = Some (p\<lparr>c_filled_quantity := c_quantity p, c_is_active := False\<rparr>)"
    using fill_iceberg_ok [OF w assms(9), of clk] by blast
  have "slices ?D ?Q = min ?D ?Q # tl (slices ?D ?Q)" using slices_step [OF d] by simp
  then have "map (\<lambda>x. unat (o_quantity x)) (x # xs) = slices ?D ?Q" using s'(3) x(2) assms(8) by simp
  then show ?thesis
    using run s' x by (intro exI [of _ ?s1] exI [of _ s'] exI [of _ "x # xs"]) (simp add: p_def)
qed

theorem iceberg_life_witness:
  "\<exists>s1 s' xs. handle_client_order demo_clk demo_out demo_oms (demo_client C_ICEBERG BUY 100 0 10 4) = Some s1 \<and>
    fill_iceberg demo_clk s1 [[1, 3], [4], [2]] = Some s' \<and> oms_sent s' = oms_sent demo_oms @ xs \<and>
    map (\<lambda>x. unat (o_quantity x)) xs = [4, 4, 2]"
proof -
  let ?c = "demo_client C_ICEBERG BUY 100 0 10 4"
  have sl: "slices 4 10 = [4, 4, 2]" by (simp add: slices.simps)
  have "c_str (c_symbol ?c) = Some ''AAPL''" using demo_str by (simp add: demo_client_def del: append.simps)
  moreover have "find_id demo_oms ''AAPL'' = 5" by (simp add: find_id_def demo_hash demo_oms_def)
  ultimately show ?thesis
    using iceberg_life [of ?c "''AAPL''" demo_oms "[[1, 3], [4], [2]]" demo_clk demo_out] sl by (auto simp: demo_client_def)
qed

text \<open>
  The poll loop ends and misses nothing: when the engine has published \<open>n < 2^21 - 3\<close> trades since start and the system has read
  \<open>j\<close> of them, at most one ring behind, one poll hands the trades \<open>j, \<dots>, n - 1\<close> to \<open>check_fill\<close>, in order, and leaves the
  consumer at \<open>n\<close>.
\<close>

theorem poll_reads_all_trades:
  assumes "publish_all (zero_ring, trade_ring_buffer_new True i) ts = (ring, hp)" "handle_at h j" "j \<le> length ts"
    "length ts \<le> j + 2 ^ 20" "length ts + 3 < 2 ^ 21" "check_fills clk s (drop j ts) = Some s'"
  shows "\<exists>h'. poll_trades clk ring h s = Some (h', s') \<and> handle_at h' (length ts)"
proof -
  have "ring_holds ring ts"
    using publish_all_ok [of "trade_ring_buffer_new True i" "[]" zero_ring ts ring hp] assms(1,5) handle_at_new ring_holds_zero
    by simp
  then show ?thesis by (rule poll_trades_drop [OF _ assms(2-6)])
qed

theorem poll_reads_all_trades_witness:
  "\<exists>ring hp h'. publish_all (zero_ring, trade_ring_buffer_new True 0) [zero_trade\<lparr>t_price := 7\<rparr>] = (ring, hp) \<and>
    poll_trades demo_clk ring (trade_ring_buffer_new False 0) demo_oms = Some (h', demo_oms) \<and> handle_at h' 1"
proof -
  obtain ring hp where p: "publish_all (zero_ring, trade_ring_buffer_new True 0) [zero_trade\<lparr>t_price := 7\<rparr>] = (ring, hp)"
    by fastforce
  have "check_fills demo_clk demo_oms (drop 0 [zero_trade\<lparr>t_price := 7\<rparr>]) = Some demo_oms"
    by (simp add: check_fill_def zero_trade_def)
  from poll_reads_all_trades [OF p handle_at_new _ _ _ this, of False 0] show ?thesis using p by auto
qed

end
