(* ===== verification/Oms_Progress.thy ===== *)
theory Oms_Progress
  imports Oms_Stops Oms_Icebergs
begin

text \<open>
  The passes of the order management system always return. \<open>oms_pass\<close> is undefined where the code would divide by a display quantity of zero, read past a symbol without a
  terminating zero, index outside the prices or the consumers, or poll a ring for ever; this theory shows that with valid clients and
  engines that publish on their rings none of this happens, that every pass takes the next order, and that no order is lost on the way to the engine.
\<close>

section \<open>Icebergs keep something to show\<close>

definition shown_inv :: "OrderManagementSystem \<Rightarrow> bool" where
  "shown_inv s \<longleftrightarrow> (\<forall>i c. active_icebergs s i = Some c \<longrightarrow> c_is_active c \<longrightarrow> 0 < c_display_quantity c) \<and>
     (\<forall>k i. child_to_parent s k = Some i \<longrightarrow> 0 < c_display_quantity (iceberg_parent s i))"

lemma shown_parent: "shown_inv s \<Longrightarrow> c_is_active (iceberg_parent s i) \<Longrightarrow> 0 < c_display_quantity (iceberg_parent s i)"
  by (auto simp: shown_inv_def iceberg_parent_def zero_client_order_def split: option.splits)

lemma shown_inv_cong: "active_icebergs s' = active_icebergs s \<Longrightarrow> child_to_parent s' = child_to_parent s \<Longrightarrow> shown_inv s' = shown_inv s"
  by (simp add: shown_inv_def iceberg_parent_def)

lemma shown_inv_frame [simp]:
  "shown_inv (s\<lparr>trade_consumers := hs\<rparr>) = shown_inv s" "shown_inv (s\<lparr>last_seen_price := l\<rparr>) = shown_inv s"
  "shown_inv (s\<lparr>oms_shutdown := b\<rparr>) = shown_inv s" "shown_inv (s\<lparr>incoming_orders := q\<rparr>) = shown_inv s"
  "shown_inv (s\<lparr>stop_loss_registry := r\<rparr>) = shown_inv s"
  by (rule shown_inv_cong; simp)+

lemma shown_inv_update:
  assumes "shown_inv s" "0 < c_display_quantity p \<or> (\<not> c_is_active p \<and> c_display_quantity p = c_display_quantity (iceberg_parent s i))"
  shows "shown_inv (s\<lparr>active_icebergs := (active_icebergs s)(i \<mapsto> p)\<rparr>)"
  using assms by (auto simp: shown_inv_def iceberg_parent_def)

lemma shown_inv_slice:
  assumes "shown_inv s"
  shows "shown_inv (send_slice clk s i)"
proof (cases rule: send_slice_cases [of s i clk])
  case (idle p)
  then show ?thesis using shown_inv_update [OF assms, of p i] by simp
next
  case (finished p)
  then show ?thesis using shown_inv_update [OF assms, of "p\<lparr>c_is_active := False\<rparr>" i] by simp
next
  case (slice p)
  have d: "0 < c_display_quantity p" using shown_parent [OF assms] slice(1,2) by simp
  have "shown_inv (s\<lparr>active_icebergs := (active_icebergs s)(i \<mapsto> p)\<rparr>)" by (rule shown_inv_update [OF assms]) (simp add: d)
  then show ?thesis unfolding slice(4) using d by (auto simp: shown_inv_def iceberg_parent_def sendToEngine_def)
qed

lemma shown_inv_erase: "shown_inv s \<Longrightarrow> shown_inv (s\<lparr>child_to_parent := (child_to_parent s)(k := None)\<rparr>)"
  by (auto simp: shown_inv_def iceberg_parent_def)

lemma shown_inv_filled:
  assumes "shown_inv s"
  shows "shown_inv (s\<lparr>active_icebergs := (active_icebergs s)(p \<mapsto> (iceberg_parent s p)\<lparr>c_filled_quantity := f\<rparr>)\<rparr>)"
  by (rule shown_inv_update [OF assms]) (use shown_parent [OF assms, of p] in auto)

lemma trigger_icebergs: "trigger_order clk s c = Some s' \<Longrightarrow> active_icebergs s' = active_icebergs s \<and> child_to_parent s' = child_to_parent s"
  by (erule trigger_order_cases) simp

interpretation shown: oms_invariant clk valid_client shown_inv for clk
proof unfold_locales
  fix s c s' assume "shown_inv s" "trigger_order clk s c = Some s'"
  then show "shown_inv s'" using trigger_icebergs shown_inv_cong by metis
next
  fix s c out assume "shown_inv s"
  then show "shown_inv (handle_market clk out s c)" "shown_inv (handle_limit clk out s c)" "shown_inv (registerStopLoss s c)"
    by (auto simp: handle_market_def handle_limit_def registerStopLoss_def fetch_order_id_def getCurrentTimestamp_def Let_def
        shown_inv_def iceberg_parent_def)
next
  fix s and c :: ClientOrder assume "shown_inv s" "valid_client c" "c_execution_type c = C_ICEBERG"
  then show "shown_inv (s\<lparr>active_icebergs := (active_icebergs s)(c_client_order_id c \<mapsto> c)\<rparr>)"
    by (intro shown_inv_update) (simp_all add: valid_client_def)
qed (simp_all add: shown_inv_slice shown_inv_erase shown_inv_filled valid_client_def)

lemma reach_shown:
  assumes "OrderManagementSystem_new clk blank cap csv = Some (Inr s0)" "0 < unat cap" "pow2_part (unat cap) \<le> 2 ^ 32" "oms_reach clk valid_client s0 s"
  shows "shown_inv s"
proof -
  have "shown_inv s0" using assms(1) by (auto simp: OrderManagementSystem_new_def shown_inv_def split: sum.splits option.splits)
  then have "oms_ok valid_client shown_inv s0" using oms_new_ok [OF assms(1-3)] by (simp add: oms_ok_def)
  then show ?thesis using shown.reach_ok [OF assms(4)] by (simp add: oms_ok_def)
qed

section \<open>Fills\<close>

lemma leg_total: "shown_inv s \<Longrightarrow> \<exists>s'. process_iceberg_leg clk s child q = Some s'"
proof (cases "child_to_parent s child")
  case (Some p)
  then show "shown_inv s \<Longrightarrow> ?thesis" by (auto simp: process_iceberg_leg_def Let_def shown_inv_def word_neq_0_conv [symmetric])
qed (simp add: process_iceberg_leg_def)

lemma check_fill_total: "shown_inv s \<Longrightarrow> \<exists>s'. check_fill clk s t = Some s'"
  unfolding check_fill_def using leg_total shown.I_leg by (auto simp: bind_eq_Some_conv) metis+

lemma check_fills_total: "shown_inv s \<Longrightarrow> \<exists>s'. check_fills clk s ts = Some s'"
proof (induction ts arbitrary: s)
  case (Cons t ts)
  obtain s1 where "check_fill clk s t = Some s1" using check_fill_total [OF Cons.prems] by blast
  then show ?case using Cons.IH [OF shown.I_check_fill [OF Cons.prems]] by simp
qed simp

lemma send_slice_frame [simp]:
  "trade_consumers (send_slice clk s i) = trade_consumers s" "stop_loss_registry (send_slice clk s i) = stop_loss_registry s"
  "symbolLookupTable (send_slice clk s i) = symbolLookupTable s" "oms_shutdown (send_slice clk s i) = oms_shutdown s"
  by (simp_all add: send_slice_def getCurrentTimestamp_def Let_def)

lemma leg_frame:
  "process_iceberg_leg clk s child q = Some s' \<Longrightarrow> trade_consumers s' = trade_consumers s \<and> stop_loss_registry s' = stop_loss_registry s \<and>
    symbolLookupTable s' = symbolLookupTable s \<and> oms_shutdown s' = oms_shutdown s"
  by (auto simp: process_iceberg_leg_def Let_def split: option.splits if_splits)

lemma check_fill_frame:
  "check_fill clk s t = Some s' \<Longrightarrow> trade_consumers s' = trade_consumers s \<and> stop_loss_registry s' = stop_loss_registry s \<and>
    symbolLookupTable s' = symbolLookupTable s \<and> oms_shutdown s' = oms_shutdown s"
  by (auto simp: check_fill_def bind_eq_Some_conv split: if_splits dest!: leg_frame)

lemma poll_trades_frame:
  assumes "poll_trades clk ring h s = Some (h', s')"
  shows "trade_consumers s' = trade_consumers s" "stop_loss_registry s' = stop_loss_registry s"
    "symbolLookupTable s' = symbolLookupTable s" "oms_shutdown s' = oms_shutdown s"
proof -
  let ?Q = "\<lambda>u. trade_consumers u = trade_consumers s \<and> stop_loss_registry u = stop_loss_registry s \<and>
    symbolLookupTable u = symbolLookupTable s \<and> oms_shutdown u = oms_shutdown s"
  have "?Q (snd (h', s'))"
  proof (rule poll_trades_keeps [where Q = ?Q, OF _ assms])
    fix u t u' assume "?Q u" "check_fill clk u t = Some u'"
    then show "?Q u'" using check_fill_frame [of clk u t u'] by simp
  qed simp
  then show "trade_consumers s' = trade_consumers s" "stop_loss_registry s' = stop_loss_registry s"
    "symbolLookupTable s' = symbolLookupTable s" "oms_shutdown s' = oms_shutdown s" by simp_all
qed

section \<open>The polls return\<close>

text \<open>
  The rings of the groups hold the trades \<open>tss\<close> published so far, and the consumers have read \<open>js\<close> of them, at most one ring behind. Beyond \<open>2^21 - 3\<close> trades a consumer
  that has caught up takes old trades for new ones.
\<close>

definition rings_hold :: "(nat \<Rightarrow> trade_ring) \<Rightarrow> (nat \<Rightarrow> Trade list) \<Rightarrow> bool" where
  "rings_hold rings tss \<longleftrightarrow> (\<forall>g < GROUP_COUNT. ring_holds (rings g) (tss g) \<and> length (tss g) + 3 < 2 ^ 21)"

definition consumers_at :: "OrderManagementSystem \<Rightarrow> (nat \<Rightarrow> nat) \<Rightarrow> bool" where
  "consumers_at s js \<longleftrightarrow> length (trade_consumers s) = GROUP_COUNT \<and> (\<forall>g < GROUP_COUNT. handle_at (trade_consumers s ! g) (js g))"

definition within_ring :: "(nat \<Rightarrow> nat) \<Rightarrow> (nat \<Rightarrow> Trade list) \<Rightarrow> bool" where
  "within_ring js tss \<longleftrightarrow> (\<forall>g < GROUP_COUNT. js g \<le> length (tss g) \<and> length (tss g) \<le> js g + 2 ^ 20)"

lemma poll_groups_total:
  assumes "shown_inv s" "rings_hold rings tss" "consumers_at s js" "within_ring js tss" "distinct gs" "set gs \<subseteq> {..<GROUP_COUNT}"
  shows "\<exists>s'. poll_groups clk rings gs s = Some s' \<and> consumers_at s' (\<lambda>g. if g \<in> set gs then length (tss g) else js g)"
  using assms
proof (induction gs arbitrary: s js)
  case (Cons g gs)
  have g: "g < GROUP_COUNT" "g \<notin> set gs" using Cons.prems by auto
  have hold: "ring_holds (rings g) (tss g)" "length (tss g) + 3 < 2 ^ 21" using Cons.prems(2) g by (simp_all add: rings_hold_def)
  have at: "handle_at (trade_consumers s ! g) (js g)" "length (trade_consumers s) = GROUP_COUNT" using Cons.prems(3) g by (simp_all add: consumers_at_def)
  have w: "js g \<le> length (tss g)" "length (tss g) \<le> js g + 2 ^ 20" using Cons.prems(4) g by (simp_all add: within_ring_def)
  obtain u where "check_fills clk s (drop (js g) (tss g)) = Some u" using check_fills_total [OF Cons.prems(1)] by blast
  then obtain h where h: "poll_trades clk (rings g) (trade_consumers s ! g) s = Some (h, u)" "handle_at h (length (tss g))"
    using poll_trades_drop [OF hold(1) at(1) w hold(2)] by blast
  define js' where "js' = js(g := length (tss g))"
  let ?u = "u\<lparr>trade_consumers := (trade_consumers u)[g := h]\<rparr>"
  have frame: "trade_consumers u = trade_consumers s" by (rule poll_trades_frame [OF h(1)])
  have shown: "shown_inv u" using poll_trades_keeps [of shown_inv, OF shown.I_check_fill h(1) Cons.prems(1)] by simp
  have "consumers_at ?u js'" using Cons.prems(3) h(2) g frame by (auto simp: js'_def consumers_at_def nth_list_update)
  moreover have "within_ring js' tss" using Cons.prems(4) by (simp add: js'_def within_ring_def)
  ultimately obtain s' where s': "poll_groups clk rings gs ?u = Some s'"
    "consumers_at s' (\<lambda>i. if i \<in> set gs then length (tss i) else js' i)"
    using Cons.IH [of ?u js'] shown Cons.prems(2,5,6) by auto
  have "(\<lambda>i. if i \<in> set gs then length (tss i) else js' i) = (\<lambda>i. if i \<in> set (g # gs) then length (tss i) else js i)" by (auto simp: js'_def)
  then show ?case using s' h(1) at(2) g(1) by simp
qed simp

lemma poll_groups_frame:
  assumes "poll_groups clk rings gs s = Some s'"
  shows "stop_loss_registry s' = stop_loss_registry s" "symbolLookupTable s' = symbolLookupTable s" "oms_shutdown s' = oms_shutdown s"
proof -
  have "stop_loss_registry s' = stop_loss_registry s \<and> symbolLookupTable s' = symbolLookupTable s \<and> oms_shutdown s' = oms_shutdown s"
    using assms
  proof (induction gs arbitrary: s)
    case (Cons g gs)
    obtain h u where "poll_trades clk (rings g) (trade_consumers s ! g) s = Some (h, u)"
      "poll_groups clk rings gs (u\<lparr>trade_consumers := (trade_consumers u)[g := h]\<rparr>) = Some s'"
      using Cons.prems by (auto simp: bind_eq_Some_conv split: if_splits)
    then show ?case using Cons.IH poll_trades_frame [of clk "rings g" "trade_consumers s ! g" s h u] by simp
  qed simp
  then show "stop_loss_registry s' = stop_loss_registry s" "symbolLookupTable s' = symbolLookupTable s" "oms_shutdown s' = oms_shutdown s" by simp_all
qed

section \<open>The scan of the prices returns\<close>

lemma trigger_loop_consumers: "trigger_loop clk fires s cs = Some (s', rest) \<Longrightarrow> trade_consumers s' = trade_consumers s \<and> oms_shutdown s' = oms_shutdown s"
proof (induction cs arbitrary: s)
  case (Cons c cs)
  from Cons.prems show ?case
  proof (cases rule: trigger_loop_Cons)
    case (fired s1)
    have "trade_consumers s1 = trade_consumers s \<and> oms_shutdown s1 = oms_shutdown s" using fired(2) by (rule trigger_order_cases) simp
    then show ?thesis using Cons.IH [OF fired(3)] by simp
  qed simp
qed simp

lemma check_consumers: "checkAndTriggerSL clk s k ltp = Some s' \<Longrightarrow> trade_consumers s' = trade_consumers s \<and> oms_shutdown s' = oms_shutdown s"
  by (auto simp: checkAndTriggerSL_def Let_def bind_eq_Some_conv dest!: trigger_loop_consumers)

lemma scan_consumers: "scan_ltp clk l js s = Some s' \<Longrightarrow> trade_consumers s' = trade_consumers s \<and> oms_shutdown s' = oms_shutdown s"
proof (induction js arbitrary: s)
  case (Cons j js)
  show ?case
  proof (cases "l ! j = last_seen_price s j")
    case True
    then show ?thesis using Cons by (auto simp: Let_def split: if_splits)
  next
    case False
    then obtain s1 where 1: "checkAndTriggerSL clk s j (l ! j) = Some s1"
      and 2: "scan_ltp clk l js (s1\<lparr>last_seen_price := (last_seen_price s1)(j := l ! j)\<rparr>) = Some s'"
      using Cons.prems by (auto simp: Let_def split: if_splits bind_splits)
    show ?thesis using Cons.IH [OF 2] check_consumers [OF 1] by simp
  qed
qed simp

section \<open>A pass returns\<close>

text \<open>What a session must hand over: an order the system can work with, with a terminated symbol.\<close>

definition client_ok :: "ClientOrder \<Rightarrow> bool" where
  "client_ok c \<longleftrightarrow> valid_client c \<and> CHR 0x00 \<in> set (c_symbol c)"

lemma handle_total: "client_ok c \<Longrightarrow> \<exists>s'. handle_client_order clk out s c = Some s'"
  by (auto simp: client_ok_def handle_client_order_def c_str_def Let_def)

lemma operations_frame [simp]:
  "trade_consumers (handle_market clk out s c) = trade_consumers s" "trade_consumers (handle_limit clk out s c) = trade_consumers s"
  "oms_shutdown (handle_market clk out s c) = oms_shutdown s" "oms_shutdown (handle_limit clk out s c) = oms_shutdown s"
  "symbolLookupTable (handle_market clk out s c) = symbolLookupTable s" "symbolLookupTable (handle_limit clk out s c) = symbolLookupTable s"
  "stop_loss_registry (handle_market clk out s c) = stop_loss_registry s" "stop_loss_registry (handle_limit clk out s c) = stop_loss_registry s"
  "trade_consumers (registerStopLoss s c) = trade_consumers s" "oms_shutdown (registerStopLoss s c) = oms_shutdown s"
  "symbolLookupTable (registerStopLoss s c) = symbolLookupTable s" "oms_sent (registerStopLoss s c) = oms_sent s"
  by (simp_all add: handle_market_def handle_limit_def registerStopLoss_def fetch_order_id_def getCurrentTimestamp_def Let_def)

lemma register_stops: "stops_at (registerStopLoss s c) k = (if k = unat (c_symbol_id c AND SYMBOL_MASK) then insert c (stops_at s k) else stops_at s k)"
  by (auto simp: stops_at_def registerStopLoss_def Let_def)

text \<open>What one client order does, with its symbol looked up.\<close>

lemma handle_cases:
  assumes "handle_client_order clk out s c = Some s'"
  obtains (unknown) symbol where "c_str (c_symbol c) = Some symbol" "find_id s symbol = - 1" "s' = s"
  | (known) symbol n where "c_str (c_symbol c) = Some symbol" "find_id s symbol \<noteq> - 1" "n = c\<lparr>c_symbol_id := find_id s symbol\<rparr>"
      "s' = (case c_execution_type c of
         C_ICEBERG \<Rightarrow> send_slice clk (s\<lparr>active_icebergs := (active_icebergs s)(c_client_order_id c \<mapsto> n)\<rparr>) (c_client_order_id c)
       | C_STOP_LOSS \<Rightarrow> registerStopLoss s n | C_MARKET \<Rightarrow> handle_market clk out s n | C_LIMIT \<Rightarrow> handle_limit clk out s n)"
proof -
  obtain symbol where sym: "c_str (c_symbol c) = Some symbol" using assms by (auto simp: handle_client_order_def split: bind_splits)
  show thesis
  proof (cases "find_id s symbol = - 1")
    case True
    then show thesis using sym assms by (intro unknown [of symbol]) (simp_all add: handle_client_order_def Let_def)
  next
    case False
    then show thesis using sym assms
      by (intro known [of symbol, OF sym False refl]) (cases "c_execution_type c"; simp add: handle_client_order_def Let_def)
  qed
qed

lemma handle_frame:
  assumes "handle_client_order clk out s c = Some s'"
  shows "trade_consumers s' = trade_consumers s" "oms_shutdown s' = oms_shutdown s" "symbolLookupTable s' = symbolLookupTable s"
    "stops_at s k \<subseteq> stops_at s' k"
proof -
  have "trade_consumers s' = trade_consumers s \<and> oms_shutdown s' = oms_shutdown s \<and> symbolLookupTable s' = symbolLookupTable s \<and>
      stops_at s k \<subseteq> stops_at s' k"
    using assms
  proof (cases rule: handle_cases)
    case (known symbol n)
    have "stops_at s k \<subseteq> stops_at (registerStopLoss s n) k" by (auto simp: register_stops)
    then show ?thesis using known(4) by (cases "c_execution_type c") (simp_all add: stops_at_def)
  qed simp
  then show "trade_consumers s' = trade_consumers s" "oms_shutdown s' = oms_shutdown s" "symbolLookupTable s' = symbolLookupTable s"
    "stops_at s k \<subseteq> stops_at s' k" by simp_all
qed

lemma oms_pass_parts:
  assumes "rb_inv (incoming_orders s)" "\<not> oms_shutdown s" "oms_pass clk out rings mem s = Some s'"
  obtains q msg s2 s3 where "RingBuffer_pop (incoming_orders s) = Some (q, msg)" "rb_inv q" "rb_room q = rb_room (incoming_orders s)"
    "rb_contents (incoming_orders s) = (case msg of None \<Rightarrow> [] | Some y \<Rightarrow> [y]) @ rb_contents q" "msg = None \<longleftrightarrow> rb_contents (incoming_orders s) = []"
    "(case msg of None \<Rightarrow> Some (s\<lparr>incoming_orders := q\<rparr>) | Some c \<Rightarrow> handle_client_order clk out (s\<lparr>incoming_orders := q\<rparr>) c) = Some s2"
    "poll_groups clk rings [0..<GROUP_COUNT] s2 = Some s3"
    "(case mem of None \<Rightarrow> Some s3 | Some l \<Rightarrow> scan_ltp clk l [0..<MAX_SYMBOLS] s3) = Some s'" "incoming_orders s' = q"
proof -
  obtain q msg where q: "RingBuffer_pop (incoming_orders s) = Some (q, msg)" "rb_inv q" "rb_room q = rb_room (incoming_orders s)"
    "rb_contents (incoming_orders s) = (case msg of None \<Rightarrow> [] | Some y \<Rightarrow> [y]) @ rb_contents q" "msg = None \<longleftrightarrow> rb_contents (incoming_orders s) = []"
    by (rule rb.pop_total [OF assms(1)])
  obtain s2 s3 where s2: "(case msg of None \<Rightarrow> Some (s\<lparr>incoming_orders := q\<rparr>)
      | Some c \<Rightarrow> handle_client_order clk out (s\<lparr>incoming_orders := q\<rparr>) c) = Some s2"
    and s3: "poll_groups clk rings [0..<GROUP_COUNT] s2 = Some s3"
    and s': "(case mem of None \<Rightarrow> Some s3 | Some l \<Rightarrow> scan_ltp clk l [0..<MAX_SYMBOLS] s3) = Some s'"
    using assms(2,3) q(1) by (auto simp: oms_pass_def Let_def split: bind_splits)
  have "incoming_orders s2 = q"
    using s2 queue_kept.I_handle [of "s\<lparr>incoming_orders := q\<rparr>" q] by (auto split: option.splits)
  then have q3: "incoming_orders s3 = q" by (rule queue_kept.I_poll_groups [OF _ s3])
  have "incoming_orders s' = q"
  proof (cases mem)
    case (Some l)
    then have "scan_ltp clk l [0..<MAX_SYMBOLS] s3 = Some s'" using s' by simp
    then show ?thesis by (rule queue_kept.I_scan [OF q3])
  qed (use q3 s' in simp)
  then show thesis by (rule that [OF q s2 s3 s'])
qed

lemma oms_pass_total:
  assumes s: "shown_inv s" "stops_inv s" "rb_inv (incoming_orders s)" "\<forall>c \<in> set (rb_contents (incoming_orders s)). client_ok c" "\<not> oms_shutdown s"
    and rings: "rings_hold rings tss" "consumers_at s js" "within_ring js tss" and mem: "\<forall>l. mem = Some l \<longrightarrow> length l = MAX_SYMBOLS"
  shows "\<exists>s'. oms_pass clk out rings mem s = Some s' \<and> consumers_at s' (\<lambda>g. length (tss g)) \<and> \<not> oms_shutdown s' \<and>
    rb_contents (incoming_orders s') = tl (rb_contents (incoming_orders s)) \<and> rb_room (incoming_orders s') = rb_room (incoming_orders s)"
proof -
  obtain q msg where q: "RingBuffer_pop (incoming_orders s) = Some (q, msg)" "rb_inv q" "rb_room q = rb_room (incoming_orders s)"
    "rb_contents (incoming_orders s) = (case msg of None \<Rightarrow> [] | Some y \<Rightarrow> [y]) @ rb_contents q" "msg = None \<longleftrightarrow> rb_contents (incoming_orders s) = []"
    by (rule rb.pop_total [OF s(3)])
  let ?s1 = "s\<lparr>incoming_orders := q\<rparr>"
  have ok: "client_ok c" "valid_client c" if "msg = Some c" for c using s(4) q(4) that by (auto simp: client_ok_def)
  obtain s2 where s2: "(case msg of None \<Rightarrow> Some ?s1 | Some c \<Rightarrow> handle_client_order clk out ?s1 c) = Some s2"
    by (cases msg) (simp, use handle_total [OF ok(1)] in force)
  have i1: "shown_inv ?s1" "stops_inv ?s1" using s(1,2) by simp_all
  have "shown_inv s2" "stops_inv s2" "trade_consumers s2 = trade_consumers s" "oms_shutdown s2 = oms_shutdown s"
    using s2 i1 shown.I_handle [OF i1(1) ok(2)] stops.I_handle [OF i1(2)] handle_frame [of clk out ?s1] by (auto split: option.splits)
  note 2 = this
  obtain s3 where s3: "poll_groups clk rings [0..<GROUP_COUNT] s2 = Some s3"
    "consumers_at s3 (\<lambda>g. if g \<in> set [0..<GROUP_COUNT] then length (tss g) else js g)"
    using poll_groups_total [OF 2(1) rings(1) _ rings(3), of "[0..<GROUP_COUNT]" clk] rings(2) 2(3) by (auto simp: consumers_at_def atLeast0LessThan)
  have 3: "stops_inv s3" by (rule stops.I_poll_groups [OF 2(2) s3(1)])
  obtain s' where s': "(case mem of None \<Rightarrow> Some s3 | Some l \<Rightarrow> scan_ltp clk l [0..<MAX_SYMBOLS] s3) = Some s'"
  proof (cases mem)
    case (Some l)
    then have "\<forall>j \<in> set [0..<MAX_SYMBOLS]. j < length l" using mem by simp
    then show thesis using scan_ltp_ok [OF 3 distinct_upt, of 0 MAX_SYMBOLS l clk] that Some by auto
  qed (use that in simp)
  have run: "oms_pass clk out rings mem s = Some s'" using s(5) q(1) s2 s3(1) s' by (simp add: oms_pass_def Let_def)
  have "consumers_at s' (\<lambda>g. length (tss g))" "\<not> oms_shutdown s'"
    using s' s3(2) s(5) 2(4) poll_groups_frame(3) [OF s3(1)] scan_consumers by (auto simp: consumers_at_def split: option.splits)
  moreover have "incoming_orders s' = q" using oms_pass_parts [OF s(3,5) run] q(1) by (metis option.inject prod.inject)
  moreover have "rb_contents q = tl (rb_contents (incoming_orders s))" using q(4,5) by (cases msg) simp_all
  ultimately show ?thesis using run q(3) by simp
qed

section \<open>No order is lost\<close>

text \<open>The order the engine gets for a client order: a limit order for a limit order, a triggered stop or the first slice of an iceberg, a market order for a market order.\<close>

definition engine_order :: "OrderManagementSystem \<Rightarrow> ClientOrder \<Rightarrow> Order \<Rightarrow> bool" where
  "engine_order s c x \<longleftrightarrow> o_type x = c_type c \<and> o_trader_id x = c_trader_id c \<and> o_symbol_id x = find_id s (the (c_str (c_symbol c))) \<and>
     o_execution_type x = (if c_execution_type c = C_MARKET then MARKET else LIMIT) \<and>
     (c_execution_type c \<noteq> C_MARKET \<longrightarrow> o_price x = c_price c) \<and>
     (if c_execution_type c = C_ICEBERG then o_quantity x = min (c_display_quantity c) (c_quantity c - c_filled_quantity c)
      else o_quantity x = c_quantity c \<and> o_client_order_id x = c_client_order_id c)"

definition tradable :: "OrderManagementSystem \<Rightarrow> ClientOrder \<Rightarrow> bool" where
  "tradable s c \<longleftrightarrow> (\<exists>symbol. c_str (c_symbol c) = Some symbol \<and> find_id s symbol \<noteq> - 1) \<and> (c_execution_type c = C_LIMIT \<longrightarrow> c_price c \<noteq> 0) \<and>
     (c_execution_type c = C_ICEBERG \<longrightarrow> c_is_active c \<and> c_quantity c \<noteq> c_filled_quantity c)"

definition resting_stop :: "OrderManagementSystem \<Rightarrow> ClientOrder \<Rightarrow> bool" where
  "resting_stop s c \<longleftrightarrow> c_execution_type c = C_STOP_LOSS \<and>
     (\<exists>k. c\<lparr>c_symbol_id := find_id s (the (c_str (c_symbol c)))\<rparr> \<in> stops_at s k)"

definition forwarded :: "OrderManagementSystem \<Rightarrow> ClientOrder \<Rightarrow> bool" where
  "forwarded s c \<longleftrightarrow> (\<exists>x \<in> set (oms_sent s). engine_order s c x)"

definition not_lost :: "OrderManagementSystem \<Rightarrow> ClientOrder \<Rightarrow> bool" where
  "not_lost s c \<longleftrightarrow> c \<in> set (rb_contents (incoming_orders s)) \<or> resting_stop s c \<or> forwarded s c"

lemma find_id_cong: "symbolLookupTable s' = symbolLookupTable s \<Longrightarrow> find_id s' = find_id s"
  by (simp add: fun_eq_iff find_id_def Let_def)

lemma forwarded_mono:
  assumes "forwarded s c" "symbolLookupTable s' = symbolLookupTable s" "prefix (oms_sent s) (oms_sent s')"
  shows "forwarded s' c"
proof -
  have "set (oms_sent s) \<subseteq> set (oms_sent s')" using assms(3) by (rule set_mono_prefix)
  then show ?thesis using assms(1) by (auto simp: forwarded_def engine_order_def find_id_cong [OF assms(2)])
qed

lemma send_slice_sent: "prefix (oms_sent s) (oms_sent (send_slice clk s i))"
  by (cases rule: send_slice_cases [of s i clk]) simp_all

interpretation sent: oms_invariant clk "\<lambda>_. True" "\<lambda>s. symbolLookupTable s = table \<and> prefix xs (oms_sent s)" for clk table xs
proof unfold_locales
  fix s c s' assume "symbolLookupTable s = table \<and> prefix xs (oms_sent s)" "trigger_order clk s c = Some s'"
  then show "symbolLookupTable s' = table \<and> prefix xs (oms_sent s')"
    by (auto elim!: trigger_order_cases)
next
  fix s :: OrderManagementSystem and p assume "symbolLookupTable s = table \<and> prefix xs (oms_sent s)"
  then show "symbolLookupTable (send_slice clk s p) = table \<and> prefix xs (oms_sent (send_slice clk s p))"
    using send_slice_sent prefix_order.trans by fastforce
qed (auto simp: handle_market_def handle_limit_def registerStopLoss_def fetch_order_id_def getCurrentTimestamp_def Let_def)

lemma handle_not_lost:
  assumes "handle_client_order clk out s c = Some s'" "tradable s c"
  shows "resting_stop s' c \<or> forwarded s' c"
  using assms(1)
proof (cases rule: handle_cases)
  case (unknown symbol)
  then show ?thesis using assms(2) by (simp add: tradable_def)
next
  case (known symbol n)
  have f: "find_id s' = find_id s" by (rule find_id_cong) (rule handle_frame(3) [OF assms(1)])
  show ?thesis
  proof (cases "c_execution_type c")
    case C_STOP_LOSS
    then have "n \<in> stops_at s' (unat (c_symbol_id n AND SYMBOL_MASK))" using known(4) by (simp add: register_stops)
    then show ?thesis using C_STOP_LOSS known(1,3) f unfolding resting_stop_def by auto
  next
    case C_ICEBERG
    let ?s = "s\<lparr>active_icebergs := (active_icebergs s)(c_client_order_id c \<mapsto> n)\<rparr>"
    have p: "iceberg_parent ?s (c_client_order_id c) = n" by (simp add: iceberg_parent_def)
    have n: "c_is_active n" "c_quantity n \<noteq> c_filled_quantity n" using assms(2) C_ICEBERG known(3) by (simp_all add: tradable_def)
    have s': "s' = send_slice clk ?s (c_client_order_id c)" using known(4) C_ICEBERG by simp
    show ?thesis
    proof (cases rule: send_slice_cases [of ?s "c_client_order_id c" clk])
      case (slice p')
      then show ?thesis using C_ICEBERG known(1,3) f p unfolding forwarded_def s' slice(4) by (simp add: engine_order_def)
    qed (use p n in simp_all)
  next
    case C_MARKET
    then show ?thesis using known f
      by (simp add: forwarded_def handle_market_def fetch_order_id_def getCurrentTimestamp_def engine_order_def)
  next
    case C_LIMIT
    then have "c_price n \<noteq> 0" using assms(2) known(3) by (simp add: tradable_def)
    then show ?thesis using C_LIMIT known f
      by (simp add: forwarded_def handle_limit_def fetch_order_id_def getCurrentTimestamp_def engine_order_def)
  qed
qed

lemma resting_stop_mono:
  assumes "resting_stop s c" "symbolLookupTable s' = symbolLookupTable s" "\<And>k. stops_at s k \<subseteq> stops_at s' k"
  shows "resting_stop s' c"
  using assms by (auto simp: resting_stop_def find_id_cong [OF assms(2)])

lemma scan_not_lost:
  assumes "stops_inv s" "length l = MAX_SYMBOLS" "scan_ltp clk l [0..<MAX_SYMBOLS] s = Some s'" "resting_stop s c"
  shows "resting_stop s' c \<or> forwarded s' c"
proof -
  let ?n = "c\<lparr>c_symbol_id := find_id s (the (c_str (c_symbol c)))\<rparr>"
  have t: "symbolLookupTable s' = symbolLookupTable s" using sent.I_scan [of s "symbolLookupTable s" "[]", OF _ assms(3)] by simp
  have "\<forall>j \<in> set [0..<MAX_SYMBOLS]. j < length l" using assms(2) by simp
  from scan_ltp_ok [OF assms(1) distinct_upt this, of clk] obtain xs where xs: "oms_sent s' = oms_sent s @ xs"
    "\<forall>j. \<forall>c \<in> stops_at s j. c \<notin> stops_at s' j \<longrightarrow> (\<exists>x \<in> set xs. triggered s c x)"
    using assms(3) by auto
  obtain k where k: "?n \<in> stops_at s k" and sl: "c_execution_type c = C_STOP_LOSS" using assms(4) by (auto simp: resting_stop_def)
  show ?thesis
  proof (cases "?n \<in> stops_at s' k")
    case False
    then obtain x where "x \<in> set xs" "triggered s ?n x" using xs(2) k by blast
    then have "x \<in> set (oms_sent s')" "engine_order s' c x"
      using xs(1) sl by (simp_all add: engine_order_def triggered_def find_id_cong [OF t])
    then show ?thesis by (auto simp: forwarded_def)
  qed (use sl find_id_cong [OF t] in \<open>auto simp: resting_stop_def\<close>)
qed

lemma pass_table:
  assumes "oms_pass clk out rings mem s = Some s'" "rb_inv (incoming_orders s)"
  shows "symbolLookupTable s' = symbolLookupTable s" "prefix (oms_sent s) (oms_sent s')"
  using sent.ok_pass [of "symbolLookupTable s" "oms_sent s" s clk out rings mem s'] assms by (simp_all add: oms_ok_def)

lemma handle_sent: "handle_client_order clk out s c = Some s' \<Longrightarrow> prefix (oms_sent s) (oms_sent s')"
  using sent.I_handle [of s "symbolLookupTable s" "oms_sent s"] by blast

lemma pass_not_lost:
  assumes s: "rb_inv (incoming_orders s)" "stops_inv s" "\<not> oms_shutdown s" and mem: "\<forall>l. mem = Some l \<longrightarrow> length l = MAX_SYMBOLS"
    and pass: "oms_pass clk out rings mem s = Some s'" and c: "tradable s c" "not_lost s c"
  shows "not_lost s' c"
proof -
  obtain q msg s2 s3 where q: "rb_contents (incoming_orders s) = (case msg of None \<Rightarrow> [] | Some y \<Rightarrow> [y]) @ rb_contents q"
    and s2: "(case msg of None \<Rightarrow> Some (s\<lparr>incoming_orders := q\<rparr>) | Some c \<Rightarrow> handle_client_order clk out (s\<lparr>incoming_orders := q\<rparr>) c) = Some s2"
    and s3: "poll_groups clk rings [0..<GROUP_COUNT] s2 = Some s3"
    and s': "(case mem of None \<Rightarrow> Some s3 | Some l \<Rightarrow> scan_ltp clk l [0..<MAX_SYMBOLS] s3) = Some s'" "incoming_orders s' = q"
    by (rule oms_pass_parts [OF s(1,3) pass])
  let ?s1 = "s\<lparr>incoming_orders := q\<rparr>"
  have t: "tradable ?s1 c" using c(1) by (simp add: tradable_def find_id_cong [of ?s1 s])
  have mono2: "symbolLookupTable s2 = symbolLookupTable s" "prefix (oms_sent s) (oms_sent s2)" "stops_at s k \<subseteq> stops_at s2 k" for k
    using s2 handle_sent [of clk out ?s1 _ s2] handle_frame(3) [of clk out ?s1 _ s2] handle_frame(4) [of clk out ?s1 _ s2 k]
    by (auto simp: stops_at_def split: option.splits)
  have "c \<in> set (rb_contents q) \<or> resting_stop s2 c \<or> forwarded s2 c"
  proof (cases "msg = Some c")
    case True
    then show ?thesis using handle_not_lost [OF _ t] s2 by auto
  next
    case False
    then have "c \<in> set (rb_contents q) \<or> resting_stop s c \<or> forwarded s c" using c(2) q by (auto simp: not_lost_def split: option.splits)
    then show ?thesis using resting_stop_mono mono2 forwarded_mono by metis
  qed
  moreover have mono3: "symbolLookupTable s3 = symbolLookupTable s2" "prefix (oms_sent s2) (oms_sent s3)"
    using sent.I_poll_groups [of s2 "symbolLookupTable s2" "oms_sent s2", OF _ s3] by simp_all
  ultimately have 3: "c \<in> set (rb_contents q) \<or> resting_stop s3 c \<or> forwarded s3 c"
    using resting_stop_mono [of s2 c s3] forwarded_mono poll_groups_frame(1) [OF s3] by (auto simp: stops_at_def)
  have "stops_inv ?s1" using s(2) by simp
  then have "stops_inv s2" using s2 stops.I_handle [of ?s1 clk out _ s2] by (auto split: option.splits)
  then have inv3: "stops_inv s3" by (rule stops.I_poll_groups [OF _ s3])
  show ?thesis
  proof (cases mem)
    case None
    then show ?thesis using 3 s' by (auto simp: not_lost_def)
  next
    case (Some l)
    then have scan: "scan_ltp clk l [0..<MAX_SYMBOLS] s3 = Some s'" and len: "length l = MAX_SYMBOLS" using s'(1) mem by simp_all
    have "symbolLookupTable s' = symbolLookupTable s3" "prefix (oms_sent s3) (oms_sent s')"
      using sent.I_scan [of s3 "symbolLookupTable s3" "oms_sent s3", OF _ scan] by simp_all
    then show ?thesis using 3 scan_not_lost [OF inv3 len scan] forwarded_mono s'(2) unfolding not_lost_def by blast
  qed
qed

section \<open>Many passes\<close>

text \<open>
  The loop of \<open>listenForClientOrder\<close> for as many passes as the list has; each pass sees its own uninitialised order, its own rings and prices. \<open>inputs_ok\<close> says what the
  rings and prices of a pass have to be, with the trades published so far.
\<close>

type_synonym pass_input = "Order \<times> (nat \<Rightarrow> trade_ring) \<times> MarketState option"

primrec oms_passes :: "(nat \<Rightarrow> u64) \<Rightarrow> pass_input list \<Rightarrow> OrderManagementSystem \<Rightarrow> OrderManagementSystem option" where
  "oms_passes clk [] s = Some s"
| "oms_passes clk (i # is) s = (case i of (out, rings, mem) \<Rightarrow> Option.bind (oms_pass clk out rings mem s) (oms_passes clk is))"

definition input_ok :: "(nat \<Rightarrow> nat) \<Rightarrow> (nat \<Rightarrow> Trade list) \<Rightarrow> pass_input \<Rightarrow> bool" where
  "input_ok js tss i \<longleftrightarrow> (case i of (out, rings, mem) \<Rightarrow> rings_hold rings tss \<and> within_ring js tss \<and> (\<forall>l. mem = Some l \<longrightarrow> length l = MAX_SYMBOLS))"

fun inputs_ok :: "(nat \<Rightarrow> nat) \<Rightarrow> (nat \<Rightarrow> Trade list) list \<Rightarrow> pass_input list \<Rightarrow> bool" where
  "inputs_ok js [] [] = True"
| "inputs_ok js (tss # tsss) (i # is) = (input_ok js tss i \<and> inputs_ok (\<lambda>g. length (tss g)) tsss is)"
| "inputs_ok js _ _ = False"

interpretation waiting: oms_invariant clk client_ok "\<lambda>_. True" for clk
  by unfold_locales (simp_all add: client_ok_def valid_client_def)

text \<open>Everything the passes rely on.\<close>

definition running :: "OrderManagementSystem \<Rightarrow> bool" where
  "running s \<longleftrightarrow> shown_inv s \<and> stops_inv s \<and> oms_ok client_ok (\<lambda>_. True) s \<and> \<not> oms_shutdown s"

lemma reach_running:
  assumes "OrderManagementSystem_new clk blank cap csv = Some (Inr s0)" "0 < unat cap" "pow2_part (unat cap) \<le> 2 ^ 32"
    "oms_reach clk client_ok s0 s" "\<not> oms_shutdown s"
  shows "running s"
proof -
  have "oms_reach clk valid_client s0 s" using oms_reach_mono [OF assms(4)] by (simp add: client_ok_def)
  moreover have "oms_ok client_ok (\<lambda>_. True) s0" using assms(1) by (auto elim!: oms_new_cases simp: oms_ok_def rb_inv_new [OF assms(2,3)])
  ultimately show ?thesis
    using reach_shown [OF assms(1-3)] reach_stops [OF assms(1-4)] waiting.reach_ok [OF assms(4)] assms(5) by (simp add: running_def)
qed

lemma running_pass:
  assumes "running s" "input_ok js tss (out, rings, mem)" "consumers_at s js"
  shows "\<exists>s'. oms_pass clk out rings mem s = Some s' \<and> running s' \<and> consumers_at s' (\<lambda>g. length (tss g)) \<and>
    rb_contents (incoming_orders s') = tl (rb_contents (incoming_orders s)) \<and> rb_room (incoming_orders s') = rb_room (incoming_orders s) \<and>
    symbolLookupTable s' = symbolLookupTable s \<and> (\<forall>c. tradable s c \<longrightarrow> not_lost s c \<longrightarrow> not_lost s' c)"
proof -
  have r: "shown_inv s" "stops_inv s" "rb_inv (incoming_orders s)" "\<forall>c \<in> set (rb_contents (incoming_orders s)). client_ok c" "\<not> oms_shutdown s"
    using assms(1) by (simp_all add: running_def oms_ok_def)
  have i: "rings_hold rings tss" "within_ring js tss" "\<forall>l. mem = Some l \<longrightarrow> length l = MAX_SYMBOLS" using assms(2) by (simp_all add: input_ok_def)
  obtain s' where s': "oms_pass clk out rings mem s = Some s'" "consumers_at s' (\<lambda>g. length (tss g))" "\<not> oms_shutdown s'"
    "rb_contents (incoming_orders s') = tl (rb_contents (incoming_orders s))" "rb_room (incoming_orders s') = rb_room (incoming_orders s)"
    using oms_pass_total [OF r i(1) assms(3) i(2,3)] by blast
  have w: "oms_ok client_ok (\<lambda>_. True) s'" by (rule waiting.ok_pass [OF _ s'(1)]) (use assms(1) in \<open>simp add: running_def\<close>)
  have "oms_ok valid_client shown_inv s" using r by (auto simp: oms_ok_def client_ok_def)
  then have "shown_inv s'" using shown.ok_pass [OF _ s'(1)] by (simp add: oms_ok_def)
  moreover have "stops_inv s'" using stops.ok_pass [OF _ s'(1)] r by (simp add: oms_ok_def)
  ultimately have "running s'" using w s'(3) by (simp add: running_def)
  then show ?thesis using s' pass_table(1) [OF s'(1) r(3)] pass_not_lost [OF r(3,2,5) i(3) s'(1)] by blast
qed

lemma tradable_cong: "symbolLookupTable s' = symbolLookupTable s \<Longrightarrow> tradable s' c = tradable s c"
  using find_id_cong [of s' s] by (simp add: tradable_def)

lemma running_passes:
  assumes "running s" "consumers_at s js" "inputs_ok js tsss is"
  shows "\<exists>s'. oms_passes clk is s = Some s' \<and> running s' \<and> rb_contents (incoming_orders s') = drop (length is) (rb_contents (incoming_orders s)) \<and>
    symbolLookupTable s' = symbolLookupTable s \<and> (\<forall>c. tradable s c \<longrightarrow> not_lost s c \<longrightarrow> not_lost s' c)"
  using assms
proof (induction js tsss "is" arbitrary: s rule: inputs_ok.induct)
  case (2 js tss tsss i "is")
  obtain out rings mem where i: "i = (out, rings, mem)" by (cases i)
  obtain s1 where s1: "oms_pass clk out rings mem s = Some s1" "running s1" "consumers_at s1 (\<lambda>g. length (tss g))"
    "rb_contents (incoming_orders s1) = tl (rb_contents (incoming_orders s))" "symbolLookupTable s1 = symbolLookupTable s"
    "\<forall>c. tradable s c \<longrightarrow> not_lost s c \<longrightarrow> not_lost s1 c"
    using running_pass [OF 2(2) _ 2(3), of tss out rings mem clk] 2(4) i by auto
  obtain s' where "oms_passes clk is s1 = Some s'" "running s'" "rb_contents (incoming_orders s') = drop (length is) (rb_contents (incoming_orders s1))"
    "symbolLookupTable s' = symbolLookupTable s1" "\<forall>c. tradable s1 c \<longrightarrow> not_lost s1 c \<longrightarrow> not_lost s' c"
    using 2(1) [OF s1(2,3)] 2(4) by auto
  then show ?case using s1 i tradable_cong [OF s1(5)] by (auto simp: drop_Suc)
qed simp_all

section \<open>Properties of the passes\<close>


lemma demo_consumers: "consumers_at (demo_oms\<lparr>incoming_orders := q\<rparr>) (\<lambda>_. 0)"
proof -
  have "handle_at (trade_consumers demo_oms ! g) 0" if "g < GROUP_COUNT" for g
    using that handle_at_new by (cases "g = 0") (auto simp: demo_oms_def GROUP_COUNT_def nth_Cons')
  then show ?thesis unfolding consumers_at_def by (simp add: demo_oms_def GROUP_COUNT_def)
qed

lemma demo_input: "input_ok (\<lambda>_. 0) (\<lambda>_. []) (demo_out, \<lambda>_. zero_ring, None)"
  by (simp add: input_ok_def rings_hold_def within_ring_def ring_holds_zero)

lemma demo_client_ok: "client_ok (demo_client C_LIMIT SELL 101 0 10 0)"
  by (simp add: client_ok_def demo_limit)


end
