(* ===== verification/Byte_Layout.thy ===== *)
theory Byte_Layout
  imports Prelude
begin

text \<open>
  Memory images: the little-endian bytes of the program's integers and the fields of a struct, as the program sends them over
  its sockets and writes them to its files.
\<close>

text \<open>Little-endian integers.\<close>

fun le_bytes :: "nat \<Rightarrow> nat \<Rightarrow> u8 list" where
  "le_bytes 0 x = []"
| "le_bytes (Suc n) x = of_nat (x mod 256) # le_bytes n (x div 256)"

fun le_value :: "u8 list \<Rightarrow> nat" where
  "le_value [] = 0"
| "le_value (b # bs) = unat b + 256 * le_value bs"

definition field :: "nat \<Rightarrow> nat \<Rightarrow> u8 list \<Rightarrow> u8 list" where
  "field off n bs = take n (drop off bs)"

lemma length_le_bytes [simp]: "length (le_bytes n x) = n"
  by (induction n arbitrary: x) auto

lemma le_value_le_bytes: "le_value (le_bytes n x) = x mod 256 ^ n"
proof (induction n arbitrary: x)
  case (Suc n)
  have "unat (of_nat (x mod 256) :: u8) = x mod 256" by (simp add: unat_of_nat)
  then show ?case using Suc by (simp add: mod_mult2_eq)
qed simp

lemma le_value_u64 [simp]: "le_value (le_bytes 8 (unat (x :: u64))) = unat x"
  using unsigned_less [of x, where 'a = nat] by (simp add: le_value_le_bytes)

lemma le_value_u32 [simp]: "le_value (le_bytes 4 (unat (x :: u32))) = unat x"
  using unsigned_less [of x, where 'a = nat] by (simp add: le_value_le_bytes)

lemma symbol_roundtrip: "map (\<lambda>b. char_of (unat b)) (map of_char cs :: u8 list) = cs"
proof -
  have "char_of (unat (of_char c :: u8)) = c" for c
  proof -
    have e: "(of_char c :: u8) = of_nat (of_char c)" by (simp only: of_nat_of_char)
    have "unat (of_char c :: u8) = of_char c"
      unfolding e by (simp only: unat_of_nat) (simp add: nat_of_char_less_256)
    then show ?thesis by simp
  qed
  then show ?thesis by (simp add: comp_def)
qed

end
