(* ===== verification/Client_Wire.thy ===== *)
theory Client_Wire
  imports Oms_Run Byte_Layout
begin

text \<open>
  The way of a client order over TCP: the sender's \<open>send_order\<close> (\<^verbatim>\<open>src/bots/run.cpp\<close>) writes the bytes of the struct, the
  server's \<open>readExact\<close> and \<open>clientSession\<close> (\<^verbatim>\<open>src/src/oms_order_receiving_server.cpp\<close>) read them back and enqueue the
  order. The kernel is a parameter: the results of the calls to \<open>send\<close> and \<open>recv\<close>, in their order. Sockets, threads and the accept
  loop are not modelled.
\<close>

section \<open>The memory image of a client order\<close>

definition type_code :: "OrderType \<Rightarrow> nat" where
  "type_code t = (case t of BUY \<Rightarrow> 0 | SELL \<Rightarrow> 1)"

definition type_of_code :: "nat \<Rightarrow> OrderType option" where
  "type_of_code n = (if n = 0 then Some BUY else if n = 1 then Some SELL else None)"

definition exec_code :: "ClientOrderType \<Rightarrow> nat" where
  "exec_code t = (case t of C_MARKET \<Rightarrow> 0 | C_LIMIT \<Rightarrow> 1 | C_STOP_LOSS \<Rightarrow> 2 | C_ICEBERG \<Rightarrow> 3)"

definition exec_of_code :: "nat \<Rightarrow> ClientOrderType option" where
  "exec_of_code n = (if n = 0 then Some C_MARKET else if n = 1 then Some C_LIMIT else if n = 2 then Some C_STOP_LOSS
     else if n = 3 then Some C_ICEBERG else None)"

text \<open>
  The struct on x86-64: 72 bytes, with four bytes of padding before the 8-byte aligned \<open>trader_id\<close> and three at the end.
\<close>

definition order_size :: nat where "order_size = 72"

definition order_bytes :: "u8 list \<Rightarrow> u8 list \<Rightarrow> ClientOrder \<Rightarrow> u8 list" where
  "order_bytes pad1 pad2 c =
     le_bytes 8 (unat (c_client_order_id c)) @ le_bytes 8 (unat (c_price c)) @ le_bytes 8 (unat (c_trigger_price c)) @
     map of_char (c_symbol c) @ le_bytes 4 (unat (c_symbol_id c)) @ pad1 @ le_bytes 8 (unat (c_trader_id c)) @
     le_bytes 4 (type_code (c_type c)) @ le_bytes 4 (unat (c_quantity c)) @ le_bytes 4 (unat (c_display_quantity c)) @
     le_bytes 4 (unat (c_filled_quantity c)) @ le_bytes 4 (exec_code (c_execution_type c)) @
     [if c_is_active c then 1 else 0] @ pad2"

text \<open>Reading the struct back; \<open>None\<close> for bytes that are not the image of an order (an enum value or flag out of range).\<close>

definition order_of_bytes :: "u8 list \<Rightarrow> ClientOrder option" where
  "order_of_bytes bs = do {
     ty \<leftarrow> type_of_code (le_value (field 48 4 bs));
     ex \<leftarrow> exec_of_code (le_value (field 64 4 bs));
     active \<leftarrow> (let a = le_value (field 68 1 bs) in if a = 0 then Some False else if a = 1 then Some True else None);
     Some \<lparr>c_client_order_id = of_nat (le_value (field 0 8 bs)), c_price = of_nat (le_value (field 8 8 bs)),
       c_trigger_price = of_nat (le_value (field 16 8 bs)), c_symbol = map (\<lambda>b. char_of (unat b)) (field 24 8 bs),
       c_symbol_id = of_nat (le_value (field 32 4 bs)), c_trader_id = of_nat (le_value (field 40 8 bs)), c_type = ty,
       c_quantity = of_nat (le_value (field 52 4 bs)), c_display_quantity = of_nat (le_value (field 56 4 bs)),
       c_filled_quantity = of_nat (le_value (field 60 4 bs)), c_execution_type = ex, c_is_active = active\<rparr>
   }"

section \<open>Sending\<close>

text \<open>
  \<open>send_order\<close>: \<open>results\<close> are the return values of the calls to \<open>send\<close>; the result is what went out and whether all of it did. \<open>None\<close> when a
  call does not return.
\<close>

fun send_order :: "int list \<Rightarrow> u8 list \<Rightarrow> (u8 list \<times> bool) option" where
  "send_order results [] = Some ([], True)"
| "send_order [] (b # bs) = None"
| "send_order (n # results) (b # bs) = (if n \<le> 0 then Some ([], False)
     else case send_order results (drop (nat n) (b # bs)) of
            None \<Rightarrow> None
          | Some (out, ok) \<Rightarrow> Some (take (nat n) (b # bs) @ out, ok))"

section \<open>Receiving\<close>

text \<open>What the loop of \<open>readExact\<close> meets next: data, the end of the stream, an interrupted call, a failed call, or the shutdown flag.\<close>

datatype recv_event = Received "u8 list" | Closed | Interrupted | Failed | Shutdown

fun readExact :: "nat \<Rightarrow> recv_event list \<Rightarrow> u8 list \<Rightarrow> (recv_event list \<times> u8 list \<times> bool) option" where
  "readExact n evs buffer = (if length buffer < n then
     (case evs of
        [] \<Rightarrow> None
      | Received bs # evs1 \<Rightarrow> readExact n evs1 (buffer @ bs)
      | Closed # evs1 \<Rightarrow> Some (evs1, buffer, False)
      | Interrupted # evs1 \<Rightarrow> readExact n evs1 buffer
      | Failed # evs1 \<Rightarrow> Some (evs1, buffer, False)
      | Shutdown # evs1 \<Rightarrow> Some (evs1, buffer, False))
     else Some (evs, buffer, length buffer = n))"

declare readExact.simps [simp del]

text \<open>
  The inner loop of \<open>clientSession\<close>: the order is offered until the queue takes it or the server shuts down; \<open>env\<close> is what the other threads do
  meanwhile, with the shutdown flag as they leave it. The result says whether the order was taken.
\<close>

partial_function (option) enqueue_loop :: "(OrderManagementSystem \<Rightarrow> (OrderManagementSystem \<times> bool) option) \<Rightarrow> OrderManagementSystem \<Rightarrow>
    ClientOrder \<Rightarrow> (OrderManagementSystem \<times> bool) option" where
  "enqueue_loop env s order = do {
     (s1, enqueued) \<leftarrow> enqueueClientOrder s order;
     if enqueued then Some (s1, True)
     else do { (s2, shutdown) \<leftarrow> env s1; if shutdown then Some (s2, False) else enqueue_loop env s2 order }
   }"

text \<open>
  \<open>clientSession\<close> until the stream ends or the server shuts down. The result lists the orders enqueued; bytes that are no order are outside the model
  (\<open>None\<close>).
\<close>

partial_function (option) clientSession :: "(OrderManagementSystem \<Rightarrow> (OrderManagementSystem \<times> bool) option) \<Rightarrow> recv_event list \<Rightarrow>
    OrderManagementSystem \<Rightarrow> (OrderManagementSystem \<times> ClientOrder list) option" where
  "clientSession env evs s = do {
     (evs1, buffer, ok) \<leftarrow> readExact order_size evs [];
     if \<not> ok then Some (s, []) else do {
       order \<leftarrow> order_of_bytes buffer;
       (s1, enqueued) \<leftarrow> enqueue_loop env s order;
       if \<not> enqueued then Some (s1, []) else do {
         (s2, orders) \<leftarrow> clientSession env evs1 s1;
         Some (s2, order # orders)
       }
     }
   }"

definition removeClientFd :: "int list \<Rightarrow> int \<Rightarrow> int list" where
  "removeClientFd active_client_fds client_fd = remove1 client_fd active_client_fds"

section \<open>The image determines the order\<close>

lemma code_roundtrip [simp]:
  "type_of_code (le_value (le_bytes 4 (type_code t))) = Some t" "exec_of_code (le_value (le_bytes 4 (exec_code e))) = Some e"
  by (cases t; simp add: le_value_le_bytes type_code_def type_of_code_def)
    (cases e; simp add: le_value_le_bytes exec_code_def exec_of_code_def)

lemma order_bytes_length:
  "length (c_symbol c) = 8 \<Longrightarrow> length pad1 = 4 \<Longrightarrow> length pad2 = 3 \<Longrightarrow> length (order_bytes pad1 pad2 c) = order_size"
  by (simp add: order_bytes_def order_size_def)

lemma order_roundtrip:
  assumes "length (c_symbol c) = 8" "length pad1 = 4" "length pad2 = 3"
  shows "order_of_bytes (order_bytes pad1 pad2 c) = Some c"
  using assms symbol_roundtrip [of "c_symbol c"]
  by (cases c) (simp add: order_of_bytes_def order_bytes_def field_def Let_def del: map_map)

section \<open>Sending\<close>

text \<open>What \<open>send\<close> guarantees: it takes at most what it was given.\<close>

fun sends_ok :: "int list \<Rightarrow> nat \<Rightarrow> bool" where
  "sends_ok results 0 = True"
| "sends_ok [] (Suc k) = False"
| "sends_ok (n # results) (Suc k) = (0 < n \<and> nat n \<le> Suc k \<and> sends_ok results (Suc k - nat n))"

lemma send_order_ok: "sends_ok results (length bs) \<Longrightarrow> send_order results bs = Some (bs, True)"
proof (induction results bs rule: send_order.induct)
  case (3 n results b bs)
  then have "send_order results (drop (nat n) (b # bs)) = Some (drop (nat n) (b # bs), True)" by simp
  then show ?case using 3 by simp
qed simp_all

section \<open>Receiving\<close>

text \<open>
  What \<open>recv\<close> guarantees: it delivers at least one byte and at most the number asked for, so that no chunk crosses
  the end of a message. \<open>got\<close> is the number of bytes of the current message so far.
\<close>

fun chunks_ok :: "nat \<Rightarrow> nat \<Rightarrow> recv_event list \<Rightarrow> bool" where
  "chunks_ok n got [] = True"
| "chunks_ok n got (Received bs # evs) = (bs \<noteq> [] \<and> got + length bs \<le> n \<and> chunks_ok n ((got + length bs) mod n) evs)"
| "chunks_ok n got (Interrupted # evs) = chunks_ok n got evs"
| "chunks_ok n got (e # evs) = True"

fun stream_of :: "recv_event list \<Rightarrow> u8 list" where
  "stream_of [] = []"
| "stream_of (Received bs # evs) = bs @ stream_of evs"
| "stream_of (Interrupted # evs) = stream_of evs"
| "stream_of (e # evs) = []"

text \<open>The stream ends with \<open>Closed\<close>, after data and interruptions only.\<close>

fun closed_stream :: "recv_event list \<Rightarrow> bool" where
  "closed_stream [Closed] = True"
| "closed_stream (Received bs # evs) = closed_stream evs"
| "closed_stream (Interrupted # evs) = closed_stream evs"
| "closed_stream _ = False"

lemma readExact_message:
  assumes "length buffer < n" "chunks_ok n (length buffer) evs" "closed_stream evs" "n \<le> length buffer + length (stream_of evs)"
  shows "\<exists>evs'. readExact n evs buffer = Some (evs', buffer @ take (n - length buffer) (stream_of evs), True) \<and>
    stream_of evs' = drop (n - length buffer) (stream_of evs) \<and> chunks_ok n 0 evs' \<and> closed_stream evs' \<and> length evs' < length evs"
  using assms
proof (induction evs arbitrary: buffer rule: closed_stream.induct)
  case (2 bs evs)
  show ?case
  proof (cases "length buffer + length bs = n")
    case True
    then have t: "take (n - length buffer) (bs @ stream_of evs) = bs" "drop (n - length buffer) (bs @ stream_of evs) = stream_of evs"
      by simp_all
    have "readExact n evs (buffer @ bs) = Some (evs, buffer @ bs, True)" using True by (simp add: readExact.simps)
    then have "readExact n (Received bs # evs) buffer = Some (evs, buffer @ bs, True)"
      using 2(2) by (simp add: readExact.simps [of n "Received bs # evs"])
    then show ?thesis using 2 t True by simp
  next
    case False
    then have lt: "length (buffer @ bs) < n" using 2 by simp
    have "\<exists>evs'. readExact n evs (buffer @ bs) = Some (evs', (buffer @ bs) @ take (n - length (buffer @ bs)) (stream_of evs), True) \<and>
        stream_of evs' = drop (n - length (buffer @ bs)) (stream_of evs) \<and> chunks_ok n 0 evs' \<and> closed_stream evs' \<and>
        length evs' < length evs"
      by (rule 2(1) [OF lt]) (use 2 lt in simp_all)
    moreover have "readExact n (Received bs # evs) buffer = readExact n evs (buffer @ bs)"
      using 2(2) by (simp add: readExact.simps [of n "Received bs # evs"])
    ultimately show ?thesis using lt by (auto intro: less_SucI)
  qed
next
  case (3 evs)
  have "readExact n (Interrupted # evs) buffer = readExact n evs buffer"
    using 3(2) by (simp add: readExact.simps [of n "Interrupted # evs"])
  then show ?case using 3 by (auto intro: less_SucI)
qed auto

lemma readExact_end:
  assumes "0 < n" "closed_stream evs" "stream_of evs = []" "chunks_ok n 0 evs"
  shows "\<exists>evs'. readExact n evs [] = Some (evs', [], False)"
  using assms
proof (induction evs rule: closed_stream.induct)
  case 1
  then show ?case by (simp add: readExact.simps)
next
  case (3 evs)
  then show ?case by (simp add: readExact.simps [of n "Interrupted # evs"])
qed auto

section \<open>A session\<close>

text \<open>The other threads make room in the queue and do not shut the server down.\<close>

definition makes_room :: "(OrderManagementSystem \<Rightarrow> (OrderManagementSystem \<times> bool) option) \<Rightarrow> bool" where
  "makes_room env \<longleftrightarrow> (\<forall>s. rb_inv (incoming_orders s) \<longrightarrow> 0 < rb_room (incoming_orders s) \<longrightarrow>
     (\<exists>s'. env s = Some (s', False) \<and> rb_inv (incoming_orders s') \<and> rb_room (incoming_orders s') = rb_room (incoming_orders s) \<and>
       length (rb_contents (incoming_orders s')) < rb_room (incoming_orders s')))"

lemma enqueue_room:
  assumes "rb_inv (incoming_orders s)" "length (rb_contents (incoming_orders s)) < rb_room (incoming_orders s)"
  obtains s' where "enqueueClientOrder s c = Some (s', True)" "rb_inv (incoming_orders s')" "rb_room (incoming_orders s') = rb_room (incoming_orders s)"
    "rb_contents (incoming_orders s') = rb_contents (incoming_orders s) @ [c]"
  using rb.push_accept [OF assms, of c] that by (auto simp: enqueueClientOrder_def)

lemma enqueue_loop_ok:
  assumes "makes_room env" "rb_inv (incoming_orders s)" "0 < rb_room (incoming_orders s)"
  obtains s' where "enqueue_loop env s c = Some (s', True)" "rb_inv (incoming_orders s')" "rb_room (incoming_orders s') = rb_room (incoming_orders s)"
    "c \<in> set (rb_contents (incoming_orders s'))"
proof (cases "length (rb_contents (incoming_orders s)) < rb_room (incoming_orders s)")
  case True
  obtain s1 where s1: "enqueueClientOrder s c = Some (s1, True)" "rb_inv (incoming_orders s1)"
    "rb_room (incoming_orders s1) = rb_room (incoming_orders s)" "rb_contents (incoming_orders s1) = rb_contents (incoming_orders s) @ [c]"
    by (rule enqueue_room [OF assms(2) True])
  then show thesis using that [of s1] by (simp add: enqueue_loop.simps)
next
  case False
  then have "length (rb_contents (incoming_orders s)) = rb_room (incoming_orders s)" using rb.room_bound [OF assms(2)] by simp
  then have full: "enqueueClientOrder s c = Some (s, False)"
    using rb.push_reject [OF assms(2), of c] by (simp add: enqueueClientOrder_def)
  obtain s1 where s1: "env s = Some (s1, False)" "rb_inv (incoming_orders s1)" "rb_room (incoming_orders s1) = rb_room (incoming_orders s)"
    "length (rb_contents (incoming_orders s1)) < rb_room (incoming_orders s1)"
    using assms by (auto simp: makes_room_def)
  obtain s2 where s2: "enqueueClientOrder s1 c = Some (s2, True)" "rb_inv (incoming_orders s2)"
    "rb_room (incoming_orders s2) = rb_room (incoming_orders s1)" "rb_contents (incoming_orders s2) = rb_contents (incoming_orders s1) @ [c]"
    by (rule enqueue_room [OF s1(2,4)])
  have "enqueue_loop env s1 c = Some (s2, True)" using s2(1) by (simp add: enqueue_loop.simps)
  then have "enqueue_loop env s c = Some (s2, True)" using full s1(1) by (simp add: enqueue_loop.simps [of env s])
  then show thesis using that s2 s1 by simp
qed

definition image_of :: "ClientOrder \<Rightarrow> u8 list \<Rightarrow> bool" where
  "image_of c bs \<longleftrightarrow> (\<exists>pad1 pad2. length pad1 = 4 \<and> length pad2 = 3 \<and> length (c_symbol c) = 8 \<and> bs = order_bytes pad1 pad2 c)"

lemma image_of_length: "image_of c bs \<Longrightarrow> length bs = order_size"
  by (auto simp: image_of_def order_bytes_length)

lemma image_of_decode: "image_of c bs \<Longrightarrow> order_of_bytes bs = Some c"
  by (auto simp: image_of_def order_roundtrip)

lemma session_ok:
  assumes "list_all2 image_of orders images" "makes_room env" "rb_inv (incoming_orders s)" "0 < rb_room (incoming_orders s)"
    "stream_of evs = concat images" "closed_stream evs" "chunks_ok order_size 0 evs"
  shows "\<exists>s'. clientSession env evs s = Some (s', orders)"
  using assms
proof (induction orders arbitrary: images s evs)
  case Nil
  then obtain evs' where "readExact order_size evs [] = Some (evs', [], False)"
    using readExact_end [of order_size evs] by (auto simp: order_size_def)
  then show ?case by (simp add: clientSession.simps)
next
  case (Cons c orders)
  obtain bs images' where im: "images = bs # images'" "image_of c bs" "list_all2 image_of orders images'"
    using Cons.prems(1) by (auto simp: list_all2_Cons1)
  note len = image_of_length [OF im(2)]
  obtain evs' where evs': "readExact order_size evs [] = Some (evs', bs, True)" "stream_of evs' = concat images'"
    "chunks_ok order_size 0 evs'" "closed_stream evs'"
    using readExact_message [of "[]" order_size evs] Cons.prems(5-7) im(1) len by (auto simp: order_size_def)
  obtain s1 where s1: "enqueue_loop env s c = Some (s1, True)" "rb_inv (incoming_orders s1)"
    "rb_room (incoming_orders s1) = rb_room (incoming_orders s)" "c \<in> set (rb_contents (incoming_orders s1))"
    by (rule enqueue_loop_ok [OF Cons.prems(2-4)])
  obtain s' where "clientSession env evs' s1 = Some (s', orders)"
    using Cons.IH [OF im(3) Cons.prems(2) s1(2) _ evs'(2,4,3)] s1(3) Cons.prems(4) by auto
  then show ?case using evs'(1) s1(1) image_of_decode [OF im(2)] by (simp add: clientSession.simps [of env evs])
qed

section \<open>Properties of the client connection\<close>

text \<open>
  C23. Orders survive the wire, whatever TCP does: when \<open>send\<close> takes the images of the orders in any portions, and \<open>recv\<close> delivers the
  stream in any portions, with interruptions, the server's session ends after the stream and has enqueued exactly the orders
  sent, in order (the other threads making room in the queue).
\<close>

theorem wire_roundtrip:
  assumes "list_all2 image_of orders images" "\<forall>i < length images. sends_ok (results i) order_size"
    "stream_of evs = concat (map (\<lambda>i. fst (the (send_order (results i) (images ! i)))) [0..<length images])"
    "closed_stream evs" "chunks_ok order_size 0 evs"
    "makes_room env" "rb_inv (incoming_orders s)" "0 < rb_room (incoming_orders s)"
  shows "\<exists>s'. clientSession env evs s = Some (s', orders)"
proof -
  have "fst (the (send_order (results i) (images ! i))) = images ! i" if "i < length images" for i
    using send_order_ok [of "results i" "images ! i"] assms(1,2) that image_of_length
    by (auto simp: list_all2_conv_all_nth)
  then have "map (\<lambda>i. fst (the (send_order (results i) (images ! i)))) [0..<length images] = images"
    by (intro nth_equalityI) simp_all
  then have "stream_of evs = concat images" using assms(3) by simp
  then show ?thesis by (rule session_ok [OF assms(1,6-8) _ assms(4,5)])
qed

definition demo_env :: "OrderManagementSystem \<Rightarrow> (OrderManagementSystem \<times> bool) option" where
  "demo_env s = (case RingBuffer_pop (incoming_orders s) of None \<Rightarrow> None | Some (q, _) \<Rightarrow> Some (s\<lparr>incoming_orders := q\<rparr>, False))"

lemma demo_env_room: "makes_room demo_env"
  unfolding makes_room_def
proof (intro allI impI)
  fix s :: OrderManagementSystem assume s: "rb_inv (incoming_orders s)" "0 < rb_room (incoming_orders s)"
  obtain q v where q: "RingBuffer_pop (incoming_orders s) = Some (q, v)" "rb_inv q" "rb_room q = rb_room (incoming_orders s)"
    "rb_contents (incoming_orders s) = (case v of None \<Rightarrow> [] | Some y \<Rightarrow> [y]) @ rb_contents q" "v = None \<longleftrightarrow> rb_contents (incoming_orders s) = []"
    by (rule rb.pop_total [OF s(1)])
  have "length (rb_contents q) < rb_room q"
    using rb.room_bound [OF s(1)] q(3-5) s(2) by (cases v) auto
  then show "\<exists>s'. demo_env s = Some (s', False) \<and> rb_inv (incoming_orders s') \<and> rb_room (incoming_orders s') = rb_room (incoming_orders s) \<and>
      length (rb_contents (incoming_orders s')) < rb_room (incoming_orders s')"
    using q by (simp add: demo_env_def)
qed

theorem wire_roundtrip_witness:
  "\<exists>s'. clientSession demo_env
      [Received (take 10 (order_bytes [1, 2, 3, 4] [5, 6, 7] (demo_client C_LIMIT SELL 101 0 10 0))), Interrupted,
       Received (drop 10 (order_bytes [1, 2, 3, 4] [5, 6, 7] (demo_client C_LIMIT SELL 101 0 10 0))), Closed] demo_oms
    = Some (s', [demo_client C_LIMIT SELL 101 0 10 0])"
proof -
  let ?c = "demo_client C_LIMIT SELL 101 0 10 0"
  let ?b = "order_bytes [1, 2, 3, 4] [5, 6, 7] ?c"
  have len8: "length (c_symbol ?c) = 8" by (simp add: demo_client_def)
  then have l: "length ?b = order_size" by (intro order_bytes_length) simp_all
  have "image_of ?c ?b" unfolding image_of_def by (rule exI [of _ "[1, 2, 3, 4]"], rule exI [of _ "[5, 6, 7]"]) (simp add: len8)
  then have im: "list_all2 image_of [?c] [?b]" by simp
  have so: "sends_ok [72] order_size" by (simp add: order_size_def eval_nat_numeral)
  then have "send_order [72] ?b = Some (?b, True)" using send_order_ok l by simp
  moreover have "?b \<noteq> []" "rb_inv (incoming_orders demo_oms)" "0 < rb_room (incoming_orders demo_oms)"
    using l demo_room [of zero_client_order] by (auto simp: order_size_def demo_oms_def)
  ultimately show ?thesis
    using wire_roundtrip [OF im, of "\<lambda>_. [72]" "[Received (take 10 ?b), Interrupted, Received (drop 10 ?b), Closed]" demo_env demo_oms]
      so l demo_env_room
    by (simp add: order_size_def)
qed

end
