(* ===== verification/Bots.thy ===== *)
theory Bots
  imports Client_Wire
begin

text \<open>
  The trading bots of \<^verbatim>\<open>src/bots/run.cpp\<close> and \<^verbatim>\<open>src/bots/bots.h\<close>, which are the clients of the order management system. Their struct
  \<open>ClientOrderWire\<close> mirrors \<open>ClientOrder\<close>, so the model uses the same record. The random generator is a parameter: the values the program draws,
  in the order it draws them. Connecting, the worker threads and the command line are in \<open>Bot_Runner\<close>.
\<close>

section \<open>The symbol rules\<close>

text \<open>Unlike \<open>loadSymbolCSV\<close>, empty lines are skipped.\<close>

definition load_symbols_csv :: "string option \<Rightarrow> load_exn + SymbolInfo list" where
  "load_symbols_csv file = (case file of
     None \<Rightarrow> Inr []
   | Some text \<Rightarrow> parse_lines (filter (\<lambda>line. line \<noteq> []) (tl (file_lines text))))"

section \<open>Building an order\<close>

record draws =
  d_id :: u64
  d_quantity :: u64
  d_side :: u64
  d_price :: u64
  d_roll :: nat
  d_offset :: u64

text \<open>\<open>std::strncpy(ord.symbol, s.c_str(), 7)\<close> into the zeroed array of eight characters.\<close>

definition strncpy7 :: "string \<Rightarrow> char list" where
  "strncpy7 s = (let cs = take 7 (takeWhile (\<lambda>c. c \<noteq> CHR 0x00) s) in cs @ replicate (8 - length cs) (CHR 0x00))"

definition bot_order_id :: "u64 \<Rightarrow> draws \<Rightarrow> u64" where
  "bot_order_id trader_id d = push_bit 32 trader_id OR (d_id d AND 0xFFFFFFFF)"

definition build_random_order :: "SymbolInfo \<Rightarrow> u64 \<Rightarrow> draws \<Rightarrow> ClientOrder" where
  "build_random_order info trader_id d =
     (let quantity = (ucast (d_quantity d mod 200 + 1) :: u32);
          ord0 = zero_client_order\<lparr>c_symbol := strncpy7 (s_symbol info), c_symbol_id := s_symbol_id info, c_trader_id := trader_id,
            c_client_order_id := bot_order_id trader_id d, c_quantity := quantity, c_filled_quantity := 0, c_is_active := True,
            c_type := (if d_side d mod 2 = 0 then BUY else SELL)\<rparr>;
          px = d_price d
      in if d_roll d < 65 then ord0\<lparr>c_execution_type := C_LIMIT, c_price := px\<rparr>
         else if d_roll d < 80 then ord0\<lparr>c_execution_type := C_MARKET, c_price := 0\<rparr>
         else if d_roll d < 92 then ord0\<lparr>c_execution_type := C_STOP_LOSS, c_trigger_price := px, c_price := px\<rparr>
         else ord0\<lparr>c_execution_type := C_ICEBERG, c_price := px, c_display_quantity := max 1 (quantity div 4)\<rparr>)"

text \<open>\<open>DemoBot::generateSingleOrder\<close>: the order handed to \<open>send_fn_\<close>, for the symbol drawn; \<open>None\<close> without symbols.\<close>

definition generateSingleOrder :: "SymbolInfo list \<Rightarrow> u64 \<Rightarrow> nat \<Rightarrow> draws \<Rightarrow> ClientOrder option" where
  "generateSingleOrder symbols trader_id i d = (if i < length symbols then
     (let info = symbols ! i; quantity = (ucast (d_quantity d mod 50 + 1) :: u32);
          ord0 = zero_client_order\<lparr>c_client_order_id := bot_order_id trader_id d, c_symbol := strncpy7 (s_symbol info),
            c_trader_id := trader_id, c_symbol_id := s_symbol_id info, c_quantity := quantity, c_filled_quantity := 0,
            c_is_active := True, c_type := (if d_side d mod 2 = 0 then BUY else SELL)\<rparr>;
          rand_price = d_price d
      in Some (if d_roll d < 70 then ord0\<lparr>c_execution_type := C_LIMIT, c_price := rand_price\<rparr>
         else if d_roll d < 85 then ord0\<lparr>c_execution_type := C_STOP_LOSS, c_trigger_price := rand_price,
           c_price := (if d_offset d mod 2 = 0 then rand_price + 2 else rand_price - 2)\<rparr>
         else if d_roll d < 95 then ord0\<lparr>c_execution_type := C_ICEBERG, c_price := rand_price,
           c_display_quantity := max 1 (quantity div 5)\<rparr>
         else ord0\<lparr>c_execution_type := C_MARKET\<rparr>)) else None)"

section \<open>Validation and the negative tests\<close>

definition in_band :: "SymbolInfo \<Rightarrow> u64 \<Rightarrow> bool" where
  "in_band info px \<longleftrightarrow> px \<ge> s_lower_limit info \<and> px \<le> s_upper_limit info"

definition validate_order :: "ClientOrder \<Rightarrow> SymbolInfo \<Rightarrow> bool \<times> string" where
  "validate_order order info =
     (if c_quantity order = 0 then (False, ''quantity must be > 0'')
      else case c_execution_type order of
        C_MARKET \<Rightarrow> (True, ''valid market order'')
      | C_LIMIT \<Rightarrow> (if \<not> in_band info (c_price order) then (False, ''limit price outside symbol limits'')
          else (True, ''valid limit order''))
      | C_STOP_LOSS \<Rightarrow> (if \<not> in_band info (c_trigger_price order) then (False, ''trigger price outside symbol limits'')
          else if \<not> in_band info (c_price order) then (False, ''stop-loss limit price outside symbol limits'')
          else (True, ''valid stop-loss order''))
      | C_ICEBERG \<Rightarrow> (if \<not> in_band info (c_price order) then (False, ''iceberg price outside symbol limits'')
          else if c_display_quantity order = 0 \<or> c_display_quantity order > c_quantity order
          then (False, ''display quantity must be in [1, quantity]'')
          else (True, ''valid iceberg order'')))"

text \<open>\<open>roll\<close> and \<open>mode\<close> are the two further draws, \<open>rng() % 100\<close> and \<open>rng() % 4\<close>.\<close>

definition maybe_corrupt_order_for_negative_test :: "ClientOrder \<Rightarrow> SymbolInfo \<Rightarrow> int \<Rightarrow> int \<Rightarrow> int \<Rightarrow> ClientOrder" where
  "maybe_corrupt_order_for_negative_test src info invalid_percent roll mode =
     (if invalid_percent \<le> 0 then src
      else if roll \<ge> invalid_percent then src
      else if mode = 0 then src\<lparr>c_quantity := 0\<rparr>
      else if mode = 1 then src\<lparr>c_price := s_upper_limit info + 500\<rparr>
      else if mode = 2 then src\<lparr>c_execution_type := C_ICEBERG, c_price := s_lower_limit info, c_display_quantity := c_quantity src + 1\<rparr>
      else src\<lparr>c_execution_type := C_STOP_LOSS, c_trigger_price := s_lower_limit info - 1, c_price := s_lower_limit info\<rparr>)"

section \<open>One round of a bot\<close>

record bot_stats =
  valid_count :: u64
  invalid_count :: u64
  sent_count :: u64
  send_fail_count :: u64

text \<open>
  One pass of the loop of \<open>run_bot\<close>: the order is built, perhaps corrupted, validated, and sent if valid. The result has the
  statistics and what went out; \<open>results\<close> are the results of the calls to \<open>send\<close>.
\<close>

definition bot_pass :: "SymbolInfo \<Rightarrow> u64 \<Rightarrow> draws \<Rightarrow> int \<Rightarrow> int \<Rightarrow> int \<Rightarrow> u8 list \<Rightarrow> u8 list \<Rightarrow> int list \<Rightarrow> bot_stats \<Rightarrow>
    (bot_stats \<times> u8 list) option" where
  "bot_pass info trader_id d invalid_percent roll mode pad1 pad2 results st =
     (let base = build_random_order info trader_id d;
          order = maybe_corrupt_order_for_negative_test base info invalid_percent roll mode in
      if \<not> fst (validate_order order info) then Some (st\<lparr>invalid_count := invalid_count st + 1\<rparr>, [])
      else (let st1 = st\<lparr>valid_count := valid_count st + 1\<rparr> in
        case send_order results (order_bytes pad1 pad2 order) of
          None \<Rightarrow> None
        | Some (out, True) \<Rightarrow> Some (st1\<lparr>sent_count := sent_count st1 + 1\<rparr>, out)
        | Some (out, False) \<Rightarrow> Some (st1\<lparr>send_fail_count := send_fail_count st1 + 1\<rparr>, out)))"

section \<open>What the bots send\<close>

lemma strncpy7_length [simp]: "length (strncpy7 s) = 8"
  by (simp add: strncpy7_def Let_def)

lemma strncpy7_str:
  assumes "length s \<le> 7" "CHR 0x00 \<notin> set s" shows "c_str (strncpy7 s) = Some s"
proof -
  have tw: "takeWhile (\<lambda>c. c \<noteq> CHR 0x00) s = s" using assms(2) by (auto simp: takeWhile_eq_all_conv)
  have "strncpy7 s = s @ replicate (8 - length s) (CHR 0x00)" using assms(1) by (simp add: strncpy7_def tw Let_def)
  moreover have "8 - length s = Suc (7 - length s)" using assms(1) by simp
  moreover have "takeWhile (\<lambda>c. c \<noteq> CHR 0x00) (s @ CHR 0x00 # ys) = s" for ys
    using assms(2) by (subst takeWhile_append2) auto
  ultimately show ?thesis by (simp add: c_str_def)
qed

lemma quantity_bound:
  assumes "q = (ucast (x mod m + 1 :: u64) :: u32)" "0 < m" "m \<le> 200"
  shows "unat q = unat x mod unat m + 1"
proof -
  have "unat (x mod m) < unat m" using assms(2) by (simp add: unat_mod word_less_nat_alt)
  moreover have "unat m \<le> 200" using assms(3) by (simp add: word_le_nat_alt)
  ultimately have "unat (x mod m) < 200" by simp
  then have "unat (x mod m + 1) = unat (x mod m) + 1" "unat (x mod m + 1) \<le> 200" by (simp_all add: unat_Suc_word)
  then show ?thesis using assms(1) by (simp add: unat_mod unsigned_ucast_eq take_bit_nat_eq_self)
qed

lemma validate_valid_client:
  assumes "fst (validate_order order info)" shows "valid_client order"
  using assms
  by (auto simp: validate_order_def valid_client_def word_neq_0_conv split: if_splits ClientOrderType.splits)

lemma build_fields:
  "c_symbol (build_random_order info t d) = strncpy7 (s_symbol info)" "c_is_active (build_random_order info t d)"
  "c_filled_quantity (build_random_order info t d) = 0"
  "unat (c_quantity (build_random_order info t d)) = unat (d_quantity d) mod 200 + 1"
  using quantity_bound [OF refl, of 200 "d_quantity d"] by (simp_all add: build_random_order_def Let_def)

lemma build_valid:
  assumes "in_band info (d_price d)" shows "fst (validate_order (build_random_order info t d) info)"
proof -
  let ?q = "ucast (d_quantity d mod 200 + 1) :: u32"
  have q: "0 < unat ?q" using quantity_bound [OF refl, of 200 "d_quantity d"] by simp
  then have q0: "?q \<noteq> 0" by auto
  have m0: "max 1 (?q div 4) \<noteq> 0" by (auto simp: max_def word_le_nat_alt)
  have "max 1 (?q div 4) \<le> ?q" using q by (auto simp: max_def word_le_nat_alt unat_div)
  then have mq: "\<not> ?q < max 1 (?q div 4)" by (simp only: not_less)
  show ?thesis
    using assms q0 by (simp add: build_random_order_def validate_order_def Let_def zero_client_order_def m0 mq)
qed

lemma corrupt_fields:
  "c_symbol (maybe_corrupt_order_for_negative_test c info p r m) = c_symbol c"
  "c_is_active (maybe_corrupt_order_for_negative_test c info p r m) = c_is_active c"
  "c_filled_quantity (maybe_corrupt_order_for_negative_test c info p r m) = c_filled_quantity c"
  by (simp_all add: maybe_corrupt_order_for_negative_test_def)

lemma send_order_success: "send_order results bs = Some (out, True) \<Longrightarrow> out = bs"
proof (induction results bs arbitrary: out rule: send_order.induct)
  case (3 n results b bs)
  then show ?case by (auto split: if_splits option.splits)
qed simp_all

lemma bot_pass_sent:
  assumes "bot_pass info t d ip r m pad1 pad2 results st = Some (st', out)" "sent_count st' \<noteq> sent_count st"
    "order = maybe_corrupt_order_for_negative_test (build_random_order info t d) info ip r m"
  shows "fst (validate_order order info)" "out = order_bytes pad1 pad2 order"
  using assms by (auto simp: bot_pass_def Let_def split: if_splits option.splits bool.splits dest: send_order_success)

section \<open>Properties of the bots\<close>

text \<open>
  What a bot sends the order management system can work with: the bytes that go out are the image of one order that names
  the drawn symbol, has a positive quantity (and display quantity, if it is an iceberg), is active and unfilled, and, unless it is a market
  order, has a price that a book with the symbol's limits accepts.
\<close>

theorem bot_sends_valid_orders:
  assumes "bot_pass info t d ip r m pad1 pad2 results st = Some (st', out)" "sent_count st' \<noteq> sent_count st"
    "length pad1 = 4" "length pad2 = 3" "length (s_symbol info) \<le> 7" "CHR 0x00 \<notin> set (s_symbol info)"
    "b_lower_limit book = s_lower_limit info" "b_upper_limit book = s_upper_limit info"
  shows "\<exists>order. image_of order out \<and> valid_client order \<and> c_str (c_symbol order) = Some (s_symbol info) \<and> c_is_active order \<and>
    c_filled_quantity order = 0 \<and> (c_execution_type order \<noteq> C_MARKET \<longrightarrow> isPriceValid book (c_price order))"
proof -
  define order where "order = maybe_corrupt_order_for_negative_test (build_random_order info t d) info ip r m"
  have v: "fst (validate_order order info)" and out: "out = order_bytes pad1 pad2 order"
    using bot_pass_sent [OF assms(1,2) order_def] by simp_all
  have f: "c_symbol order = strncpy7 (s_symbol info)" "c_is_active order" "c_filled_quantity order = 0"
    by (simp_all add: order_def corrupt_fields build_fields)
  have "image_of order out"
    unfolding image_of_def by (rule exI [of _ pad1], rule exI [of _ pad2]) (simp add: assms(3,4) f(1) out)
  moreover have "c_execution_type order \<noteq> C_MARKET \<longrightarrow> isPriceValid book (c_price order)"
    using v assms(7,8) by (auto simp: validate_order_def isPriceValid_def in_band_def split: if_splits ClientOrderType.splits)
  ultimately show ?thesis using validate_valid_client [OF v] f strncpy7_str [OF assms(5,6)] by (intro exI [of _ order]) simp
qed

definition demo_info :: SymbolInfo where
  "demo_info = \<lparr>s_symbol = ''AAPL'', s_symbol_id = 5, s_ltp = 100, s_lower_limit = 90, s_upper_limit = 110\<rparr>"

definition demo_draws :: draws where
  "demo_draws = \<lparr>d_id = 9, d_quantity = 399, d_side = 1, d_price = 95, d_roll = 95, d_offset = 0\<rparr>"

theorem bot_sends_valid_orders_witness:
  "\<exists>out order. bot_pass demo_info 50000 demo_draws 0 0 0 [0, 0, 0, 0] [0, 0, 0] [72]
      \<lparr>valid_count = 0, invalid_count = 0, sent_count = 0, send_fail_count = 0\<rparr> =
      Some (\<lparr>valid_count = 1, invalid_count = 0, sent_count = 1, send_fail_count = 0\<rparr>, out) \<and>
    image_of order out \<and> valid_client order"
proof -
  let ?st = "\<lparr>valid_count = 0, invalid_count = 0, sent_count = 0, send_fail_count = 0\<rparr>"
  let ?st1 = "\<lparr>valid_count = 1, invalid_count = 0, sent_count = 1, send_fail_count = 0\<rparr>"
  let ?c = "build_random_order demo_info 50000 demo_draws"
  let ?b = "order_bytes [0, 0, 0, 0] [0, 0, 0] ?c"
  have v: "fst (validate_order ?c demo_info)" by (rule build_valid) (simp add: in_band_def demo_info_def demo_draws_def)
  have "length ?b = order_size" by (rule order_bytes_length) (simp_all add: build_fields)
  moreover have "sends_ok [72] order_size" by (simp add: order_size_def eval_nat_numeral)
  ultimately have "send_order [72] ?b = Some (?b, True)" using send_order_ok by simp
  then have run: "bot_pass demo_info 50000 demo_draws 0 0 0 [0, 0, 0, 0] [0, 0, 0] [72] ?st = Some (?st1, ?b)"
    using v by (simp add: bot_pass_def maybe_corrupt_order_for_negative_test_def Let_def)
  obtain order where "image_of order ?b" "valid_client order"
    using bot_sends_valid_orders [OF run, of "demo_book\<lparr>b_lower_limit := 90, b_upper_limit := 110\<rparr>"]
    by (auto simp: demo_info_def)
  then show ?thesis using run by blast
qed

text \<open>
  The negative test works: an order corrupted on purpose is caught by the validation, with one exception, a market order whose price was changed
  (mode 1), which has no price to be wrong. The limits must leave room for the faulty prices.
\<close>

theorem corrupted_orders_caught:
  assumes "0 \<le> roll" "roll < invalid_percent" "0 \<le> mode" "mode < 4" "0 < s_lower_limit info" "s_upper_limit info \<le> - 501" "in_band info (d_price d)"
  shows "fst (validate_order (maybe_corrupt_order_for_negative_test (build_random_order info t d) info invalid_percent roll mode) info) \<longleftrightarrow>
    mode = 1 \<and> c_execution_type (build_random_order info t d) = C_MARKET"
proof -
  let ?c = "build_random_order info t d"
  have q: "unat (c_quantity ?c) \<le> 200" "c_quantity ?c \<noteq> 0" using build_fields(4) [of info t d] by auto
  then have "unat (c_quantity ?c + 1) = unat (c_quantity ?c) + 1" by (simp add: unat_Suc_word)
  then have q1: "c_quantity ?c < c_quantity ?c + 1" by (simp add: word_less_nat_alt)
  have u: "unat (s_upper_limit info) \<le> 2 ^ 64 - 501" using assms(6) by (simp add: word_le_nat_alt)
  then have "unat (s_upper_limit info + 500) = unat (s_upper_limit info) + 500" by (simp add: unat_word_ariths)
  then have hi: "\<not> in_band info (s_upper_limit info + 500)" by (simp add: in_band_def word_le_nat_alt)
  have "unat (s_lower_limit info - 1) = unat (s_lower_limit info) - 1"
    using assms(5) by (simp add: unat_sub word_le_nat_alt word_less_nat_alt)
  then have lo: "\<not> in_band info (s_lower_limit info - 1)" using assms(5) by (simp add: in_band_def word_le_nat_alt word_less_nat_alt)
  consider "mode = 0" | "mode = 1" | "mode = 2" | "mode = 3" using assms(3,4) by linarith
  then show ?thesis
  proof cases
    case 2
    then show ?thesis using assms(1,2) q(2) hi
      by (simp add: maybe_corrupt_order_for_negative_test_def validate_order_def split: ClientOrderType.split)
  qed (use assms(1,2) q q1 lo in \<open>simp_all add: maybe_corrupt_order_for_negative_test_def validate_order_def\<close>)
qed

theorem corrupted_orders_caught_witness:
  "\<not> fst (validate_order (maybe_corrupt_order_for_negative_test (build_random_order demo_info 50000 demo_draws) demo_info 5 3 2) demo_info)"
  using corrupted_orders_caught [of 3 5 2 demo_info demo_draws 50000] by (simp add: in_band_def demo_info_def demo_draws_def)

end
