(* ===== verification/Endpoints.thy ===== *)
theory Endpoints
  imports Prelude
begin

text \<open>
  How the programs set up their sockets: the constructors of the feed (\<^verbatim>\<open>src/src/MarketFeedReader.cpp\<close>), the listener (\<^verbatim>\<open>src/src/listener.cpp\<close>) and the retransmitter
  (\<^verbatim>\<open>src/src/retransmitter.cpp\<close>), the first half of the order server's \<open>acceptLoop\<close>, and the bots' \<open>connect_with_retry\<close>. The kernel is a parameter: the result of
  a system call, given the calls made before with their results. A program either goes on with a value or exits with a status.
\<close>

section \<open>System calls\<close>

datatype sock_kind = SOCK_DGRAM | SOCK_STREAM

text \<open>An address is its dotted notation; \<open>INADDR_ANY\<close> is \<open>0.0.0.0\<close>.\<close>

type_synonym inaddr = string

definition INADDR_ANY :: inaddr where "INADDR_ANY = ''0.0.0.0''"
definition INADDR_LOOPBACK :: inaddr where "INADDR_LOOPBACK = ''127.0.0.1''"

datatype sockopt = MulticastIf inaddr | MulticastLoop nat | SndBuf nat | ReuseAddr | AddMembership inaddr inaddr

datatype syscall = Socket sock_kind | Pton inaddr | Setsockopt int sockopt | Bind int inaddr nat | Listen int nat | Connect int inaddr nat
  | Accept int | Nonblock int | ShutdownFd int | Close int

type_synonym calls = "(syscall \<times> int) list"
type_synonym kernel = "calls \<Rightarrow> syscall \<Rightarrow> int"
type_synonym 'a program = "calls \<Rightarrow> (int + 'a) \<times> calls"

definition sys :: "kernel \<Rightarrow> syscall \<Rightarrow> (int \<Rightarrow> 'a program) \<Rightarrow> 'a program" where
  "sys k c rest h = (let r = k h c in rest r (h @ [(c, r)]))"

definition exit_with :: "int \<Rightarrow> 'a program" where
  "exit_with status h = (Inl status, h)"

definition ret :: "'a \<Rightarrow> 'a program" where
  "ret x h = (Inr x, h)"

definition EXIT_FAILURE :: int where "EXIT_FAILURE = 1"
definition SOMAXCONN :: nat where "SOMAXCONN = 4096"

section \<open>The market feed\<close>

record feed_sockets =
  fs_sockfd :: int
  fs_addr :: inaddr
  fs_port :: nat
  fs_sockfd_tcp :: int

definition MarketFeedReader_setup :: "kernel \<Rightarrow> feed_sockets program" where
  "MarketFeedReader_setup k =
     sys k (Socket SOCK_DGRAM) (\<lambda>sockfd.
     sys k (Pton ''127.0.0.1'') (\<lambda>local_ip.
     if local_ip \<noteq> 1 then exit_with EXIT_FAILURE else
     sys k (Setsockopt sockfd (MulticastIf ''127.0.0.1'')) (\<lambda>_.
     sys k (Setsockopt sockfd (MulticastLoop 1)) (\<lambda>_.
     sys k (Setsockopt sockfd (SndBuf (2 ^ 20))) (\<lambda>_.
     sys k (Pton ''239.1.1.1'') (\<lambda>group.
     if group \<noteq> 1 then exit_with EXIT_FAILURE else
     sys k (Socket SOCK_STREAM) (\<lambda>sockfd_tcp.
     if sockfd_tcp = - 1 then exit_with EXIT_FAILURE else
     sys k (Setsockopt sockfd_tcp ReuseAddr) (\<lambda>_.
     sys k (Bind sockfd_tcp ''127.0.0.1'' 8000) (\<lambda>bound.
     if bound \<noteq> 0 then exit_with 0 else
     sys k (Listen sockfd_tcp SOMAXCONN) (\<lambda>listening.
     if listening \<noteq> 0 then exit_with 0 else
     ret \<lparr>fs_sockfd = sockfd, fs_addr = ''239.1.1.1'', fs_port = 5000, fs_sockfd_tcp = sockfd_tcp\<rparr>))))))))))"

text \<open>The start of \<open>sendThread\<close>: the retransmitter connects; the descriptor is checked last.\<close>

definition accept_retransmitter :: "kernel \<Rightarrow> feed_sockets \<Rightarrow> int program" where
  "accept_retransmitter k f =
     sys k (Accept (fs_sockfd_tcp f)) (\<lambda>connect.
     sys k (Nonblock connect) (\<lambda>_.
     if connect < 0 then exit_with EXIT_FAILURE else ret connect))"

section \<open>The listener\<close>

record listener_sockets =
  ls_sockfd_udp :: int
  ls_sockfd_tcp :: int

definition Listener_setup :: "kernel \<Rightarrow> listener_sockets program" where
  "Listener_setup k =
     sys k (Socket SOCK_DGRAM) (\<lambda>sockfd_udp.
     if sockfd_udp < 0 then exit_with EXIT_FAILURE else
     sys k (Bind sockfd_udp INADDR_ANY 5000) (\<lambda>bound.
     if bound \<noteq> 0 then exit_with EXIT_FAILURE else
     sys k (Pton ''239.1.1.1'') (\<lambda>group.
     if group \<noteq> 1 then exit_with EXIT_FAILURE else
     sys k (Pton ''127.0.0.1'') (\<lambda>interface.
     if interface \<noteq> 1 then exit_with EXIT_FAILURE else
     sys k (Setsockopt sockfd_udp (AddMembership ''239.1.1.1'' ''127.0.0.1'')) (\<lambda>joined.
     if joined < 0 then exit_with EXIT_FAILURE else
     sys k (Setsockopt sockfd_udp (MulticastLoop 1)) (\<lambda>_.
     sys k (Socket SOCK_STREAM) (\<lambda>sockfd_tcp.
     if sockfd_tcp < 0 then exit_with EXIT_FAILURE else
     sys k (Pton ''127.0.0.1'') (\<lambda>_.
     sys k (Connect sockfd_tcp ''127.0.0.1'' 8080) (\<lambda>connected.
     if connected < 0 then exit_with EXIT_FAILURE else
     ret \<lparr>ls_sockfd_udp = sockfd_udp, ls_sockfd_tcp = sockfd_tcp\<rparr>)))))))))"

section \<open>The retransmitter\<close>

record retransmitter_sockets =
  rs_sockfd_tcp_recv :: int
  rs_sockfd_tcp_send :: int

text \<open>The connection to the feed, then the socket for the listeners.\<close>

definition retransmitter_connect :: "kernel \<Rightarrow> int \<Rightarrow> int \<Rightarrow> retransmitter_sockets program" where
  "retransmitter_connect k recv_fd send_fd =
     sys k (Connect recv_fd ''127.0.0.1'' 8000) (\<lambda>status.
     if status < 0 then exit_with EXIT_FAILURE else
     sys k (Setsockopt send_fd ReuseAddr) (\<lambda>_.
     sys k (Bind send_fd INADDR_ANY 8080) (\<lambda>bound.
     if bound \<noteq> 0 then exit_with 0 else
     sys k (Listen send_fd 1) (\<lambda>listening.
     if listening \<noteq> 0 then exit_with 0 else
     ret \<lparr>rs_sockfd_tcp_recv = recv_fd, rs_sockfd_tcp_send = send_fd\<rparr>))))"

definition Retransmitter_setup :: "kernel \<Rightarrow> retransmitter_sockets program" where
  "Retransmitter_setup k =
     sys k (Socket SOCK_STREAM) (\<lambda>recv_fd.
     if recv_fd < 0 then exit_with EXIT_FAILURE else
     sys k (Socket SOCK_STREAM) (\<lambda>send_fd.
     if send_fd < 0 then exit_with EXIT_FAILURE else
     retransmitter_connect k recv_fd send_fd))"

section \<open>The order server and its clients\<close>

text \<open>The set-up in \<open>acceptLoop\<close>; without a listening socket the thread returns.\<close>

definition accept_setup :: "kernel \<Rightarrow> nat \<Rightarrow> int option program" where
  "accept_setup k port =
     sys k (Socket SOCK_STREAM) (\<lambda>server_fd.
     if server_fd < 0 then ret None else
     sys k (Setsockopt server_fd ReuseAddr) (\<lambda>_.
     sys k (Bind server_fd INADDR_LOOPBACK port) (\<lambda>bound.
     if bound < 0 then sys k (Close server_fd) (\<lambda>_. ret None) else
     sys k (Listen server_fd 64) (\<lambda>listening.
     if listening < 0 then sys k (Close server_fd) (\<lambda>_. ret None) else
     ret (Some server_fd)))))"

text \<open>\<open>connect_with_retry\<close> of the bots, with their member \<open>sockfd_\<close>, which is \<open>-1\<close> when there is no socket.\<close>

definition close_socket :: "kernel \<Rightarrow> int \<Rightarrow> (int \<Rightarrow> 'a program) \<Rightarrow> 'a program" where
  "close_socket k sockfd rest = (if sockfd \<noteq> - 1
     then sys k (ShutdownFd sockfd) (\<lambda>_. sys k (Close sockfd) (\<lambda>_. rest (- 1))) else rest sockfd)"

fun connect_loop :: "kernel \<Rightarrow> inaddr \<Rightarrow> nat \<Rightarrow> nat \<Rightarrow> int \<Rightarrow> (bool \<times> int) program" where
  "connect_loop k host port 0 sockfd = ret (False, sockfd)"
| "connect_loop k host port (Suc n) _ =
     sys k (Socket SOCK_STREAM) (\<lambda>sockfd.
     if sockfd < 0 then connect_loop k host port n sockfd else
     sys k (Pton host) (\<lambda>r.
     if r \<noteq> 1 then close_socket k sockfd (\<lambda>sockfd. ret (False, sockfd)) else
     sys k (Connect sockfd host port) (\<lambda>connected.
     if connected = 0 then ret (True, sockfd) else
     close_socket k sockfd (connect_loop k host port n))))"

definition connect_with_retry :: "kernel \<Rightarrow> inaddr \<Rightarrow> nat \<Rightarrow> nat \<Rightarrow> int \<Rightarrow> (bool \<times> int) program" where
  "connect_with_retry k host port retries sockfd = close_socket k sockfd (connect_loop k host port retries)"

lemma connect_loop_step:
  "0 < n \<Longrightarrow> connect_loop k host port n s =
     sys k (Socket SOCK_STREAM) (\<lambda>sockfd.
     if sockfd < 0 then connect_loop k host port (n - 1) sockfd else
     sys k (Pton host) (\<lambda>r.
     if r \<noteq> 1 then close_socket k sockfd (\<lambda>sockfd. ret (False, sockfd)) else
     sys k (Connect sockfd host port) (\<lambda>connected.
     if connected = 0 then ret (True, sockfd) else
     close_socket k sockfd (connect_loop k host port (n - 1)))))"
  by (cases n) (simp, simp only: connect_loop.simps diff_Suc_1)

section \<open>Descriptors\<close>

text \<open>What is open after a sequence of calls, and what a kernel guarantees: a socket call fails with \<open>-1\<close> or returns a descriptor that is not open.\<close>

definition open_after :: "int set \<Rightarrow> syscall \<times> int \<Rightarrow> int set" where
  "open_after A c = (case fst c of
     Socket _ \<Rightarrow> if 0 \<le> snd c then insert (snd c) A else A
   | Accept _ \<Rightarrow> if 0 \<le> snd c then insert (snd c) A else A
   | Close fd \<Rightarrow> A - {fd}
   | _ \<Rightarrow> A)"

definition open_fds :: "calls \<Rightarrow> int set" where
  "open_fds h = foldl open_after {} h"

definition kernel_ok :: "kernel \<Rightarrow> bool" where
  "kernel_ok k \<longleftrightarrow> (\<forall>h kind. k h (Socket kind) = - 1 \<or> 0 \<le> k h (Socket kind) \<and> k h (Socket kind) \<notin> open_fds h)"

lemma open_fds_snoc [simp]:
  "open_fds (h @ [(Socket kind, r)]) = (if 0 \<le> r then insert r (open_fds h) else open_fds h)"
  "open_fds (h @ [(Pton a, r)]) = open_fds h" "open_fds (h @ [(Connect fd a p, r)]) = open_fds h"
  "open_fds (h @ [(ShutdownFd fd, r)]) = open_fds h" "open_fds (h @ [(Close fd, r)]) = open_fds h - {fd}"
  by (simp_all add: open_fds_def open_after_def)

lemma socket_result:
  assumes "kernel_ok k"
  obtains "k h (Socket kind) = - 1" | "0 \<le> k h (Socket kind)" "k h (Socket kind) \<notin> open_fds h"
  using assms by (auto simp: kernel_ok_def)

definition attempts :: "calls \<Rightarrow> nat" where
  "attempts h = length (filter (\<lambda>c. case fst c of Connect _ _ _ \<Rightarrow> True | _ \<Rightarrow> False) h)"

lemma attempts_append [simp]: "attempts (h @ h') = attempts h + attempts h'"
  by (simp add: attempts_def)

lemma attempts_single [simp]:
  "attempts [(Socket kind, r)] = 0" "attempts [(Pton a, r)] = 0" "attempts [(Connect fd a p, r)] = 1"
  "attempts [(ShutdownFd fd, r)] = 0" "attempts [(Close fd, r)] = 0"
  by (simp_all add: attempts_def)

text \<open>How a series of attempts ends.\<close>

definition connect_end :: "inaddr \<Rightarrow> nat \<Rightarrow> int set \<Rightarrow> nat \<Rightarrow> (int + bool \<times> int) \<times> calls \<Rightarrow> bool" where
  "connect_end host port A n res \<longleftrightarrow> (\<exists>ok fd h'. res = (Inr (ok, fd), h') \<and> attempts h' \<le> n \<and>
     (if ok then 0 \<le> fd \<and> fd \<notin> A \<and> open_fds h' = insert fd A \<and> (\<exists>g. h' = g @ [(Connect fd host port, 0)])
      else fd = - 1 \<and> open_fds h' = A))"

lemma connect_endI:
  "attempts h' \<le> n \<Longrightarrow> open_fds h' = A \<Longrightarrow> connect_end host port A n (Inr (False, - 1), h')"
  "0 \<le> fd \<Longrightarrow> fd \<notin> open_fds g \<Longrightarrow> attempts g < n \<Longrightarrow> open_fds h = insert fd (open_fds g) \<Longrightarrow> attempts h = attempts g \<Longrightarrow>
    connect_end host port (open_fds g) n (Inr (True, fd), h @ [(Connect fd host port, 0)])"
  by (auto simp: connect_end_def)

lemma connect_endD:
  assumes "connect_end host port A n res"
  shows "\<exists>ok fd h'. res = (Inr (ok, fd), h') \<and> attempts h' \<le> n \<and>
    (if ok then 0 \<le> fd \<and> open_fds h' = insert fd A \<and> last h' = (Connect fd host port, 0) else fd = - 1 \<and> open_fds h' = A)"
proof -
  obtain ok fd h' where e: "res = (Inr (ok, fd), h')" "attempts h' \<le> n" "if ok then 0 \<le> fd \<and> fd \<notin> A \<and> open_fds h' = insert fd A \<and>
      (\<exists>g. h' = g @ [(Connect fd host port, 0)]) else fd = - 1 \<and> open_fds h' = A" using assms unfolding connect_end_def by blast
  show ?thesis by (rule exI [of _ ok], rule exI [of _ fd], rule exI [of _ h']) (use e in \<open>auto split: if_splits\<close>)
qed

lemma connect_end_mono: "connect_end host port A m res \<Longrightarrow> m \<le> n \<Longrightarrow> connect_end host port A n res"
  by (fastforce simp: connect_end_def)

lemma close_calls:
  assumes "0 \<le> fd"
  shows "close_socket k fd rest g = rest (- 1) ((g @ [(ShutdownFd fd, k g (ShutdownFd fd))]) @
    [(Close fd, k (g @ [(ShutdownFd fd, k g (ShutdownFd fd))]) (Close fd))])"
  using assms by (simp add: close_socket_def sys_def Let_def)

lemma connect_loop_end:
  assumes "kernel_ok k"
  shows "sockfd = - 1 \<Longrightarrow> connect_end host port (open_fds h) (attempts h + n) (connect_loop k host port n sockfd h)"
proof (induction n arbitrary: h sockfd)
  case 0
  then show ?case by (auto simp: connect_end_def ret_def intro: exI [of _ False])
next
  case (Suc n)
  show ?case
  proof (rule socket_result [OF assms, of h SOCK_STREAM])
    assume s: "k h (Socket SOCK_STREAM) = - 1"
    then have "connect_loop k host port (Suc n) sockfd h = connect_loop k host port n (- 1) (h @ [(Socket SOCK_STREAM, - 1)])"
      by (simp add: sys_def Let_def)
    then show ?thesis using Suc.IH [of "- 1" "h @ [(Socket SOCK_STREAM, - 1)]"] by (auto elim: connect_end_mono)
  next
    let ?s = "k h (Socket SOCK_STREAM)"
    assume s: "0 \<le> ?s" "?s \<notin> open_fds h"
    let ?h1 = "h @ [(Socket SOCK_STREAM, ?s)]"
    let ?h2 = "?h1 @ [(Pton host, k ?h1 (Pton host))]"
    let ?h3 = "?h2 @ [(Connect ?s host port, k ?h2 (Connect ?s host port))]"
    note close = close_calls [OF s(1), of k]
    have step: "connect_loop k host port (Suc n) sockfd h =
        (if k ?h1 (Pton host) \<noteq> 1 then close_socket k ?s (\<lambda>sockfd. ret (False, sockfd)) ?h2
         else if k ?h2 (Connect ?s host port) = 0 then ret (True, ?s) ?h3
         else close_socket k ?s (connect_loop k host port n) ?h3)"
      using s(1) by (simp add: sys_def Let_def)
    consider (name) "k ?h1 (Pton host) \<noteq> 1" | (ok) "k ?h1 (Pton host) = 1" "k ?h2 (Connect ?s host port) = 0"
      | (retry) "k ?h1 (Pton host) = 1" "k ?h2 (Connect ?s host port) \<noteq> 0" by blast
    then show ?thesis
    proof cases
      case name
      then show ?thesis unfolding step using s by (simp add: close ret_def connect_endI(1) del: append_assoc)
    next
      case ok
      then show ?thesis unfolding step using s by (simp add: ret_def connect_endI(2) del: append_assoc)
    next
      case retry
      let ?h5 = "(?h3 @ [(ShutdownFd ?s, k ?h3 (ShutdownFd ?s))]) @ [(Close ?s, k (?h3 @ [(ShutdownFd ?s, k ?h3 (ShutdownFd ?s))]) (Close ?s))]"
      have "open_fds ?h5 = open_fds h" "attempts ?h5 = attempts h + 1" using s by (simp_all del: append_assoc)
      then show ?thesis unfolding step using retry Suc.IH [of "- 1" ?h5] by (simp add: close del: append_assoc)
    qed
  qed
qed

section \<open>What a successful set-up has done\<close>

lemma sysE: "sys k c rest h = (res, h') \<Longrightarrow> (\<And>r. rest r (h @ [(c, r)]) = (res, h') \<Longrightarrow> P) \<Longrightarrow> P"
  by (auto simp: sys_def Let_def)

lemmas program_ends = exit_with_def ret_def

definition succeeded :: "syscall \<Rightarrow> calls \<Rightarrow> bool" where
  "succeeded c h \<longleftrightarrow> (\<exists>r. 0 \<le> r \<and> (c, r) \<in> set h)"

lemma succeeded_simps [simp]:
  "succeeded c (h @ g) \<longleftrightarrow> succeeded c h \<or> succeeded c g" "\<not> succeeded c []"
  "succeeded c ((d, r) # g) \<longleftrightarrow> c = d \<and> 0 \<le> r \<or> succeeded c g"
  by (auto simp: succeeded_def)

lemma feed_ready:
  assumes "MarketFeedReader_setup k h = (Inr f, h')"
  shows "fs_addr f = ''239.1.1.1''" "fs_port f = 5000" "succeeded (Bind (fs_sockfd_tcp f) ''127.0.0.1'' 8000) h'"
    "succeeded (Listen (fs_sockfd_tcp f) SOMAXCONN) h'"
  using assms unfolding MarketFeedReader_setup_def by (auto elim!: sysE simp: program_ends split: if_splits)

lemma listener_ready:
  assumes "Listener_setup k h = (Inr l, h')"
  shows "succeeded (Bind (ls_sockfd_udp l) INADDR_ANY 5000) h'" "succeeded (Connect (ls_sockfd_tcp l) ''127.0.0.1'' 8080) h'"
    "succeeded (Setsockopt (ls_sockfd_udp l) (AddMembership ''239.1.1.1'' ''127.0.0.1'')) h'"
  using assms unfolding Listener_setup_def by (auto elim!: sysE simp: program_ends split: if_splits)

lemma retransmitter_ready:
  assumes "Retransmitter_setup k h = (Inr r, h')"
  shows "succeeded (Connect (rs_sockfd_tcp_recv r) ''127.0.0.1'' 8000) h'" "succeeded (Bind (rs_sockfd_tcp_send r) INADDR_ANY 8080) h'"
    "succeeded (Listen (rs_sockfd_tcp_send r) 1) h'"
  using assms unfolding Retransmitter_setup_def retransmitter_connect_def by (auto elim!: sysE simp: program_ends split: if_splits)

section \<open>A kernel for the witnesses\<close>

text \<open>Every call succeeds, except that \<open>refuse\<close> lists calls that fail; a socket gets a number above all results so far.\<close>

definition demo_kernel :: "syscall list \<Rightarrow> kernel" where
  "demo_kernel refuse h c = (if c \<in> set refuse then - 1 else case c of
     Socket _ \<Rightarrow> foldr (max \<circ> snd) h 2 + 1
   | Accept _ \<Rightarrow> foldr (max \<circ> snd) h 2 + 1
   | Pton _ \<Rightarrow> 1
   | _ \<Rightarrow> 0)"

lemma open_fds_results: "fd \<in> open_fds h \<Longrightarrow> fd \<in> snd ` set h"
  by (induction h rule: rev_induct) (auto simp: open_fds_def open_after_def split: syscall.splits if_splits)

lemma max_results: "(2 :: int) \<le> foldr (max \<circ> snd) h 2" "r \<in> snd ` set h \<Longrightarrow> r \<le> foldr (max \<circ> snd) h (2 :: int)"
  by (induction h) (auto simp: le_max_iff_disj)

lemma demo_kernel_ok: "kernel_ok (demo_kernel refuse)"
  unfolding kernel_ok_def
proof (intro allI)
  fix h kind
  have "foldr (max \<circ> snd) h 2 + 1 \<notin> open_fds h" using open_fds_results max_results(2) by fastforce
  then show "demo_kernel refuse h (Socket kind) = - 1 \<or> 0 \<le> demo_kernel refuse h (Socket kind) \<and> demo_kernel refuse h (Socket kind) \<notin> open_fds h"
    using max_results(1) [of h] by (auto simp: demo_kernel_def)
qed

section \<open>Properties of the set-up\<close>

text \<open>
  The three programs of the market data path find each other: when their constructors succeed, the listener has bound the port and joined the group the feed sends
  to, the retransmitter has connected to the address where the feed listens, and the listener to the port where the retransmitter does.
\<close>

theorem feed_endpoints_agree:
  assumes "MarketFeedReader_setup k1 h1 = (Inr f, c1)" "Retransmitter_setup k2 h2 = (Inr r, c2)" "Listener_setup k3 h3 = (Inr l, c3)"
  shows "succeeded (Bind (ls_sockfd_udp l) INADDR_ANY (fs_port f)) c3 \<and>
    succeeded (Setsockopt (ls_sockfd_udp l) (AddMembership (fs_addr f) ''127.0.0.1'')) c3 \<and>
    (\<exists>addr port n. succeeded (Bind (fs_sockfd_tcp f) addr port) c1 \<and> succeeded (Listen (fs_sockfd_tcp f) n) c1 \<and>
      succeeded (Connect (rs_sockfd_tcp_recv r) addr port) c2) \<and>
    (\<exists>addr port n. succeeded (Bind (rs_sockfd_tcp_send r) INADDR_ANY port) c2 \<and> succeeded (Listen (rs_sockfd_tcp_send r) n) c2 \<and>
      succeeded (Connect (ls_sockfd_tcp l) addr port) c3)"
  using feed_ready [OF assms(1)] retransmitter_ready [OF assms(2)] listener_ready [OF assms(3)] by metis

theorem feed_endpoints_agree_witness:
  "\<exists>f c1 l c3. MarketFeedReader_setup (demo_kernel []) [] = (Inr f, c1) \<and> Listener_setup (demo_kernel []) [] = (Inr l, c3) \<and>
    succeeded (Setsockopt (ls_sockfd_udp l) (AddMembership (fs_addr f) ''127.0.0.1'')) c3"
proof -
  note eval = MarketFeedReader_setup_def Retransmitter_setup_def retransmitter_connect_def Listener_setup_def demo_kernel_def program_ends sys_def Let_def max_def
  obtain f c1 where f: "MarketFeedReader_setup (demo_kernel []) [] = (Inr f, c1)" by (simp add: eval)
  obtain r c2 where r: "Retransmitter_setup (demo_kernel []) [] = (Inr r, c2)" by (simp add: eval)
  obtain l c3 where l: "Listener_setup (demo_kernel []) [] = (Inr l, c3)" by (simp add: eval)
  show ?thesis using feed_endpoints_agree [OF f r l] f l by blast
qed

text \<open>
  A set-up that fails exits, but not always with a failure: the feed and the retransmitter exit with status 0 when their address cannot be bound or listened on,
  and with status 1 otherwise.
\<close>

theorem setup_exit_status:
  assumes "MarketFeedReader_setup k h = (Inl n, c) \<or> Retransmitter_setup k h = (Inl n, c)"
  shows "n = (case fst (last c) of Bind _ _ _ \<Rightarrow> 0 | Listen _ _ \<Rightarrow> 0 | _ \<Rightarrow> 1)"
  using assms unfolding MarketFeedReader_setup_def Retransmitter_setup_def retransmitter_connect_def EXIT_FAILURE_def
  by (auto elim!: sysE simp: program_ends split: if_splits)

theorem setup_exit_status_witness:
  "\<exists>c. MarketFeedReader_setup (demo_kernel [Bind 4 ''127.0.0.1'' 8000]) [] = (Inl 0, c) \<and> fst (last c) = Bind 4 ''127.0.0.1'' 8000"
proof -
  obtain n c where c: "MarketFeedReader_setup (demo_kernel [Bind 4 ''127.0.0.1'' 8000]) [] = (Inl n, c)" "fst (last c) = Bind 4 ''127.0.0.1'' 8000"
    by (simp add: MarketFeedReader_setup_def demo_kernel_def program_ends sys_def Let_def max_def)
  then show ?thesis using setup_exit_status [OF disjI1 [OF c(1)]] by simp
qed

lemma connect_leaks:
  assumes "kernel_ok k" "sockfd = - 1 \<or> 0 \<le> sockfd \<and> sockfd \<in> open_fds h"
  shows "\<exists>ok fd h'. connect_with_retry k host port retries sockfd h = (Inr (ok, fd), h') \<and> attempts h' \<le> attempts h + retries \<and>
    (if ok then 0 \<le> fd \<and> open_fds h' = insert fd (open_fds h - {sockfd}) \<and> last h' = (Connect fd host port, 0)
     else fd = - 1 \<and> open_fds h' = open_fds h - {sockfd})"
proof (cases "sockfd = - 1")
  case True
  have "- 1 \<notin> open_fds h" by (induction h rule: rev_induct) (auto simp: open_fds_def open_after_def split: syscall.split)
  then have e: "open_fds h - {sockfd} = open_fds h" using True by simp
  have "connect_with_retry k host port retries sockfd h = connect_loop k host port retries sockfd h"
    using True by (simp add: connect_with_retry_def close_socket_def)
  then show ?thesis unfolding e by (simp only: connect_endD [OF connect_loop_end [OF assms(1) True]])
next
  case False
  then have pos: "0 \<le> sockfd" using assms(2) by simp
  let ?h1 = "h @ [(ShutdownFd sockfd, k h (ShutdownFd sockfd))]"
  let ?h2 = "?h1 @ [(Close sockfd, k ?h1 (Close sockfd))]"
  have o: "open_fds ?h2 = open_fds h - {sockfd}" "attempts ?h2 = attempts h" by (simp_all del: append_assoc)
  have "connect_with_retry k host port retries sockfd h = connect_loop k host port retries (- 1) ?h2"
    by (simp add: connect_with_retry_def close_calls [OF pos])
  then show ?thesis using connect_endD [OF connect_loop_end [OF assms(1) refl, of host port ?h2 retries]] by (simp only: o)
qed

text \<open>
  C26. \<open>connect_with_retry\<close> leaks no descriptor and gives up after its attempts: it ends either with one new open socket, connected by its last call, or with
  none; the socket held before is closed, and every socket of a failed attempt too.
\<close>

theorem connect_leaks_nothing:
  assumes "kernel_ok k" "sockfd = - 1 \<or> 0 \<le> sockfd \<and> sockfd \<in> open_fds h"
  shows "\<exists>ok fd h'. connect_with_retry k host port retries sockfd h = (Inr (ok, fd), h') \<and> attempts h' \<le> attempts h + retries \<and>
    (if ok then 0 \<le> fd \<and> open_fds h' = insert fd (open_fds h - {sockfd}) \<and> last h' = (Connect fd host port, 0)
     else fd = - 1 \<and> open_fds h' = open_fds h - {sockfd})"
  by (rule connect_leaks [OF assms])

theorem connect_leaks_nothing_witness:
  "\<exists>h'. connect_with_retry (demo_kernel [Connect 3 ''127.0.0.1'' 9000]) ''127.0.0.1'' 9000 50 (- 1) [] = (Inr (True, 4), h') \<and> open_fds h' = {4}"
proof -
  obtain h' where h': "connect_with_retry (demo_kernel [Connect 3 ''127.0.0.1'' 9000]) ''127.0.0.1'' 9000 50 (- 1) [] = (Inr (True, 4), h')"
    by (simp add: connect_with_retry_def close_socket_def connect_loop_step demo_kernel_def ret_def sys_def Let_def max_def)
  have "open_fds [] = {}" by (simp add: open_fds_def)
  then show ?thesis using connect_leaks_nothing [OF demo_kernel_ok, of "- 1" "[]" "[Connect 3 ''127.0.0.1'' 9000]" "''127.0.0.1''" 9000 50] h' by auto
qed

end
