(* ===== verification/Bot_Runner.thy ===== *)
theory Bot_Runner
  imports Bots Endpoints State_Machine
begin

text \<open>
  The bot program of \<^verbatim>\<open>src/bots/run.cpp\<close> as a whole: the command line, the worker threads with their connections, and the loop that watches them.
  Sleeping and the printed statistics are not modelled.
\<close>

section \<open>The command line\<close>

text \<open>\<open>std::stoi\<close>: as \<open>std::stoull\<close>, for 32-bit signed numbers.\<close>

definition stoi :: "string \<Rightarrow> load_exn + int" where
  "stoi s =
     (let t = dropWhile is_space s;
          neg = (t \<noteq> [] \<and> hd t = CHR ''-'');
          u = (if t \<noteq> [] \<and> (hd t = CHR ''-'' \<or> hd t = CHR ''+'') then tl t else t);
          ds = takeWhile is_digit u;
          v = (if neg then - int (dec_value ds) else int (dec_value ds))
      in if ds = [] then Inl invalid_argument
         else if v < - (2 ^ 31) \<or> v \<ge> 2 ^ 31 then Inl number_out_of_range
         else Inr v)"

definition int_arg :: "string list \<Rightarrow> nat \<Rightarrow> int \<Rightarrow> load_exn + int" where
  "int_arg argv i dflt = (if length argv > i then stoi (argv ! i) else Inr dflt)"

definition string_arg :: "string list \<Rightarrow> nat \<Rightarrow> string \<Rightarrow> string" where
  "string_arg argv i dflt = (if length argv > i then argv ! i else dflt)"

record bot_config =
  bc_server_ip :: string
  bc_server_port :: nat
  bc_symbols :: "SymbolInfo list"
  bc_traders :: "u64 list"
  bc_orders_per_sec :: int
  bc_invalid_percent :: int

text \<open>How \<open>main\<close> begins: it throws, returns a status, or starts the workers. \<open>files\<close> is the file system.\<close>

datatype main_start = Throws load_exn | Returns int | Starts bot_config

definition bots_main :: "(string \<Rightarrow> string option) \<Rightarrow> string list \<Rightarrow> main_start" where
  "bots_main files argv =
     (case int_arg argv 2 9000 of Inl e \<Rightarrow> Throws e | Inr port \<Rightarrow>
      case int_arg argv 4 3 of Inl e \<Rightarrow> Throws e | Inr bot_count \<Rightarrow>
      case int_arg argv 5 200 of Inl e \<Rightarrow> Throws e | Inr rate \<Rightarrow>
      case int_arg argv 6 5 of Inl e \<Rightarrow> Throws e | Inr invalid_percent \<Rightarrow>
        if bot_count \<le> 0 \<or> rate \<le> 0 \<or> invalid_percent < 0 \<or> invalid_percent > 100 then Returns 1
        else case load_symbols_csv (files (string_arg argv 3 ''data/symbols.csv'')) of
            Inl e \<Rightarrow> Throws e
          | Inr symbols \<Rightarrow> if symbols = [] then Returns 1
              else Starts \<lparr>bc_server_ip = string_arg argv 1 ''127.0.0.1'', bc_server_port = nat (port mod 2 ^ 16), bc_symbols = symbols,
                bc_traders = map (\<lambda>i. 50000 + of_nat i) [0..<nat bot_count], bc_orders_per_sec = rate, bc_invalid_percent = invalid_percent\<rparr>)"

section \<open>A worker\<close>

text \<open>What the environment gives one round of the loop in \<open>run_bot\<close>: the random draws, the padding bytes of the struct, the results of \<open>send\<close>.\<close>

record bot_round =
  br_symbol :: nat
  br_draws :: draws
  br_roll :: int
  br_mode :: int
  br_pad1 :: "u8 list"
  br_pad2 :: "u8 list"
  br_results :: "int list"

record bot_state =
  bt_sockfd :: int
  bt_stats :: bot_stats
  bt_out :: "(int \<times> u8 list) list"
  bt_calls :: calls

text \<open>Reconnecting after a failed \<open>send\<close>, whether it succeeds or not.\<close>

definition bot_reconnect :: "kernel \<Rightarrow> bot_config \<Rightarrow> bot_state \<Rightarrow> bot_state" where
  "bot_reconnect k cfg b = (case connect_with_retry k (bc_server_ip cfg) (bc_server_port cfg) 50 (bt_sockfd b) (bt_calls b) of
     (Inl _, h) \<Rightarrow> b\<lparr>bt_calls := h\<rparr>
   | (Inr (_, fd), h) \<Rightarrow> b\<lparr>bt_sockfd := fd, bt_calls := h\<rparr>)"

definition bot_round_step :: "kernel \<Rightarrow> bot_config \<Rightarrow> u64 \<Rightarrow> bot_round \<Rightarrow> bot_state \<Rightarrow> bot_state option" where
  "bot_round_step k cfg trader_id br b = (if br_symbol br < length (bc_symbols cfg) then
     (case bot_pass (bc_symbols cfg ! br_symbol br) trader_id (br_draws br) (bc_invalid_percent cfg) (br_roll br) (br_mode br)
         (br_pad1 br) (br_pad2 br) (br_results br) (bt_stats b) of
        None \<Rightarrow> None
      | Some (st, out) \<Rightarrow>
          (let b1 = b\<lparr>bt_stats := st, bt_out := bt_out b @ (if out = [] then [] else [(bt_sockfd b, out)])\<rparr> in
           Some (if send_fail_count st \<noteq> send_fail_count (bt_stats b) then bot_reconnect k cfg b1 else b1)))
     else None)"

definition bot_rounds :: "kernel \<Rightarrow> bot_config \<Rightarrow> u64 \<Rightarrow> bot_round list \<Rightarrow> bot_state \<Rightarrow> bot_state option" where
  "bot_rounds k cfg trader_id = run_steps (\<lambda>_ _. True) (bot_round_step k cfg trader_id)"

definition zero_stats :: bot_stats where
  "zero_stats = \<lparr>valid_count = 0, invalid_count = 0, sent_count = 0, send_fail_count = 0\<rparr>"

text \<open>The destructor of the client, which runs when \<open>run_bot\<close> returns.\<close>

definition destroy_client :: "kernel \<Rightarrow> bot_state \<Rightarrow> bot_state" where
  "destroy_client k b = (case close_socket k (bt_sockfd b) ret (bt_calls b) of
     (Inl _, h) \<Rightarrow> b\<lparr>bt_calls := h\<rparr>
   | (Inr fd, h) \<Rightarrow> b\<lparr>bt_sockfd := fd, bt_calls := h\<rparr>)"

text \<open>\<open>run_bot\<close> until \<open>keep_running\<close> is cleared, after the rounds \<open>brs\<close>; a bot that cannot connect does nothing.\<close>

definition run_bot :: "kernel \<Rightarrow> bot_config \<Rightarrow> u64 \<Rightarrow> bot_round list \<Rightarrow> bot_state option" where
  "run_bot k cfg trader_id brs = (case connect_with_retry k (bc_server_ip cfg) (bc_server_port cfg) 50 (- 1) [] of
     (Inl _, h) \<Rightarrow> None
   | (Inr (connected, fd), h) \<Rightarrow>
       (let b = \<lparr>bt_sockfd = fd, bt_stats = zero_stats, bt_out = [], bt_calls = h\<rparr> in
        if connected then map_option (destroy_client k) (bot_rounds k cfg trader_id brs b)
        else Some (destroy_client k b)))"

text \<open>
  The watching loop of \<open>main\<close>, with the number of active workers at each look and whether a signal has come: it ends with the signal or when no worker is left, and clears the flag.
\<close>

fun watch_workers :: "(int \<times> bool) list \<Rightarrow> bool \<Rightarrow> bool option" where
  "watch_workers looks False = Some False"
| "watch_workers [] True = None"
| "watch_workers ((active, signal) # looks) True = watch_workers looks (\<not> signal \<and> active \<noteq> 0)"

section \<open>Identifiers\<close>

lemma bot_order_id_trader:
  assumes "unat t < 2 ^ 32" shows "drop_bit 32 (bot_order_id t d) = t"
proof -
  have low: "drop_bit 32 (x AND 0xFFFFFFFF) = 0" for x :: u64
    by (rule bit_word_eqI) (auto simp: bit_simps)
  have "unat (push_bit 32 t) = unat t * 2 ^ 32"
    using assms by (simp add: push_bit_eq_mult unat_word_ariths)
  then have "unat (drop_bit 32 (push_bit 32 t)) = unat t" by (simp add: drop_bit_eq_div unat_div del: push_bit_eq_mult)
  then have "drop_bit 32 (push_bit 32 t) = t" by simp
  then show ?thesis by (simp add: bot_order_id_def drop_bit_or low)
qed

section \<open>Counting\<close>

lemma bot_pass_counts:
  assumes "bot_pass info t d ip r m pad1 pad2 results st = Some (st', out)"
  shows "valid_count st' + invalid_count st' = valid_count st + invalid_count st + 1 \<and>
    valid_count st' - (sent_count st' + send_fail_count st') = valid_count st - (sent_count st + send_fail_count st)"
  using assms by (auto simp: bot_pass_def Let_def split: if_splits option.splits bool.splits)

lemma reconnect_keeps: "bt_stats (bot_reconnect k cfg b) = bt_stats b" "bt_out (bot_reconnect k cfg b) = bt_out b"
  by (auto simp: bot_reconnect_def split: prod.splits sum.splits)

lemma send_order_prefix: "send_order results bs = Some (out, ok) \<Longrightarrow> \<exists>rest. bs = out @ rest"
proof (induction results bs arbitrary: out rule: send_order.induct)
  case (3 n results b bs)
  show ?case
  proof (cases "n \<le> 0")
    case False
    obtain out1 where o: "send_order results (drop (nat n) (b # bs)) = Some (out1, ok)" "out = take (nat n) (b # bs) @ out1"
      using 3(2) False by (auto split: option.splits)
    obtain rest where "drop (nat n) (b # bs) = out1 @ rest" using 3(1) [OF False o(1)] by blast
    then have "b # bs = out @ rest" using o(2) by (metis append_assoc append_take_drop_id)
    then show ?thesis by blast
  qed (use 3(2) in simp)
qed simp_all

lemma bot_pass_prefix:
  assumes "bot_pass info t d ip r m pad1 pad2 results st = Some (st', out)" "out \<noteq> []"
  shows "\<exists>order rest. valid_client order \<and> order_bytes pad1 pad2 order = out @ rest"
proof -
  let ?o = "maybe_corrupt_order_for_negative_test (build_random_order info t d) info ip r m"
  have v: "fst (validate_order ?o info)" and "\<exists>ok. send_order results (order_bytes pad1 pad2 ?o) = Some (out, ok)"
    using assms by (auto simp: bot_pass_def Let_def split: if_splits option.splits bool.splits)
  then show ?thesis using send_order_prefix validate_valid_client [OF v] by blast
qed

section \<open>The invariant of a worker\<close>

definition holds_one :: "int \<Rightarrow> calls \<Rightarrow> bool" where
  "holds_one fd h \<longleftrightarrow> (if fd = - 1 then open_fds h = {} else 0 \<le> fd \<and> open_fds h = {fd})"

text \<open>A possibly empty beginning of the image of a valid order.\<close>

definition order_prefix :: "u8 list \<Rightarrow> bool" where
  "order_prefix out \<longleftrightarrow> (\<exists>order pad1 pad2 rest. valid_client order \<and> order_bytes pad1 pad2 order = out @ rest)"

definition bot_inv :: "bot_state \<Rightarrow> bool" where
  "bot_inv b \<longleftrightarrow> holds_one (bt_sockfd b) (bt_calls b) \<and>
     valid_count (bt_stats b) = sent_count (bt_stats b) + send_fail_count (bt_stats b) \<and>
     (\<forall>x \<in> set (bt_out b). order_prefix (snd x))"

lemma none_held: "holds_one (- 1) []"
  by (simp add: holds_one_def open_fds_def)

lemma connect_holds_one:
  assumes "kernel_ok k" "holds_one fd h" "connect_with_retry k host port n fd h = (res, h')"
  shows "\<exists>ok fd'. res = Inr (ok, fd') \<and> holds_one fd' h' \<and> (ok \<longleftrightarrow> fd' \<noteq> - 1)"
proof -
  have "fd = - 1 \<or> 0 \<le> fd \<and> fd \<in> open_fds h" "open_fds h - {fd} = {}" using assms(2) by (auto simp: holds_one_def split: if_splits)
  from connect_leaks [OF assms(1) this(1), of host port n] obtain ok fd' where
    "res = Inr (ok, fd')" "if ok then 0 \<le> fd' \<and> open_fds h' = insert fd' (open_fds h - {fd}) else fd' = - 1 \<and> open_fds h' = open_fds h - {fd}"
    using assms(3) by (auto split: if_splits)
  then show ?thesis using \<open>open_fds h - {fd} = {}\<close> by (intro exI [of _ ok] exI [of _ fd']) (auto simp: holds_one_def split: if_splits)
qed

lemma reconnect_holds_one:
  assumes "kernel_ok k" "holds_one (bt_sockfd b) (bt_calls b)"
  shows "holds_one (bt_sockfd (bot_reconnect k cfg b)) (bt_calls (bot_reconnect k cfg b))"
proof -
  obtain res h where r: "connect_with_retry k (bc_server_ip cfg) (bc_server_port cfg) 50 (bt_sockfd b) (bt_calls b) = (res, h)" by fastforce
  from connect_holds_one [OF assms this] show ?thesis by (auto simp: bot_reconnect_def r)
qed

lemma round_step_inv:
  assumes "kernel_ok k" "bot_inv b" "bot_round_step k cfg t br b = Some b'"
  shows "bot_inv b'"
proof -
  obtain st out where p: "bot_pass (bc_symbols cfg ! br_symbol br) t (br_draws br) (bc_invalid_percent cfg) (br_roll br) (br_mode br)
      (br_pad1 br) (br_pad2 br) (br_results br) (bt_stats b) = Some (st, out)"
    using assms(3) by (auto simp: bot_round_step_def split: if_splits option.splits)
  let ?b1 = "b\<lparr>bt_stats := st, bt_out := bt_out b @ (if out = [] then [] else [(bt_sockfd b, out)])\<rparr>"
  have b': "b' = ?b1 \<or> b' = bot_reconnect k cfg ?b1"
    using assms(3) p by (auto simp: bot_round_step_def Let_def split: if_splits)
  have "valid_count st = sent_count st + send_fail_count st"
    using bot_pass_counts [OF p] assms(2) by (simp add: bot_inv_def)
  moreover have "out \<noteq> [] \<Longrightarrow> order_prefix out" using bot_pass_prefix [OF p] by (auto simp: order_prefix_def)
  ultimately have "bot_inv ?b1" using assms(2) by (auto simp: bot_inv_def)
  then show ?thesis using b' reconnect_holds_one [OF assms(1), of ?b1 cfg] by (auto simp: bot_inv_def reconnect_keeps)
qed

interpretation worker: step_invariant "\<lambda>_ _. True" "bot_round_step k cfg t" "\<lambda>b. kernel_ok k \<and> bot_inv b" for k cfg t
  by unfold_locales (auto intro: round_step_inv)

lemma round_step_counts:
  assumes "bot_round_step k cfg t br b = Some b'"
  shows "valid_count (bt_stats b') + invalid_count (bt_stats b') = valid_count (bt_stats b) + invalid_count (bt_stats b) + 1"
  using assms by (auto simp: bot_round_step_def Let_def reconnect_keeps bot_pass_counts split: if_splits option.splits)

lemma rounds_counts:
  "bot_rounds k cfg t brs b = Some b' \<Longrightarrow>
    valid_count (bt_stats b') + invalid_count (bt_stats b') = valid_count (bt_stats b) + invalid_count (bt_stats b) + of_nat (length brs)"
proof (induction brs arbitrary: b)
  case (Cons br brs)
  obtain b1 where b1: "bot_round_step k cfg t br b = Some b1" "bot_rounds k cfg t brs b1 = Some b'"
    using Cons.prems by (auto simp: bot_rounds_def bind_eq_Some_conv)
  show ?case using Cons.IH [OF b1(2)] round_step_counts [OF b1(1)] by simp
qed (simp add: bot_rounds_def)

lemma destroy_keeps: "bt_stats (destroy_client k b) = bt_stats b" "bt_out (destroy_client k b) = bt_out b"
  by (auto simp: destroy_client_def split: prod.splits sum.splits)

lemma destroy_closes:
  assumes "holds_one (bt_sockfd b) (bt_calls b)"
  shows "open_fds (bt_calls (destroy_client k b)) = {}"
proof (cases "bt_sockfd b = - 1")
  case True
  then show ?thesis using assms by (simp add: destroy_client_def close_socket_def ret_def holds_one_def)
next
  case False
  then have "0 \<le> bt_sockfd b" "open_fds (bt_calls b) = {bt_sockfd b}" using assms by (auto simp: holds_one_def)
  then show ?thesis by (simp add: destroy_client_def close_calls ret_def del: append_assoc)
qed

text \<open>Whether the bot reaches the server at all.\<close>

definition connected :: "kernel \<Rightarrow> bot_config \<Rightarrow> bool" where
  "connected k cfg \<longleftrightarrow> fst (connect_with_retry k (bc_server_ip cfg) (bc_server_port cfg) 50 (- 1) []) \<in> {Inr (True, fd) |fd. True}"

section \<open>Properties of the bot program\<close>


definition demo_config :: bot_config where
  "demo_config = \<lparr>bc_server_ip = ''127.0.0.1'', bc_server_port = 9000, bc_symbols = [demo_info], bc_traders = [50000], bc_orders_per_sec = 200,
     bc_invalid_percent = 0\<rparr>"

definition demo_round :: bot_round where
  "demo_round = \<lparr>br_symbol = 0, br_draws = demo_draws, br_roll = 0, br_mode = 0, br_pad1 = [0, 0, 0, 0], br_pad2 = [0, 0, 0], br_results = [- 1]\<rparr>"

lemma demo_pass:
  "bot_pass demo_info 50000 demo_draws 0 0 0 [0, 0, 0, 0] [0, 0, 0] [- 1] zero_stats =
    Some (zero_stats\<lparr>valid_count := 1, send_fail_count := 1\<rparr>, [])"
proof -
  let ?c = "build_random_order demo_info 50000 demo_draws"
  have v: "fst (validate_order ?c demo_info)" by (rule build_valid) (simp add: in_band_def demo_info_def demo_draws_def)
  have "length (order_bytes [0, 0, 0, 0] [0, 0, 0] ?c) = order_size" by (rule order_bytes_length) (simp_all add: build_fields)
  then obtain c cs where "order_bytes [0, 0, 0, 0] [0, 0, 0] ?c = c # cs" by (cases "order_bytes [0, 0, 0, 0] [0, 0, 0] ?c") (simp_all add: order_size_def)
  then show ?thesis using v by (simp add: bot_pass_def maybe_corrupt_order_for_negative_test_def zero_stats_def Let_def)
qed

lemma demo_connect:
  "\<exists>fd h. connect_with_retry (demo_kernel []) ''127.0.0.1'' 9000 50 (- 1) [] = (Inr (True, fd), h)"
  by (simp add: connect_with_retry_def close_socket_def connect_loop_step demo_kernel_def ret_def sys_def Let_def max_def)


section \<open>The command line\<close>

text \<open>What \<open>main\<close> has checked when the workers start.\<close>

lemma int_arg_bound: "int_arg argv i dflt = Inr v \<Longrightarrow> v = dflt \<or> v < 2 ^ 31"
  by (auto simp: int_arg_def stoi_def Let_def split: if_splits)

lemma bots_main_starts:
  assumes "bots_main files argv = Starts cfg"
  shows "bc_symbols cfg \<noteq> []" "bc_server_port cfg < 2 ^ 16" "0 < bc_orders_per_sec cfg" "bc_invalid_percent cfg \<in> {0..100}"
    "\<exists>n. 0 < n \<and> n < 2 ^ 31 \<and> bc_traders cfg = map (\<lambda>i. 50000 + of_nat i) [0..<n]"
proof -
  obtain port n rate pc symbols where r: "int_arg argv 4 3 = Inr n" "\<not> (n \<le> 0 \<or> rate \<le> 0 \<or> pc < 0 \<or> pc > 100)" "symbols \<noteq> []"
      "cfg = \<lparr>bc_server_ip = string_arg argv 1 ''127.0.0.1'', bc_server_port = nat (port mod 2 ^ 16), bc_symbols = symbols,
        bc_traders = map (\<lambda>i. 50000 + of_nat i) [0..<nat n], bc_orders_per_sec = rate, bc_invalid_percent = pc\<rparr>"
    using assms unfolding bots_main_def by (auto split: sum.splits if_splits)
  have "n < 2 ^ 31" using int_arg_bound [OF r(1)] by auto
  then show "\<exists>n. 0 < n \<and> n < 2 ^ 31 \<and> bc_traders cfg = map (\<lambda>i. 50000 + of_nat i) [0..<n]"
    using r(2,4) by (intro exI [of _ "nat n"]) auto
  have "port mod 2 ^ 16 < 2 ^ 16" "0 \<le> port mod 2 ^ 16" by (simp_all only: pos_mod_bound pos_mod_sign zero_less_power zero_less_numeral)
  then show "bc_server_port cfg < 2 ^ 16" using r(4) by (simp add: nat_less_iff)
  show "bc_symbols cfg \<noteq> []" "0 < bc_orders_per_sec cfg" "bc_invalid_percent cfg \<in> {0..100}" using r(2-4) by simp_all
qed

lemma trader_id_value: "i < 2 ^ 31 \<Longrightarrow> unat (50000 + of_nat i :: u64) = 50000 + i"
  by (simp add: unat_word_ariths unat_of_nat)

lemma build_order_id: "c_client_order_id (build_random_order info t d) = bot_order_id t d"
  by (simp add: build_random_order_def Let_def)

text \<open>
  The bots a command line starts are told apart by their order identifiers: two of them have different trader identifiers, and no order of the one, built from any draws for any
  symbol, has the \<open>client_order_id\<close> of an order of the other. There is at least one bot.
\<close>

theorem bot_ids_disjoint:
  assumes "bots_main files argv = Starts cfg"
  shows "bc_traders cfg \<noteq> [] \<and> distinct (bc_traders cfg) \<and>
    (\<forall>t1 \<in> set (bc_traders cfg). \<forall>t2 \<in> set (bc_traders cfg). \<forall>info1 info2 d1 d2. t1 \<noteq> t2 \<longrightarrow>
      c_client_order_id (build_random_order info1 t1 d1) \<noteq> c_client_order_id (build_random_order info2 t2 d2))"
proof -
  obtain n where n: "0 < n" "n < 2 ^ 31" "bc_traders cfg = map (\<lambda>i. 50000 + of_nat i) [0..<n]" using bots_main_starts(5) [OF assms] by blast
  have v: "unat (50000 + of_nat i :: u64) = 50000 + i" if "i < n" for i
    using trader_id_value [of i] that n(2) by simp
  have "inj_on (\<lambda>i. 50000 + of_nat i :: u64) {0..<n}"
    by (rule inj_onI) (use v in \<open>metis add_left_cancel atLeastLessThan_iff\<close>)
  then have "distinct (bc_traders cfg)" by (simp add: n(3) distinct_map)
  moreover have "unat t < 2 ^ 32" if "t \<in> set (bc_traders cfg)" for t
    using that v n(2) by (auto simp: n(3))
  then have "bot_order_id t1 d1 \<noteq> bot_order_id t2 d2" if "t1 \<in> set (bc_traders cfg)" "t2 \<in> set (bc_traders cfg)" "t1 \<noteq> t2" for t1 t2 d1 d2
    using that bot_order_id_trader by metis
  ultimately show ?thesis using n(1,3) by (simp add: build_order_id)
qed

definition bots_csv :: string where
  "bots_csv = ''symbols'' @ CHR 0x0A # csv_row ''AAPL'' 5 100 90 110 @ [CHR 0x0A]"

definition demo_files :: "string \<Rightarrow> string option" where
  "demo_files path = (if path = ''data/symbols.csv'' then Some bots_csv else None)"

lemma bots_load: "loadSymbolCSV (Some bots_csv) = Inr [demo_info]" "load_symbols_csv (Some bots_csv) = Inr [demo_info]"
proof -
  have "CHR 0x0A \<notin> set (csv_row ''AAPL'' 5 100 90 110)" by (rule csv_row_plain) simp
  then have l: "file_lines bots_csv = [''symbols'', csv_row ''AAPL'' 5 100 90 110]"
    unfolding bots_csv_def by (subst file_lines_row) (simp_all add: file_lines_row)
  have "csv_row ''AAPL'' 5 100 90 110 \<noteq> []" by (simp add: csv_row_def)
  then show "loadSymbolCSV (Some bots_csv) = Inr [demo_info]" "load_symbols_csv (Some bots_csv) = Inr [demo_info]"
    by (simp_all add: loadSymbolCSV_def load_symbols_csv_def l parse_csv_row demo_info_def)
qed

theorem bot_ids_disjoint_witness:
  "\<exists>cfg. bots_main demo_files [''remote_bots''] = Starts cfg \<and> bc_traders cfg = [50000, 50001, 50002] \<and>
    c_client_order_id (build_random_order demo_info 50000 demo_draws) \<noteq> c_client_order_id (build_random_order demo_info 50001 demo_draws)"
proof -
  obtain cfg where "bots_main demo_files [''remote_bots''] = Starts cfg" "bc_traders cfg = [50000, 50001, 50002]"
    by (simp add: bots_main_def int_arg_def string_arg_def bots_load demo_files_def eval_nat_numeral)
  then show ?thesis using bot_ids_disjoint [of demo_files "[''remote_bots'']" cfg] by auto
qed

section \<open>The symbol rules\<close>

lemma stoull_empty: "stoull [] = Inl invalid_argument"
  by (simp add: stoull_def)

lemma parse_lines_nonempty: "parse_lines ls = Inr infos \<Longrightarrow> filter (\<lambda>l. l \<noteq> []) ls = ls"
proof (induction ls arbitrary: infos)
  case (Cons l ls)
  have "parse_line [] = Inl invalid_argument" by (simp add: parse_line_def getline_token_def stoull_empty)
  then show ?case using Cons by (cases "l = []") (auto split: sum.splits)
qed simp

text \<open>
  The bots check orders by the rules of the server: whenever \<open>loadSymbolCSV\<close>, by which the order management system reads the symbol file, accepts a file, the bots' own reader
  returns the same symbols with the same limits. The converse fails, since the bots skip empty lines, which stop the server with an exception.
\<close>

theorem bots_read_same_rules:
  assumes "loadSymbolCSV csv = Inr infos" shows "load_symbols_csv csv = Inr infos"
proof (cases csv)
  case (Some f)
  then have p: "parse_lines (tl (file_lines f)) = Inr infos" using assms by (simp add: loadSymbolCSV_def)
  show ?thesis by (simp add: load_symbols_csv_def Some parse_lines_nonempty [OF p] p)
qed (use assms in \<open>simp add: loadSymbolCSV_def load_symbols_csv_def\<close>)

theorem bots_read_same_rules_witness: "load_symbols_csv (Some bots_csv) = Inr [demo_info]"
  by (rule bots_read_same_rules [OF bots_load(1)])

end
