(* ===== verification/Order_Path.thy ===== *)
theory Order_Path
  imports Oms_Progress Bot_Runner
begin

text \<open>
  The way of the orders, from a bot to the books: a bot's rounds put images of orders into a socket, TCP carries them, a session of the order server reads them back and enqueues them while
  the order management system makes its passes, the system forwards them, and a matching group processes what it was sent. The pieces are those of
  \<open>Bot_Runner\<close>, \<open>Client_Wire\<close>, \<open>Oms_Progress\<close> and \<open>Engine_Run\<close>.
\<close>

section \<open>What a bot puts into the socket\<close>

text \<open>The order a round builds, and whether the bot's own check lets it pass.\<close>

definition round_order :: "bot_config \<Rightarrow> u64 \<Rightarrow> bot_round \<Rightarrow> ClientOrder" where
  "round_order cfg t br = (let info = bc_symbols cfg ! br_symbol br in
     maybe_corrupt_order_for_negative_test (build_random_order info t (br_draws br)) info (bc_invalid_percent cfg) (br_roll br) (br_mode br))"

definition round_valid :: "bot_config \<Rightarrow> u64 \<Rightarrow> bot_round \<Rightarrow> bool" where
  "round_valid cfg t br \<longleftrightarrow> fst (validate_order (round_order cfg t br) (bc_symbols cfg ! br_symbol br))"

text \<open>The kernel takes the bytes of the round, in any portions.\<close>

definition round_sends :: "bot_config \<Rightarrow> bot_round \<Rightarrow> bool" where
  "round_sends cfg br \<longleftrightarrow> br_symbol br < length (bc_symbols cfg) \<and> length (br_pad1 br) = 4 \<and> length (br_pad2 br) = 3 \<and> sends_ok (br_results br) order_size"

lemma round_order_image:
  assumes "round_sends cfg br"
  shows "image_of (round_order cfg t br) (order_bytes (br_pad1 br) (br_pad2 br) (round_order cfg t br))"
  unfolding image_of_def using assms by (intro exI) (auto simp: round_sends_def round_order_def corrupt_fields build_fields Let_def)

lemma strncpy7_terminated: "CHR 0x00 \<in> set (strncpy7 s)"
proof -
  have "length (take 7 (takeWhile (\<lambda>c. c \<noteq> CHR 0x00) s)) \<le> 7" by simp
  then have "0 < 8 - length (take 7 (takeWhile (\<lambda>c. c \<noteq> CHR 0x00) s))" by linarith
  then show ?thesis by (simp add: strncpy7_def Let_def)
qed

lemma round_order_ok: "round_valid cfg t br \<Longrightarrow> client_ok (round_order cfg t br)"
  unfolding round_valid_def client_ok_def
  by (auto dest: validate_valid_client simp: round_order_def corrupt_fields build_fields strncpy7_terminated Let_def)

lemma round_step:
  fixes t :: u64
  assumes "round_sends cfg br"
  defines "bs \<equiv> order_bytes (br_pad1 br) (br_pad2 br) (round_order cfg t br)"
  shows "\<exists>b'. bot_round_step k cfg t br b = Some b' \<and> bt_sockfd b' = bt_sockfd b \<and>
    bt_out b' = bt_out b @ (if round_valid cfg t br then [(bt_sockfd b, bs)] else [])"
proof -
  have len: "length bs = order_size" using image_of_length [OF round_order_image [OF assms(1)]] by (simp add: bs_def)
  then have "send_order (br_results br) bs = Some (bs, True)" using assms(1) send_order_ok by (simp add: round_sends_def)
  moreover have "bs \<noteq> []" using len by (auto simp: order_size_def)
  ultimately show ?thesis using assms(1)
    by (auto simp: bot_round_step_def bot_pass_def round_valid_def round_order_def round_sends_def bs_def Let_def)
qed

lemma rounds_stream:
  assumes "\<forall>br \<in> set brs. round_sends cfg br"
  shows "\<exists>b' images. bot_rounds k cfg t brs b = Some b' \<and> bt_out b' = bt_out b @ map (Pair (bt_sockfd b)) images \<and>
    list_all2 image_of (map (round_order cfg t) (filter (round_valid cfg t) brs)) images"
  using assms
proof (induction brs arbitrary: b)
  case (Cons br brs)
  obtain b1 where b1: "bot_round_step k cfg t br b = Some b1" "bt_sockfd b1 = bt_sockfd b"
    "bt_out b1 = bt_out b @ (if round_valid cfg t br then [(bt_sockfd b, order_bytes (br_pad1 br) (br_pad2 br) (round_order cfg t br))] else [])"
    using round_step [of cfg br k t b] Cons.prems by auto
  obtain b' images where "bot_rounds k cfg t brs b1 = Some b'" "bt_out b' = bt_out b1 @ map (Pair (bt_sockfd b1)) images"
    "list_all2 image_of (map (round_order cfg t) (filter (round_valid cfg t) brs)) images"
    using Cons.IH [of b1] Cons.prems by auto
  then show ?case using b1 round_order_image [of cfg br t] Cons.prems
    by (intro exI [of _ b'] exI [of _ "(if round_valid cfg t br then [order_bytes (br_pad1 br) (br_pad2 br) (round_order cfg t br)] else []) @ images"])
      (simp add: bot_rounds_def)
qed (simp add: bot_rounds_def)

section \<open>A session while the system makes its passes\<close>

text \<open>
  The other threads, as a session sees them while it waits for room: a pass of the system on rings and prices as they should be. \<open>R\<close> is what stays true of the rings' consumers
  meanwhile; the session itself touches the queue only.
\<close>

type_synonym session_env = "OrderManagementSystem \<Rightarrow> (OrderManagementSystem \<times> bool) option"

definition served_by :: "(nat \<Rightarrow> u64) \<Rightarrow> (OrderManagementSystem \<Rightarrow> bool) \<Rightarrow> session_env \<Rightarrow> bool" where
  "served_by clk R env \<longleftrightarrow> (\<forall>s q. R s \<longrightarrow> R (s\<lparr>incoming_orders := q\<rparr>)) \<and>
     (\<forall>s. R s \<longrightarrow> running s \<longrightarrow> (\<exists>js tss out rings mem. consumers_at s js \<and> input_ok js tss (out, rings, mem) \<and>
        env s = map_option (\<lambda>u. (u, False)) (oms_pass clk out rings mem s) \<and> (\<forall>u. oms_pass clk out rings mem s = Some u \<longrightarrow> R u)))"

primrec env_passes :: "session_env \<Rightarrow> nat \<Rightarrow> OrderManagementSystem \<Rightarrow> OrderManagementSystem option" where
  "env_passes env 0 s = Some s"
| "env_passes env (Suc n) s = Option.bind (env s) (\<lambda>(u, _). env_passes env n u)"

text \<open>What holds between the steps of a session.\<close>

definition in_service :: "(nat \<Rightarrow> u64) \<Rightarrow> OrderManagementSystem \<Rightarrow> (OrderManagementSystem \<Rightarrow> bool) \<Rightarrow> OrderManagementSystem \<Rightarrow> bool" where
  "in_service clk s0 R s \<longleftrightarrow> R s \<and> running s \<and> oms_reach clk client_ok s0 s \<and> symbolLookupTable s = symbolLookupTable s0"

lemma service_pass:
  assumes "served_by clk R env" "in_service clk s0 R s"
  shows "\<exists>u. env s = Some (u, False) \<and> in_service clk s0 R u \<and> rb_contents (incoming_orders u) = tl (rb_contents (incoming_orders s)) \<and>
    rb_room (incoming_orders u) = rb_room (incoming_orders s) \<and> (\<forall>c. tradable s0 c \<longrightarrow> not_lost s c \<longrightarrow> not_lost u c)"
proof -
  have s: "R s" "running s" "oms_reach clk client_ok s0 s" "symbolLookupTable s = symbolLookupTable s0" using assms(2) by (simp_all add: in_service_def)
  obtain js tss out rings mem where e: "consumers_at s js" "input_ok js tss (out, rings, mem)"
    "env s = map_option (\<lambda>u. (u, False)) (oms_pass clk out rings mem s)" "\<forall>u. oms_pass clk out rings mem s = Some u \<longrightarrow> R u"
    using assms(1) s(1,2) unfolding served_by_def by meson
  obtain u where u: "oms_pass clk out rings mem s = Some u" "running u" "rb_contents (incoming_orders u) = tl (rb_contents (incoming_orders s))"
    "rb_room (incoming_orders u) = rb_room (incoming_orders s)" "symbolLookupTable u = symbolLookupTable s" "\<forall>c. tradable s c \<longrightarrow> not_lost s c \<longrightarrow> not_lost u c"
    using running_pass [OF s(2) e(2,1), of clk] by blast
  have "in_service clk s0 R u" using u e(4) s oms_reach.pass [OF s(3) u(1)] by (simp add: in_service_def)
  then show ?thesis using e(3) u tradable_cong [OF s(4)] by auto
qed

lemma service_enqueue:
  assumes "served_by clk R env" "in_service clk s0 R s" "client_ok c" "length (rb_contents (incoming_orders s)) < rb_room (incoming_orders s)"
  shows "\<exists>u. enqueueClientOrder s c = Some (u, True) \<and> in_service clk s0 R u \<and> rb_room (incoming_orders u) = rb_room (incoming_orders s) \<and>
    not_lost u c \<and> (\<forall>d. not_lost s d \<longrightarrow> not_lost u d)"
proof -
  have s: "R s" "running s" "oms_reach clk client_ok s0 s" "symbolLookupTable s = symbolLookupTable s0" using assms(2) by (simp_all add: in_service_def)
  then have "rb_inv (incoming_orders s)" by (simp add: running_def oms_ok_def)
  then obtain u where u: "enqueueClientOrder s c = Some (u, True)" "rb_room (incoming_orders u) = rb_room (incoming_orders s)"
    "rb_contents (incoming_orders u) = rb_contents (incoming_orders s) @ [c]"
    by (rule enqueue_room [OF _ assms(4)])
  then obtain q where q: "u = s\<lparr>incoming_orders := q\<rparr>" by (auto simp: enqueueClientOrder_def bind_eq_Some_conv)
  have "oms_ok client_ok (\<lambda>_. True) u" by (rule waiting.ok_enqueue [OF _ assms(3) u(1)]) (use s(2) in \<open>simp add: running_def\<close>)
  then have "in_service clk s0 R u"
    using s oms_reach.enqueue [OF s(3) assms(3) u(1)] assms(1) by (simp add: q in_service_def running_def served_by_def)
  moreover have "resting_stop u d = resting_stop s d" "forwarded u d = forwarded s d" for d
    using find_id_cong [of u s] by (simp_all add: q resting_stop_def forwarded_def engine_order_def stops_at_def)
  ultimately show ?thesis using u by (auto simp: not_lost_def)
qed

lemma service_offer:
  assumes "served_by clk R env" "in_service clk s0 R s" "client_ok c" "0 < rb_room (incoming_orders s)"
  shows "\<exists>u. enqueue_loop env s c = Some (u, True) \<and> in_service clk s0 R u \<and> rb_room (incoming_orders u) = rb_room (incoming_orders s) \<and>
    not_lost u c \<and> (\<forall>d. tradable s0 d \<longrightarrow> not_lost s d \<longrightarrow> not_lost u d)"
proof (cases "length (rb_contents (incoming_orders s)) < rb_room (incoming_orders s)")
  case True
  then show ?thesis using service_enqueue [OF assms(1-3)] by (subst enqueue_loop.simps) auto
next
  case False
  have inv: "rb_inv (incoming_orders s)" using assms(2) by (simp add: in_service_def running_def oms_ok_def)
  then have "length (rb_contents (incoming_orders s)) = rb_room (incoming_orders s)" using rb.room_bound False by fastforce
  then have full: "enqueueClientOrder s c = Some (s, False)" and len: "0 < length (rb_contents (incoming_orders s))"
    using rb.push_reject [OF inv, of c] assms(4) by (simp_all add: enqueueClientOrder_def)
  obtain v where v: "env s = Some (v, False)" "in_service clk s0 R v" "rb_contents (incoming_orders v) = tl (rb_contents (incoming_orders s))"
    "rb_room (incoming_orders v) = rb_room (incoming_orders s)" "\<forall>d. tradable s0 d \<longrightarrow> not_lost s d \<longrightarrow> not_lost v d"
    using service_pass [OF assms(1,2)] by blast
  have "length (rb_contents (incoming_orders v)) < rb_room (incoming_orders v)"
    using v(3,4) len rb.room_bound [OF inv] by (cases "rb_contents (incoming_orders s)") auto
  then obtain u where u: "enqueueClientOrder v c = Some (u, True)" "in_service clk s0 R u" "rb_room (incoming_orders u) = rb_room (incoming_orders v)"
    "not_lost u c" "\<forall>d. not_lost v d \<longrightarrow> not_lost u d"
    using service_enqueue [OF assms(1) v(2) assms(3)] by blast
  have "enqueue_loop env v c = Some (u, True)" using u(1) by (simp add: enqueue_loop.simps)
  then have "enqueue_loop env s c = Some (u, True)" using full v(1) by (simp add: enqueue_loop.simps [of env s])
  then show ?thesis using u v by auto
qed

lemma service_session:
  assumes "served_by clk R env" "in_service clk s0 R s" "0 < rb_room (incoming_orders s)" "list_all2 image_of orders images" "\<forall>c \<in> set orders. client_ok c"
    "stream_of evs = concat images" "closed_stream evs" "chunks_ok order_size 0 evs"
  shows "\<exists>u. clientSession env evs s = Some (u, orders) \<and> in_service clk s0 R u \<and>
    (\<forall>d. tradable s0 d \<longrightarrow> d \<in> set orders \<or> not_lost s d \<longrightarrow> not_lost u d)"
  using assms(2-8)
proof (induction orders arbitrary: images s evs)
  case Nil
  then obtain evs' where "readExact order_size evs [] = Some (evs', [], False)"
    using readExact_end [of order_size evs] by (auto simp: order_size_def)
  then show ?case using Nil.prems(1) by (simp add: clientSession.simps)
next
  case (Cons c orders)
  obtain bs images' where im: "images = bs # images'" "image_of c bs" "list_all2 image_of orders images'"
    using Cons.prems(3) by (auto simp: list_all2_Cons1)
  note len = image_of_length [OF im(2)]
  obtain evs' where evs': "readExact order_size evs [] = Some (evs', bs, True)" "stream_of evs' = concat images'"
    "chunks_ok order_size 0 evs'" "closed_stream evs'"
    using readExact_message [of "[]" order_size evs] Cons.prems(5-7) im(1) len by (auto simp: order_size_def)
  have c: "client_ok c" "\<forall>c \<in> set orders. client_ok c" using Cons.prems(4) by simp_all
  obtain s1 where s1: "enqueue_loop env s c = Some (s1, True)" "in_service clk s0 R s1" "rb_room (incoming_orders s1) = rb_room (incoming_orders s)"
    "not_lost s1 c" "\<forall>d. tradable s0 d \<longrightarrow> not_lost s d \<longrightarrow> not_lost s1 d"
    using service_offer [OF assms(1) Cons.prems(1) c(1) Cons.prems(2)] by blast
  then have "0 < rb_room (incoming_orders s1)" using Cons.prems(2) by simp
  then obtain u where u: "clientSession env evs' s1 = Some (u, orders)" "in_service clk s0 R u"
    "\<forall>d. tradable s0 d \<longrightarrow> d \<in> set orders \<or> not_lost s1 d \<longrightarrow> not_lost u d"
    using Cons.IH [OF s1(2) _ im(3) c(2) evs'(2,4,3)] by blast
  then have "clientSession env evs s = Some (u, c # orders)"
    using evs'(1) s1(1) image_of_decode [OF im(2)] by (simp add: clientSession.simps [of env evs])
  then show ?case using u s1(4,5) by auto
qed

lemma service_drain:
  assumes "served_by clk R env" "in_service clk s0 R s"
  shows "\<exists>u. env_passes env n s = Some u \<and> in_service clk s0 R u \<and> rb_contents (incoming_orders u) = drop n (rb_contents (incoming_orders s)) \<and>
    (\<forall>d. tradable s0 d \<longrightarrow> not_lost s d \<longrightarrow> not_lost u d)"
  using assms(2)
proof (induction n arbitrary: s)
  case (Suc n)
  obtain v where "env s = Some (v, False)" "in_service clk s0 R v" "rb_contents (incoming_orders v) = tl (rb_contents (incoming_orders s))"
    "\<forall>d. tradable s0 d \<longrightarrow> not_lost s d \<longrightarrow> not_lost v d"
    using service_pass [OF assms(1) Suc.prems] by blast
  then show ?case using Suc.IH [of v] by (auto simp: drop_Suc)
qed simp

lemma reach_room:
  assumes "oms_reach clk accept s0 s" "rb_inv (incoming_orders s0)"
  shows "rb_inv (incoming_orders s) \<and> rb_room (incoming_orders s) = rb_room (incoming_orders s0)"
  using assms
proof (induction rule: oms_reach.induct)
  case (enqueue s c s' ok)
  then have "rb_inv (incoming_orders s)" by simp
  then obtain q ok' where "RingBuffer_push (incoming_orders s) c = Some (q, ok')" "rb_inv q" "rb_room q = rb_room (incoming_orders s)"
    by (rule rb.push_total)
  then show ?case using enqueue by (auto simp: enqueueClientOrder_def)
next
  case (pass s out rings mem s')
  show ?case
  proof (cases "oms_shutdown s")
    case False
    have "rb_inv (incoming_orders s)" using pass by simp
    then obtain q where "rb_inv q" "rb_room q = rb_room (incoming_orders s)" "incoming_orders s' = q"
      using oms_pass_parts [OF _ False pass(2)] by metis
    then show ?thesis using pass by simp
  qed (use pass in \<open>simp add: oms_pass_def\<close>)
qed (simp_all add: oms_stop_def)

section \<open>From the bots to the books\<close>


text \<open>A bot sends one order in one piece to the demo system, whose passes see empty rings.\<close>

definition demo_service :: session_env where
  "demo_service s = map_option (\<lambda>u. (u, False)) (oms_pass demo_clk demo_out (\<lambda>_. zero_ring) None s)"

lemma demo_served: "served_by demo_clk (\<lambda>s. consumers_at s (\<lambda>_. 0)) demo_service"
  unfolding served_by_def
proof (intro conjI allI impI)
  show "consumers_at (s\<lparr>incoming_orders := q\<rparr>) (\<lambda>_. 0)" if "consumers_at s (\<lambda>_. 0)" for s q
    using that by (simp add: consumers_at_def)
  fix s assume s: "consumers_at s (\<lambda>_. 0)" "running s"
  have "\<forall>u. oms_pass demo_clk demo_out (\<lambda>_. zero_ring) None s = Some u \<longrightarrow> consumers_at u (\<lambda>_. 0)"
    using running_pass [OF s(2) demo_input s(1), of demo_clk] by auto
  then show "\<exists>js tss out rings mem. consumers_at s js \<and> input_ok js tss (out, rings, mem) \<and>
      demo_service s = map_option (\<lambda>u. (u, False)) (oms_pass demo_clk out rings mem s) \<and>
      (\<forall>u. oms_pass demo_clk out rings mem s = Some u \<longrightarrow> consumers_at u (\<lambda>_. 0))"
    using s(1) demo_input demo_service_def by blast
qed

definition demo_sent_round :: bot_round where
  "demo_sent_round = demo_round\<lparr>br_results := [72]\<rparr>"

abbreviation demo_round_order :: ClientOrder where
  "demo_round_order \<equiv> round_order demo_config 50000 demo_sent_round"

lemma demo_round_order_eq: "demo_round_order = build_random_order demo_info 50000 demo_draws"
  by (simp add: round_order_def demo_sent_round_def demo_round_def demo_config_def maybe_corrupt_order_for_negative_test_def)

lemma demo_round_order_facts:
  "round_sends demo_config demo_sent_round" "round_valid demo_config 50000 demo_sent_round" "tradable demo_oms demo_round_order"
proof -
  show "round_sends demo_config demo_sent_round"
    by (simp add: round_sends_def demo_sent_round_def demo_round_def demo_config_def order_size_def eval_nat_numeral)
  have v: "fst (validate_order (build_random_order demo_info 50000 demo_draws) demo_info)"
    by (rule build_valid) (simp add: in_band_def demo_info_def demo_draws_def)
  then show "round_valid demo_config 50000 demo_sent_round"
    unfolding round_valid_def demo_round_order_eq by (simp add: demo_sent_round_def demo_round_def demo_config_def)
  have "c_str (strncpy7 (s_symbol demo_info)) = Some ''AAPL''" using strncpy7_str [of "''AAPL''"] by (simp add: demo_info_def)
  moreover have "find_id demo_oms ''AAPL'' = 5" by (simp add: find_id_def demo_hash demo_oms_def)
  moreover have "c_price (build_random_order demo_info 50000 demo_draws) \<noteq> 0 \<or> c_execution_type (build_random_order demo_info 50000 demo_draws) \<noteq> C_LIMIT"
    by (simp add: build_random_order_def demo_info_def demo_draws_def zero_client_order_def Let_def)
  moreover have "c_quantity (build_random_order demo_info 50000 demo_draws) \<noteq> 0"
    using build_fields(4) [of demo_info 50000 demo_draws] by auto
  ultimately show "tradable demo_oms demo_round_order"
    unfolding demo_round_order_eq tradable_def by (auto simp: build_fields)
qed


end
