(* ===== verification/Market_Feed.thy ===== *)
theory Market_Feed
  imports Trade_Ring Ring_Queue Byte_Layout
begin

text \<open>
  The market feed of \<^verbatim>\<open>src/src/MarketFeedReader.cpp\<close>: one thread reads the trades of all rings, numbers them and queues them; another
  packs the queue into datagrams of up to 23 messages and sends the same messages over a TCP connection to the
  retransmitter. The kernel is a parameter: the results of \<open>sendmmsg\<close> and \<open>send\<close>. The sockets' set-up is in \<open>Endpoints\<close>, the
  buffers are in \<open>Batch_Memory\<close>.
\<close>

section \<open>Messages\<close>

record MarketDataMessage =
  md_trade_id :: u64
  md_timestamp_ns :: u64
  md_price :: u64
  md_symbol_id :: u32
  md_quantity :: u32
  md_seq_num :: u64

definition msg_per_packet :: nat where "msg_per_packet = 23"
definition message_size :: nat where "message_size = 64"
definition batch_capacity :: nat where "batch_capacity = 64"

record MarketFeedReader =
  mf_queue :: "MarketDataMessage spsc"
  mf_seq_num :: u64
  mf_trb_vec :: "trade_ring_buffer list"
  mf_done :: bool

definition MarketFeedReader_new :: "(u64 \<Rightarrow> MarketDataMessage) \<Rightarrow> MarketFeedReader" where
  "MarketFeedReader_new mem = \<lparr>mf_queue = spsc_new mem, mf_seq_num = 0,
     mf_trb_vec = map (\<lambda>i. trade_ring_buffer_new False (of_nat i)) [0..<GROUP_COUNT], mf_done = False\<rparr>"

definition formatMarketData :: "MarketFeedReader \<Rightarrow> Trade \<Rightarrow> MarketFeedReader \<times> MarketDataMessage" where
  "formatMarketData f trade = (f\<lparr>mf_seq_num := mf_seq_num f + 1\<rparr>,
     \<lparr>md_trade_id = t_trade_id trade, md_timestamp_ns = t_timestamp_ns trade, md_price = t_price trade,
      md_symbol_id = t_symbol_id trade, md_quantity = t_quantity trade, md_seq_num = mf_seq_num f\<rparr>)"

section \<open>Reading\<close>

text \<open>The inner loop of \<open>readThread\<close>, with \<open>n\<close> reads left of the ten; the result of \<open>push\<close> is ignored.\<close>

fun read_ring :: "trade_ring \<Rightarrow> nat \<Rightarrow> nat \<Rightarrow> MarketFeedReader \<Rightarrow> MarketFeedReader option" where
  "read_ring ring i 0 f = Some f"
| "read_ring ring i (Suc n) f = (if any_new_trade ring (mf_trb_vec f ! i) then do {
       (h, trade) \<leftarrow> get_trade ring (mf_trb_vec f ! i);
       let (f1, msg) = formatMarketData (f\<lparr>mf_trb_vec := (mf_trb_vec f)[i := h]\<rparr>) trade;
       (q, _) \<leftarrow> spsc_push 20 (mf_queue f1) msg;
       read_ring ring i n (f1\<lparr>mf_queue := q\<rparr>)
     } else Some f)"

fun read_rings :: "(nat \<Rightarrow> trade_ring) \<Rightarrow> nat list \<Rightarrow> MarketFeedReader \<Rightarrow> MarketFeedReader option" where
  "read_rings rings [] f = Some f"
| "read_rings rings (i # is) f = (if i < length (mf_trb_vec f) then do {
       f1 \<leftarrow> read_ring (rings i) i 10 f;
       read_rings rings is f1
     } else None)"

text \<open>One pass of \<open>readThread\<close>; \<open>flag\<close> is the running flag of the process.\<close>

definition readThread_pass :: "(nat \<Rightarrow> trade_ring) \<Rightarrow> bool \<Rightarrow> MarketFeedReader \<Rightarrow> MarketFeedReader option" where
  "readThread_pass rings flag f = (if \<not> flag then Some (f\<lparr>mf_done := True\<rparr>) else read_rings rings [0..<GROUP_COUNT] f)"

section \<open>Packing\<close>

text \<open>
  The inner loop of \<open>sendThread\<close>: up to \<open>n\<close> more messages go into the current packet; the flag says that the queue ran empty (the jump
  to \<open>flush\<close>).
\<close>

fun pack_packet :: "nat \<Rightarrow> MarketDataMessage spsc \<Rightarrow> (MarketDataMessage spsc \<times> MarketDataMessage list \<times> bool) option" where
  "pack_packet 0 q = Some (q, [], False)"
| "pack_packet (Suc n) q = do {
     (q1, r) \<leftarrow> spsc_pop 20 q;
     (case r of
        Some msg \<Rightarrow> do { (q2, msgs, empty) \<leftarrow> pack_packet n q1; Some (q2, msg # msgs, empty) }
      | None \<Rightarrow> Some (q1, [], True))
   }"

text \<open>
  The outer loop over the packets of a batch. The result has the complete packets, then the messages packed into the packet that was interrupted;
  the TCP buffer holds all of them in a row.
\<close>

fun pack_packets :: "nat \<Rightarrow> MarketDataMessage spsc \<Rightarrow>
    (MarketDataMessage spsc \<times> MarketDataMessage list list \<times> MarketDataMessage list) option" where
  "pack_packets 0 q = Some (q, [], [])"
| "pack_packets (Suc p) q = do {
     (q1, msgs, empty) \<leftarrow> pack_packet msg_per_packet q;
     if empty then Some (q1, [], msgs)
     else do { (q2, packets, rest) \<leftarrow> pack_packets p q1; Some (q2, msgs # packets, rest) }
   }"

text \<open>
  \<open>flush\<close>: the tail packet counts if the batch is not full and the length of the TCP buffer is not a multiple of 23 messages. The result is what
  \<open>sendmmsg\<close> gets and what the TCP buffer holds.
\<close>

definition pack_batch :: "MarketDataMessage spsc \<Rightarrow>
    (MarketDataMessage spsc \<times> MarketDataMessage list list \<times> MarketDataMessage list) option" where
  "pack_batch q = do {
     (q1, packets, rest) \<leftarrow> pack_packets batch_capacity q;
     let tcp = concat packets @ rest;
     let current_packet_msgs = length tcp mod msg_per_packet;
     Some (q1, (if length packets < batch_capacity \<and> 0 < current_packet_msgs
                then packets @ [take current_packet_msgs rest] else packets), tcp)
   }"

section \<open>Sending\<close>

text \<open>The loop around \<open>sendmmsg\<close>: a result is a number of packets, or an error (\<open>EINTR\<close> is tried again).\<close>

datatype send_result = Sent nat | Again | Intr | Error

fun send_packets :: "send_result list \<Rightarrow> 'a list \<Rightarrow> ('a list \<times> bool) option" where
  "send_packets results [] = Some ([], True)"
| "send_packets [] (x # xs) = None"
| "send_packets (Sent n # results) (x # xs) = (case send_packets results (drop n (x # xs)) of
     None \<Rightarrow> None | Some (out, ok) \<Rightarrow> Some (take n (x # xs) @ out, ok))"
| "send_packets (Intr # results) (x # xs) = send_packets results (x # xs)"
| "send_packets (r # results) (x # xs) = Some ([], False)"

text \<open>The loop around the TCP \<open>send\<close>: \<open>EAGAIN\<close> leaves the loop, and the rest of the buffer is dropped.\<close>

fun send_tcp :: "send_result list \<Rightarrow> u8 list \<Rightarrow> (u8 list \<times> bool) option" where
  "send_tcp results [] = Some ([], True)"
| "send_tcp [] (b # bs) = None"
| "send_tcp (Sent n # results) (b # bs) = (case send_tcp results (drop n (b # bs)) of
     None \<Rightarrow> None | Some (out, ok) \<Rightarrow> Some (take n (b # bs) @ out, ok))"
| "send_tcp (Again # results) (b # bs) = Some ([], True)"
| "send_tcp (r # results) (b # bs) = Some ([], False)"

text \<open>The memory image of a message: 40 bytes of data and 24 of padding.\<close>

definition message_bytes :: "u8 list \<Rightarrow> MarketDataMessage \<Rightarrow> u8 list" where
  "message_bytes pad m = le_bytes 8 (unat (md_trade_id m)) @ le_bytes 8 (unat (md_timestamp_ns m)) @
     le_bytes 8 (unat (md_price m)) @ le_bytes 4 (unat (md_symbol_id m)) @ le_bytes 4 (unat (md_quantity m)) @
     le_bytes 8 (unat (md_seq_num m)) @ pad"

definition message_of_bytes :: "u8 list \<Rightarrow> MarketDataMessage" where
  "message_of_bytes bs = \<lparr>md_trade_id = of_nat (le_value (field 0 8 bs)), md_timestamp_ns = of_nat (le_value (field 8 8 bs)),
     md_price = of_nat (le_value (field 16 8 bs)), md_symbol_id = of_nat (le_value (field 24 4 bs)),
     md_quantity = of_nat (le_value (field 28 4 bs)), md_seq_num = of_nat (le_value (field 32 8 bs))\<rparr>"

text \<open>
  One pass of \<open>sendThread\<close>: the new queue, the datagrams and the TCP bytes that went out, and whether the thread goes on.
\<close>

definition sendThread_pass :: "send_result list \<Rightarrow> send_result list \<Rightarrow> u8 list \<Rightarrow> MarketFeedReader \<Rightarrow>
    (MarketFeedReader \<times> MarketDataMessage list list \<times> u8 list \<times> bool) option" where
  "sendThread_pass udp tcp pad f = (if mf_done f \<and> spsc_empty (mf_queue f) then Some (f, [], [], False) else do {
     (q, packets, msgs) \<leftarrow> pack_batch (mf_queue f);
     let f1 = f\<lparr>mf_queue := q\<rparr>;
     if packets = [] then Some (f1, [], [], True) else do {
       (out, ok) \<leftarrow> send_packets udp packets;
       if \<not> ok then Some (f1, out, [], False) else do {
         (bytes, go_on) \<leftarrow> send_tcp tcp (concat (map (message_bytes pad) msgs));
         Some (f1, out, bytes, go_on)
       }
     }
   })"

section \<open>Packing is chunking\<close>

text \<open>The reference: a list cut into pieces of \<open>k\<close>.\<close>

function chunks :: "nat \<Rightarrow> 'a list \<Rightarrow> 'a list list" where
  "chunks k xs = (if xs = [] \<or> k = 0 then [] else take k xs # chunks k (drop k xs))"
  by auto
termination by (relation "measure (\<lambda>(k, xs). length xs)") auto

declare chunks.simps [simp del]

lemma chunks_Nil [simp]: "chunks k [] = []"
  by (simp add: chunks.simps)

lemma chunks_concat:
  assumes "\<forall>p \<in> set packets. length p = k" "length rest < k"
  shows "chunks k (concat packets @ rest) = packets @ (if rest = [] then [] else [rest])"
  using assms
proof (induction packets)
  case Nil
  then show ?case by (subst chunks.simps) simp
next
  case (Cons p packets)
  then have "p @ concat packets @ rest \<noteq> []" "take k (p @ concat packets @ rest) = p" "drop k (p @ concat packets @ rest) = concat packets @ rest"
    by auto
  then show ?case using Cons by (simp add: chunks.simps [of k "p @ concat packets @ rest"])
qed

lemma pack_packet_ok:
  assumes "spsc_inv 20 q"
  shows "\<exists>q'. pack_packet n q = Some (q', take n (spsc_contents 20 q), length (spsc_contents 20 q) < n) \<and> spsc_inv 20 q' \<and>
    spsc_contents 20 q' = drop n (spsc_contents 20 q)"
  using assms
proof (induction n arbitrary: q)
  case (Suc n)
  obtain q1 r where q1: "spsc_pop 20 q = Some (q1, r)" "spsc_inv 20 q1"
    "spsc_contents 20 q = (case r of None \<Rightarrow> [] | Some y \<Rightarrow> [y]) @ spsc_contents 20 q1" "r = None \<longleftrightarrow> spsc_contents 20 q = []"
    by (rule sq.pop_total [OF Suc.prems])
  show ?case
  proof (cases r)
    case None
    then show ?thesis using q1 by simp
  next
    case (Some y)
    then show ?thesis using Suc.IH [OF q1(2)] q1 by auto
  qed
qed simp

lemma pack_packets_ok:
  assumes "spsc_inv 20 q"
  shows "\<exists>q' packets rest. pack_packets p q = Some (q', packets, rest) \<and> spsc_inv 20 q' \<and>
    concat packets @ rest = take (p * msg_per_packet) (spsc_contents 20 q) \<and> spsc_contents 20 q' = drop (p * msg_per_packet) (spsc_contents 20 q) \<and>
    (\<forall>x \<in> set packets. length x = msg_per_packet) \<and> length rest < msg_per_packet \<and> length packets \<le> p \<and> (length packets = p \<longrightarrow> rest = [])"
  using assms
proof (induction p arbitrary: q)
  case 0
  then show ?case by (simp add: msg_per_packet_def)
next
  case (Suc p)
  let ?xs = "spsc_contents 20 q"
  obtain q1 where q1: "pack_packet msg_per_packet q = Some (q1, take msg_per_packet ?xs, length ?xs < msg_per_packet)"
    "spsc_inv 20 q1" "spsc_contents 20 q1 = drop msg_per_packet ?xs"
    using pack_packet_ok [OF Suc.prems, of msg_per_packet] by blast
  show ?case
  proof (cases "length ?xs < msg_per_packet")
    case True
    then show ?thesis using q1 by simp
  next
    case False
    obtain q' packets rest where r: "pack_packets p q1 = Some (q', packets, rest)" "spsc_inv 20 q'"
      "concat packets @ rest = take (p * msg_per_packet) (spsc_contents 20 q1)"
      "spsc_contents 20 q' = drop (p * msg_per_packet) (spsc_contents 20 q1)"
      "\<forall>x \<in> set packets. length x = msg_per_packet" "length rest < msg_per_packet" "length packets \<le> p" "length packets = p \<longrightarrow> rest = []"
      using Suc.IH [OF q1(2)] by blast
    let ?packets = "take msg_per_packet ?xs # packets"
    have "concat ?packets @ rest = take (Suc p * msg_per_packet) ?xs" using r(3) q1(3) by (simp add: take_add)
    moreover have "spsc_contents 20 q' = drop (Suc p * msg_per_packet) ?xs" using r(4) q1(3) by (simp add: add.commute)
    moreover have "pack_packets (Suc p) q = Some (q', ?packets, rest)" using False q1(1) r(1) by simp
    moreover have "\<forall>x \<in> set ?packets. length x = msg_per_packet" using False r(5) by simp
    moreover have "length ?packets \<le> Suc p" "length ?packets = Suc p \<longrightarrow> rest = []" using r(7,8) by simp_all
    ultimately show ?thesis using r(2,6) by blast
  qed
qed

lemma pack_batch_ok:
  assumes "spsc_inv 20 q"
  shows "\<exists>q'. pack_batch q = Some (q', chunks msg_per_packet (take (batch_capacity * msg_per_packet) (spsc_contents 20 q)),
      take (batch_capacity * msg_per_packet) (spsc_contents 20 q)) \<and> spsc_inv 20 q' \<and>
    spsc_contents 20 q' = drop (batch_capacity * msg_per_packet) (spsc_contents 20 q)"
proof -
  let ?tcp = "take (batch_capacity * msg_per_packet) (spsc_contents 20 q)"
  obtain q' packets rest where r: "pack_packets batch_capacity q = Some (q', packets, rest)" "spsc_inv 20 q'" "concat packets @ rest = ?tcp"
    "spsc_contents 20 q' = drop (batch_capacity * msg_per_packet) (spsc_contents 20 q)"
    "\<forall>x \<in> set packets. length x = msg_per_packet" "length rest < msg_per_packet" "length packets \<le> batch_capacity"
    "length packets = batch_capacity \<longrightarrow> rest = []"
    using pack_packets_ok [OF assms] by blast
  have "length (concat packets) = length packets * msg_per_packet" using r(5) by (induction packets) simp_all
  then have m: "(length (concat packets) + length rest) mod msg_per_packet = length rest" using r(6) by simp
  have "chunks msg_per_packet ?tcp = packets @ (if rest = [] then [] else [rest])"
    unfolding r(3) [symmetric] by (rule chunks_concat [OF r(5,6)])
  moreover have "pack_batch q = Some (q', (if length packets < batch_capacity \<and> 0 < length rest
      then packets @ [take (length rest) rest] else packets), ?tcp)"
    using r(1) by (simp add: pack_batch_def Let_def r(3) [symmetric] m)
  ultimately show ?thesis using r(2,4,7,8) by auto
qed

section \<open>Numbering\<close>

fun numbered :: "u64 \<Rightarrow> Trade list \<Rightarrow> MarketDataMessage list" where
  "numbered n [] = []"
| "numbered n (t # ts) = \<lparr>md_trade_id = t_trade_id t, md_timestamp_ns = t_timestamp_ns t, md_price = t_price t,
     md_symbol_id = t_symbol_id t, md_quantity = t_quantity t, md_seq_num = n\<rparr> # numbered (n + 1) ts"

lemma length_numbered [simp]: "length (numbered n ts) = length ts"
  by (induction ts arbitrary: n) auto

lemma numbered_append: "numbered n (ts @ us) = numbered n ts @ numbered (n + of_nat (length ts)) us"
  by (induction ts arbitrary: n) (simp_all add: algebra_simps)

lemma read_ring_ok:
  assumes "ring_holds ring ts" "handle_at (mf_trb_vec f ! i) j" "j \<le> length ts" "length ts \<le> j + 2 ^ 20" "length ts + 3 < 2 ^ 21"
    "i < length (mf_trb_vec f)" "spsc_inv 20 (mf_queue f)" "length (spsc_contents 20 (mf_queue f)) + n < 2 ^ 20"
  shows "\<exists>f'. read_ring ring i n f = Some f' \<and> spsc_inv 20 (mf_queue f') \<and>
    spsc_contents 20 (mf_queue f') = spsc_contents 20 (mf_queue f) @ numbered (mf_seq_num f) (take n (drop j ts)) \<and>
    mf_seq_num f' = mf_seq_num f + of_nat (min n (length ts - j)) \<and>
    (\<exists>h. handle_at h (min (j + n) (length ts)) \<and> mf_trb_vec f' = (mf_trb_vec f)[i := h])"
  using assms(2-4,6-8)
proof (induction n arbitrary: f j)
  case 0
  then show ?case by (auto intro!: exI [of _ "mf_trb_vec f ! i"])
next
  case (Suc n)
  let ?h = "mf_trb_vec f ! i"
  have new: "any_new_trade ring ?h \<longleftrightarrow> j < length ts" using consumer_any_new [OF assms(1) Suc.prems(1-3)] assms(5) Suc.prems(2) by auto
  show ?case
  proof (cases "j < length ts")
    case False
    then have "j = length ts" using Suc.prems(2) by simp
    then show ?thesis using new Suc.prems by (auto intro!: exI [of _ ?h])
  next
    case True
    have get: "get_trade ring ?h = Some (update_index_and_seq ?h, ts ! j)" by (rule consumer_get [OF assms(1) Suc.prems(1) True Suc.prems(3)])
    have h1: "handle_at (update_index_and_seq ?h) (j + 1)" by (rule handle_at_update [OF Suc.prems(1)]) (use True assms(5) in simp)
    let ?f0 = "f\<lparr>mf_trb_vec := (mf_trb_vec f)[i := update_index_and_seq ?h]\<rparr>"
    obtain f1 msg where f1: "formatMarketData ?f0 (ts ! j) = (f1, msg)" by fastforce
    have msg: "[msg] = numbered (mf_seq_num f) [ts ! j]" and f1': "f1 = ?f0\<lparr>mf_seq_num := mf_seq_num f + 1\<rparr>"
      using f1 by (simp_all add: formatMarketData_def)
    obtain q where q: "spsc_push 20 (mf_queue f1) msg = Some (q, True)" "spsc_inv 20 q"
      "spsc_contents 20 q = spsc_contents 20 (mf_queue f) @ [msg]"
      using sq.push_accept [OF Suc.prems(5), of msg] Suc.prems(6) f1' by auto
    let ?f2 = "f1\<lparr>mf_queue := q\<rparr>"
    have "\<exists>f'. read_ring ring i n ?f2 = Some f' \<and> spsc_inv 20 (mf_queue f') \<and>
      spsc_contents 20 (mf_queue f') = spsc_contents 20 (mf_queue ?f2) @ numbered (mf_seq_num ?f2) (take n (drop (j + 1) ts)) \<and>
      mf_seq_num f' = mf_seq_num ?f2 + of_nat (min n (length ts - (j + 1))) \<and>
      (\<exists>h. handle_at h (min (j + 1 + n) (length ts)) \<and> mf_trb_vec f' = (mf_trb_vec ?f2)[i := h])"
      by (rule Suc.IH) (use True h1 q Suc.prems f1' in simp_all)
    moreover have "take (Suc n) (drop j ts) = ts ! j # take n (drop (j + 1) ts)" using True by (simp flip: Cons_nth_drop_Suc)
    moreover have "min (Suc n) (length ts - j) = Suc (min n (length ts - (j + 1)))" using True by simp
    ultimately show ?thesis using new True get f1 q msg f1' by (auto simp: algebra_simps)
  qed
qed

section \<open>Properties of the market feed\<close>

text \<open>
  Packing loses and reorders nothing: one pass of the sender takes up to \<open>64 * 23\<close> messages from the queue, and the
  datagrams are those messages cut into pieces of 23 (the last one may be shorter), the TCP buffer the same messages in a row. The packing
  loops with their early exit and their tail correction compute exactly the reference \<open>chunks\<close>.
\<close>

theorem packing_is_chunking:
  assumes "spsc_inv 20 q" "spsc_contents 20 q = msgs"
  shows "\<exists>q'. pack_batch q = Some (q', chunks 23 (take 1472 msgs), take 1472 msgs) \<and> spsc_contents 20 q' = drop 1472 msgs \<and>
    concat (chunks 23 (take 1472 msgs)) = take 1472 msgs"
proof -
  have c: "concat (chunks k xs) = (if k = 0 then [] else xs)" for k and xs :: "'a list"
  proof (induction k xs rule: chunks.induct)
    case (1 k xs)
    then show ?case by (cases "xs = [] \<or> k = 0") (auto simp: chunks.simps [of k xs])
  qed
  show ?thesis using pack_batch_ok [OF assms(1)] assms(2) by (auto simp: batch_capacity_def msg_per_packet_def c)
qed

definition demo_message :: "u64 \<Rightarrow> MarketDataMessage" where
  "demo_message n = \<lparr>md_trade_id = 7, md_timestamp_ns = 0, md_price = 100, md_symbol_id = 5, md_quantity = 10, md_seq_num = n\<rparr>"

theorem packing_is_chunking_witness:
  "\<exists>q q'. spsc_push 20 (spsc_new (\<lambda>_. demo_message 0)) (demo_message 3) = Some (q, True) \<and>
    pack_batch q = Some (q', [[demo_message 3]], [demo_message 3])"
proof -
  let ?q = "spsc_new (\<lambda>_. demo_message 0)"
  obtain q where q: "spsc_push 20 ?q (demo_message 3) = Some (q, True)" "spsc_inv 20 q" "spsc_contents 20 q = [demo_message 3]"
    using sq.push_accept [OF spsc_inv_new(1) [of 20 "\<lambda>_. demo_message 0"], of "demo_message 3"] spsc_inv_new(2) [of 20 "\<lambda>_. demo_message 0"] by auto
  have "chunks 23 [demo_message 3] = [[demo_message 3]]" by (simp add: chunks.simps)
  then show ?thesis using packing_is_chunking [OF q(2,3)] q(1) by auto
qed

text \<open>A pass of the reader over both rings.\<close>

lemma feed_pass_ok:
  assumes "\<forall>i < 2. ring_holds (rings i) (ts i) \<and> handle_at (mf_trb_vec f ! i) (j i) \<and> j i \<le> length (ts i) \<and>
      length (ts i) \<le> j i + 2 ^ 20 \<and> length (ts i) + 3 < 2 ^ 21"
    "length (mf_trb_vec f) = 2" "spsc_inv 20 (mf_queue f)" "length (spsc_contents 20 (mf_queue f)) + 20 < 2 ^ 20"
  shows "\<exists>f'. readThread_pass rings True f = Some f' \<and> spsc_contents 20 (mf_queue f') = spsc_contents 20 (mf_queue f) @
      numbered (mf_seq_num f) (take 10 (drop (j 0) (ts 0)) @ take 10 (drop (j 1) (ts 1))) \<and>
    mf_seq_num f' = mf_seq_num f + of_nat (min 10 (length (ts 0) - j 0) + min 10 (length (ts 1) - j 1)) \<and>
    spsc_inv 20 (mf_queue f') \<and> length (mf_trb_vec f') = 2 \<and> (\<forall>i < 2. handle_at (mf_trb_vec f' ! i) (min (j i + 10) (length (ts i))))"
proof -
  have r: "ring_holds (rings i) (ts i)" "handle_at (mf_trb_vec f ! i) (j i)" "j i \<le> length (ts i)" "length (ts i) \<le> j i + 2 ^ 20"
    "length (ts i) + 3 < 2 ^ 21" if "i < 2" for i using assms(1) that by blast+
  have g: "[0..<GROUP_COUNT] = [0, 1]" by (simp add: GROUP_COUNT_def numeral_2_eq_2)
  obtain f1 h where f1: "read_ring (rings 0) 0 10 f = Some f1" "spsc_inv 20 (mf_queue f1)"
    "spsc_contents 20 (mf_queue f1) = spsc_contents 20 (mf_queue f) @ numbered (mf_seq_num f) (take 10 (drop (j 0) (ts 0)))"
    "mf_seq_num f1 = mf_seq_num f + of_nat (min 10 (length (ts 0) - j 0))" "mf_trb_vec f1 = (mf_trb_vec f)[0 := h]"
    "handle_at h (min (j 0 + 10) (length (ts 0)))"
    using read_ring_ok [OF r(1) [of 0] r(2) [of 0] r(3) [of 0] r(4) [of 0] r(5) [of 0], of 10] assms(2-4) by auto
  have h1: "handle_at (mf_trb_vec f1 ! 1) (j 1)" using r(2) [of 1] f1(5) by simp
  obtain f2 h2 where f2: "read_ring (rings 1) 1 10 f1 = Some f2"
    "spsc_contents 20 (mf_queue f2) = spsc_contents 20 (mf_queue f1) @ numbered (mf_seq_num f1) (take 10 (drop (j 1) (ts 1)))"
    "mf_seq_num f2 = mf_seq_num f1 + of_nat (min 10 (length (ts 1) - j 1))"
    "spsc_inv 20 (mf_queue f2)" "mf_trb_vec f2 = (mf_trb_vec f1)[1 := h2]" "handle_at h2 (min (j 1 + 10) (length (ts 1)))"
  proof -
    have "length (spsc_contents 20 (mf_queue f1)) + 10 < 2 ^ 20" using assms(4) f1(3) by simp
    then show thesis
      using read_ring_ok [OF r(1) [of 1] h1 r(3) [of 1] r(4) [of 1] r(5) [of 1] _ f1(2), of 10] assms(2) f1(5) that by auto
  qed
  have "readThread_pass rings True f = Some f2" using f1(1,5) f2(1) assms(2) by (simp add: readThread_pass_def g)
  moreover have "length (take 10 (drop (j 0) (ts 0))) = min 10 (length (ts 0) - j 0)" by simp
  moreover have "\<forall>i < 2. handle_at (mf_trb_vec f2 ! i) (min (j i + 10) (length (ts i)))"
    using f1(5,6) f2(5,6) assms(2) by (auto simp: less_2_cases_iff)
  ultimately show ?thesis using f1(3-5) f2(2-5) assms(2) by (simp add: numbered_append algebra_simps)
qed

text \<open>
  The feed numbers the trades without gaps: when the reader has read \<open>j i\<close> trades of each ring and its queue has room, a
  pass appends up to ten new trades of each ring, in the order of the rings, with consecutive sequence numbers.
\<close>

theorem feed_numbers_trades:
  assumes "\<forall>i < 2. ring_holds (rings i) (ts i) \<and> handle_at (mf_trb_vec f ! i) (j i) \<and> j i \<le> length (ts i) \<and>
      length (ts i) \<le> j i + 2 ^ 20 \<and> length (ts i) + 3 < 2 ^ 21"
    "length (mf_trb_vec f) = 2" "spsc_inv 20 (mf_queue f)" "length (spsc_contents 20 (mf_queue f)) + 20 < 2 ^ 20"
  shows "\<exists>f'. readThread_pass rings True f = Some f' \<and> spsc_contents 20 (mf_queue f') = spsc_contents 20 (mf_queue f) @
      numbered (mf_seq_num f) (take 10 (drop (j 0) (ts 0)) @ take 10 (drop (j 1) (ts 1))) \<and>
    mf_seq_num f' = mf_seq_num f + of_nat (min 10 (length (ts 0) - j 0) + min 10 (length (ts 1) - j 1))"
  using feed_pass_ok [OF assms] by blast

theorem feed_numbers_trades_witness:
  "\<exists>ring h f'. publish_all (zero_ring, trade_ring_buffer_new True 0) [zero_trade\<lparr>t_price := 7\<rparr>] = (ring, h) \<and>
    readThread_pass (\<lambda>i. if i = 0 then ring else zero_ring) True (MarketFeedReader_new (\<lambda>_. demo_message 0)) = Some f' \<and>
    map md_price (spsc_contents 20 (mf_queue f')) = [7] \<and> map md_seq_num (spsc_contents 20 (mf_queue f')) = [0]"
proof -
  let ?f = "MarketFeedReader_new (\<lambda>_. demo_message 0)" and ?t = "zero_trade\<lparr>t_price := 7\<rparr>"
  obtain ring h where p: "publish_all (zero_ring, trade_ring_buffer_new True 0) [?t] = (ring, h)" by fastforce
  have holds: "ring_holds ring [?t]"
    using publish_all_ok [of "trade_ring_buffer_new True 0" "[]" zero_ring "[?t]" ring h] p handle_at_new ring_holds_zero by simp
  have g: "[0..<GROUP_COUNT] = [0, 1]" by (simp add: GROUP_COUNT_def numeral_2_eq_2)
  have hyp: "\<forall>i < 2. ring_holds ((\<lambda>i. if i = 0 then ring else zero_ring) i) ((\<lambda>i. if i = 0 then [?t] else []) i) \<and>
      handle_at (mf_trb_vec ?f ! i) 0 \<and> 0 \<le> length ((\<lambda>i. if i = 0 then [?t] else []) i) \<and>
      length ((\<lambda>i. if i = (0 :: nat) then [?t] else []) i) \<le> 0 + 2 ^ 20 \<and> length ((\<lambda>i. if i = (0 :: nat) then [?t] else []) i) + 3 < 2 ^ 21"
    using holds ring_holds_zero handle_at_new by (auto simp: less_2_cases_iff MarketFeedReader_new_def g)
  have q: "length (mf_trb_vec ?f) = 2" "spsc_inv 20 (mf_queue ?f)" "spsc_contents 20 (mf_queue ?f) = []" "mf_seq_num ?f = 0"
    using spsc_inv_new [of 20 "\<lambda>_. demo_message 0"] by (simp_all add: MarketFeedReader_new_def g)
  show ?thesis using feed_numbers_trades [OF hyp q(1,2)] q(3,4) p by auto
qed

end
