(* ===== verification/Feed_Process.thy ===== *)
theory Feed_Process
  imports Market_Feed State_Machine
begin

text \<open>
  The feed process: the sender's loop around \<open>sendThread_pass\<close>, the two threads of \<^verbatim>\<open>src/src/live_mfr.cpp\<close> interleaved pass by pass, and what goes out on the wire over a whole run,
  full queues and failing sends included.
\<close>

section \<open>The sender's loop\<close>

text \<open>
  \<open>sendThread\<close> after the retransmitter has connected; \<open>inputs\<close> are the results of \<open>sendmmsg\<close> and \<open>send\<close>, pass by pass. The result has the datagrams and the bytes that went
  out; \<open>None\<close> when the inputs run out before the thread ends.
\<close>

fun sendThread :: "(send_result list \<times> send_result list) list \<Rightarrow> u8 list \<Rightarrow> MarketFeedReader \<Rightarrow>
    (MarketFeedReader \<times> MarketDataMessage list list \<times> u8 list) option" where
  "sendThread inputs pad f = (if mf_done f \<and> spsc_empty (mf_queue f) then Some (f, [], [])
     else case inputs of [] \<Rightarrow> None | (udp, tcp) # rest \<Rightarrow> do {
       (f1, out, bytes, go_on) \<leftarrow> sendThread_pass udp tcp pad f;
       if go_on then do { (f2, outs, stream) \<leftarrow> sendThread rest pad f1; Some (f2, out @ outs, bytes @ stream) }
       else Some (f1, out, bytes)
     })"

declare sendThread.simps [simp del]

section \<open>The process\<close>

text \<open>A step is a pass of one of the threads; \<open>flag\<close> is what the reader sees of the running flag. A thread that has ended makes no more steps.\<close>

datatype feed_event = ReaderPass "nat \<Rightarrow> trade_ring" bool | SenderPass "send_result list" "send_result list" "u8 list"

record feed_process =
  fp_feed :: MarketFeedReader
  fp_sending :: bool
  fp_datagrams :: "MarketDataMessage list list"

definition feed_step :: "feed_event \<Rightarrow> feed_process \<Rightarrow> feed_process option" where
  "feed_step e s = (case e of
     ReaderPass rings flag \<Rightarrow> if mf_done (fp_feed s) then None else map_option (\<lambda>f. s\<lparr>fp_feed := f\<rparr>) (readThread_pass rings flag (fp_feed s))
   | SenderPass udp tcp pad \<Rightarrow> if \<not> fp_sending s then None else
       map_option (\<lambda>(f, out, _, go_on). s\<lparr>fp_feed := f, fp_datagrams := fp_datagrams s @ out, fp_sending := go_on\<rparr>)
         (sendThread_pass udp tcp pad (fp_feed s)))"

definition feed_start :: "(u64 \<Rightarrow> MarketDataMessage) \<Rightarrow> feed_process" where
  "feed_start mem = \<lparr>fp_feed = MarketFeedReader_new mem, fp_sending = True, fp_datagrams = []\<rparr>"

text \<open>\<^verbatim>\<open>live_mfr.cpp\<close>: the flag is a local variable of \<open>main\<close> that nothing clears.\<close>

definition live_flag :: "feed_process \<Rightarrow> feed_event \<Rightarrow> bool" where
  "live_flag s e \<longleftrightarrow> (case e of ReaderPass rings flag \<Rightarrow> flag | SenderPass udp tcp pad \<Rightarrow> True)"

section \<open>The order on the wire\<close>

text \<open>Messages whose numbers are strictly increasing and below \<open>k\<close>.\<close>

definition increasing :: "nat \<Rightarrow> MarketDataMessage list \<Rightarrow> bool" where
  "increasing k ms \<longleftrightarrow> (\<exists>ns. map md_seq_num ms = map of_nat ns \<and> sorted_wrt (<) ns \<and> (\<forall>n \<in> set ns. n < k))"

lemma increasing_Nil [simp]: "increasing k []"
  by (simp add: increasing_def)

lemma increasing_mono: "increasing k ms \<Longrightarrow> k \<le> k' \<Longrightarrow> increasing k' ms"
  unfolding increasing_def by (meson less_le_trans)

lemma increasing_snoc:
  assumes "increasing k ms" "md_seq_num m = of_nat k"
  shows "increasing (Suc k) (ms @ [m])"
proof -
  obtain ns where "map md_seq_num ms = map of_nat ns" "sorted_wrt (<) ns" "\<forall>n \<in> set ns. n < k" using assms(1) by (auto simp: increasing_def)
  then show ?thesis unfolding increasing_def using assms(2) by (intro exI [of _ "ns @ [k]"]) (auto simp: sorted_wrt_append intro: less_SucI)
qed

lemma increasing_prefix:
  assumes "increasing k (ms @ ms')" shows "increasing k ms"
proof -
  obtain ns where ns: "map md_seq_num (ms @ ms') = map of_nat ns" "sorted_wrt (<) ns" "\<forall>n \<in> set ns. n < k" using assms by (auto simp: increasing_def)
  have "map md_seq_num ms = take (length ms) (map md_seq_num (ms @ ms'))" by simp
  also have "\<dots> = map of_nat (take (length ms) ns)" unfolding ns(1) by (rule take_map)
  finally show ?thesis unfolding increasing_def using ns(2,3) by (intro exI [of _ "take (length ms) ns"]) (auto simp: sorted_wrt_take dest: in_set_takeD)
qed

lemma increasing_strict:
  assumes "increasing k ms" "k \<le> 2 ^ 64"
  shows "sorted_wrt (<) (map md_seq_num ms)"
proof -
  obtain ns where ns: "map md_seq_num ms = map of_nat ns" "sorted_wrt (<) ns" "\<forall>n \<in> set ns. n < k" using assms(1) by (auto simp: increasing_def)
  have "unat (of_nat n :: u64) = n" if "n < k" for n using that assms(2) by (simp add: unat_of_nat)
  then have "\<forall>x \<in> set ns. \<forall>y \<in> set ns. x < y \<longrightarrow> (of_nat x :: u64) < of_nat y" using ns(3) by (simp add: word_less_nat_alt)
  then have "sorted_wrt (\<lambda>x y. (of_nat x :: u64) < of_nat y) ns" by (intro sorted_wrt_mono_rel [OF _ ns(2)]) blast
  then have "sorted_wrt (<) (map (of_nat :: nat \<Rightarrow> u64) ns)" by (simp add: sorted_wrt_map)
  then show ?thesis unfolding ns(1) .
qed

text \<open>Reading only ever appends messages with new numbers; a full queue drops some.\<close>

definition appends :: "nat \<Rightarrow> MarketFeedReader \<Rightarrow> MarketFeedReader \<Rightarrow> bool" where
  "appends n f f' \<longleftrightarrow> spsc_inv 20 (mf_queue f') \<and> mf_done f' = mf_done f \<and> (\<exists>d \<le> n. mf_seq_num f' = mf_seq_num f + of_nat d \<and>
     (\<forall>k pre. mf_seq_num f = of_nat k \<longrightarrow> increasing k (pre @ spsc_contents 20 (mf_queue f)) \<longrightarrow>
       increasing (k + d) (pre @ spsc_contents 20 (mf_queue f'))))"

lemma appends_refl: "spsc_inv 20 (mf_queue f) \<Longrightarrow> appends n f f"
  unfolding appends_def by (auto intro: exI [of _ 0])

lemma appends_trans:
  assumes "appends m f g" "appends n g h"
  shows "appends (m + n) f h"
proof -
  obtain d where d: "d \<le> m" "mf_seq_num g = mf_seq_num f + of_nat d" "\<And>k pre. mf_seq_num f = of_nat k \<Longrightarrow>
      increasing k (pre @ spsc_contents 20 (mf_queue f)) \<Longrightarrow> increasing (k + d) (pre @ spsc_contents 20 (mf_queue g))"
    using assms(1) by (auto simp: appends_def)
  obtain e where e: "e \<le> n" "mf_seq_num h = mf_seq_num g + of_nat e" "\<And>k pre. mf_seq_num g = of_nat k \<Longrightarrow>
      increasing k (pre @ spsc_contents 20 (mf_queue g)) \<Longrightarrow> increasing (k + e) (pre @ spsc_contents 20 (mf_queue h))"
    using assms(2) by (auto simp: appends_def)
  have "increasing (k + (d + e)) (pre @ spsc_contents 20 (mf_queue h))"
    if "mf_seq_num f = of_nat k" "increasing k (pre @ spsc_contents 20 (mf_queue f))" for k pre
    using e(3) [of "k + d" pre] d(2) d(3) [OF that] that(1) by (simp add: add.assoc)
  then show ?thesis unfolding appends_def using assms d(1,2) e(1,2) by (auto simp: appends_def intro!: exI [of _ "d + e"])
qed

lemma read_ring_appends:
  "read_ring ring i n f = Some f' \<Longrightarrow> spsc_inv 20 (mf_queue f) \<Longrightarrow> appends n f f'"
proof (induction n arbitrary: f)
  case 0
  then show ?case by (simp add: appends_refl)
next
  case (Suc n)
  show ?case
  proof (cases "any_new_trade ring (mf_trb_vec f ! i)")
    case False
    then show ?thesis using Suc.prems by (simp add: appends_refl)
  next
    case True
    then obtain h trade where get: "get_trade ring (mf_trb_vec f ! i) = Some (h, trade)" using Suc.prems(1) by (auto split: bind_splits)
    define f1 where "f1 = fst (formatMarketData (f\<lparr>mf_trb_vec := (mf_trb_vec f)[i := h]\<rparr>) trade)"
    define msg where "msg = snd (formatMarketData (f\<lparr>mf_trb_vec := (mf_trb_vec f)[i := h]\<rparr>) trade)"
    have f1: "mf_queue f1 = mf_queue f" "mf_done f1 = mf_done f" "mf_seq_num f1 = mf_seq_num f + 1" "md_seq_num msg = mf_seq_num f"
      by (simp_all add: f1_def msg_def formatMarketData_def)
    obtain q ok where q: "spsc_push 20 (mf_queue f) msg = Some (q, ok)" "spsc_inv 20 q"
      "spsc_contents 20 q = (if ok then spsc_contents 20 (mf_queue f) @ [msg] else spsc_contents 20 (mf_queue f))"
      using sq.push_total [OF Suc.prems(2), of msg] by metis
    have rest: "read_ring ring i n (f1\<lparr>mf_queue := q\<rparr>) = Some f'"
      using Suc.prems(1) True get q(1) f1(1) by (simp add: f1_def msg_def Let_def split: prod.splits)
    have "appends 1 f (f1\<lparr>mf_queue := q\<rparr>)"
      unfolding appends_def
    proof (intro conjI allI impI)
      have "increasing (k + 1) (pre @ spsc_contents 20 q)"
        if k: "mf_seq_num f = of_nat k" "increasing k (pre @ spsc_contents 20 (mf_queue f))" for k pre
        using increasing_snoc [OF k(2), of msg] increasing_mono [OF k(2), of "Suc k"] f1(4) k(1) q(3) by simp
      then show "\<exists>d \<le> 1. mf_seq_num (f1\<lparr>mf_queue := q\<rparr>) = mf_seq_num f + of_nat d \<and> (\<forall>k pre. mf_seq_num f = of_nat k \<longrightarrow>
          increasing k (pre @ spsc_contents 20 (mf_queue f)) \<longrightarrow> increasing (k + d) (pre @ spsc_contents 20 (mf_queue (f1\<lparr>mf_queue := q\<rparr>))))"
        using f1(3) by (intro exI [of _ 1]) simp
    qed (use f1(2) q(2) in simp_all)
    from appends_trans [OF this Suc.IH [OF rest]] q(2) show ?thesis by simp
  qed
qed

lemma read_rings_appends:
  "read_rings rings gs f = Some f' \<Longrightarrow> spsc_inv 20 (mf_queue f) \<Longrightarrow> appends (10 * length gs) f f'"
proof (induction gs arbitrary: f)
  case Nil
  then show ?case by (simp add: appends_refl)
next
  case (Cons g gs)
  obtain f1 where f1: "read_ring (rings g) g 10 f = Some f1" "read_rings rings gs f1 = Some f'"
    using Cons.prems(1) by (auto split: if_splits bind_splits)
  have a: "appends 10 f f1" by (rule read_ring_appends [OF f1(1) Cons.prems(2)])
  then have "spsc_inv 20 (mf_queue f1)" by (simp add: appends_def)
  from appends_trans [OF a Cons.IH [OF f1(2) this]] show ?case by simp
qed

lemma reader_pass_appends:
  assumes "readThread_pass rings True f = Some f'" "spsc_inv 20 (mf_queue f)"
  shows "appends 20 f f'"
proof -
  have "10 * length [0..<GROUP_COUNT] = 20" by (simp add: GROUP_COUNT_def)
  then show ?thesis using read_rings_appends [of rings "[0..<GROUP_COUNT]" f f'] assms by (simp add: readThread_pass_def del: length_upt)
qed

text \<open>A pass of the sender takes a piece off the front of the queue; what goes out is a front of that piece, all of it if the thread goes on.\<close>

lemma concat_chunks: "0 < k \<Longrightarrow> concat (chunks k xs) = xs"
proof (induction k xs rule: chunks.induct)
  case (1 k xs)
  then show ?case by (cases "xs = []") (auto simp: chunks.simps [of k xs])
qed

lemma send_packets_prefix:
  "send_packets results xs = Some (out, ok) \<Longrightarrow> \<exists>rest. xs = out @ rest \<and> (ok \<longrightarrow> rest = [])"
proof (induction results xs arbitrary: out rule: send_packets.induct)
  case (3 n results x xs)
  obtain out1 where o1: "send_packets results (drop n (x # xs)) = Some (out1, ok)" "out = take n (x # xs) @ out1"
    using "3.prems" by (auto split: option.splits)
  obtain rest where "drop n (x # xs) = out1 @ rest" "ok \<longrightarrow> rest = []" using "3.IH" [OF o1(1)] by blast
  then have "x # xs = out @ rest" using append_take_drop_id [of n "x # xs"] o1(2) by simp
  then show ?case using \<open>ok \<longrightarrow> rest = []\<close> by blast
qed auto

lemma sender_pass_takes:
  assumes "sendThread_pass udp tcp pad f = Some (f', out, bytes, go_on)" "spsc_inv 20 (mf_queue f)"
  shows "\<exists>rest. spsc_contents 20 (mf_queue f) = concat out @ rest @ spsc_contents 20 (mf_queue f') \<and> (go_on \<longrightarrow> rest = []) \<and>
    spsc_inv 20 (mf_queue f') \<and> mf_seq_num f' = mf_seq_num f \<and> mf_done f' = mf_done f"
proof (cases "mf_done f \<and> spsc_empty (mf_queue f)")
  case True
  then show ?thesis using assms by (simp add: sendThread_pass_def)
next
  case False
  let ?ms = "take (batch_capacity * msg_per_packet) (spsc_contents 20 (mf_queue f))"
  obtain q where q: "pack_batch (mf_queue f) = Some (q, chunks msg_per_packet ?ms, ?ms)" "spsc_inv 20 q"
    "spsc_contents 20 q = drop (batch_capacity * msg_per_packet) (spsc_contents 20 (mf_queue f))"
    using pack_batch_ok [OF assms(2)] by blast
  have all: "spsc_contents 20 (mf_queue f) = ?ms @ spsc_contents 20 q" by (simp add: q(3))
  have cc: "concat (chunks msg_per_packet ?ms) = ?ms" by (rule concat_chunks) (simp add: msg_per_packet_def)
  have f': "f' = f\<lparr>mf_queue := q\<rparr>"
    using assms(1) False q(1) by (auto simp: sendThread_pass_def Let_def split: if_splits bind_splits)
  show ?thesis
  proof (cases "chunks msg_per_packet ?ms = []")
    case True
    then have "?ms = []" using cc by simp
    moreover have "out = []" using True assms(1) False q(1) by (simp add: sendThread_pass_def Let_def)
    ultimately show ?thesis using q all f' by auto
  next
    case ne: False
    then obtain ok where ok: "send_packets udp (chunks msg_per_packet ?ms) = Some (out, ok)" "go_on \<longrightarrow> ok"
      using assms(1) False q(1) by (auto simp: sendThread_pass_def Let_def split: if_splits bind_splits)
    obtain rest where "chunks msg_per_packet ?ms = out @ rest" "ok \<longrightarrow> rest = []" using send_packets_prefix [OF ok(1)] by blast
    then have "?ms = concat out @ concat rest" "go_on \<longrightarrow> concat rest = []" using cc ok(2) by (metis concat_append, auto)
    then show ?thesis using q(2) all f' by (intro exI [of _ "concat rest"]) (simp add: q(3))
  qed
qed

definition wire_inv :: "nat \<Rightarrow> feed_process \<Rightarrow> bool" where
  "wire_inv c s \<longleftrightarrow> spsc_inv 20 (mf_queue (fp_feed s)) \<and> (\<exists>k \<le> c. mf_seq_num (fp_feed s) = of_nat k \<and> increasing k (concat (fp_datagrams s)) \<and>
     (fp_sending s \<longrightarrow> increasing k (concat (fp_datagrams s) @ spsc_contents 20 (mf_queue (fp_feed s)))))"

lemma wire_inv_step:
  assumes "wire_inv c s" "feed_step e s = Some s'"
  shows "wire_inv (c + 20) s'"
proof -
  obtain k where k: "k \<le> c" "mf_seq_num (fp_feed s) = of_nat k" "increasing k (concat (fp_datagrams s))"
    "fp_sending s \<longrightarrow> increasing k (concat (fp_datagrams s) @ spsc_contents 20 (mf_queue (fp_feed s)))" and inv: "spsc_inv 20 (mf_queue (fp_feed s))"
    using assms(1) by (auto simp: wire_inv_def)
  show ?thesis
  proof (cases e)
    case (ReaderPass rings flag)
    then obtain f where f: "readThread_pass rings flag (fp_feed s) = Some f" "s' = s\<lparr>fp_feed := f\<rparr>"
      using assms(2) by (auto simp: feed_step_def split: if_splits)
    show ?thesis
    proof (cases flag)
      case True
      then have a: "appends 20 (fp_feed s) f" using reader_pass_appends [of rings "fp_feed s" f] f(1) inv by simp
      then obtain d where d: "d \<le> 20" "mf_seq_num f = of_nat (k + d)"
        "fp_sending s \<longrightarrow> increasing (k + d) (concat (fp_datagrams s) @ spsc_contents 20 (mf_queue f))"
        using k(2,4) by (auto simp: appends_def)
      moreover have "increasing (k + d) (concat (fp_datagrams s))" by (rule increasing_mono [OF k(3)]) simp
      moreover have "spsc_inv 20 (mf_queue f)" using a by (simp add: appends_def)
      ultimately show ?thesis using k(1) f(2) unfolding wire_inv_def by (auto intro!: exI [of _ "k + d"])
    next
      case False
      then have "f = (fp_feed s)\<lparr>mf_done := True\<rparr>" using f(1) by (simp add: readThread_pass_def)
      then show ?thesis using k inv f(2) by (auto simp: wire_inv_def intro!: exI [of _ k])
    qed
  next
    case (SenderPass udp tcp pad)
    then obtain f out bytes go_on where f: "sendThread_pass udp tcp pad (fp_feed s) = Some (f, out, bytes, go_on)" "fp_sending s"
      "s' = s\<lparr>fp_feed := f, fp_datagrams := fp_datagrams s @ out, fp_sending := go_on\<rparr>"
      using assms(2) by (auto simp: feed_step_def split: if_splits)
    obtain rest where r: "spsc_contents 20 (mf_queue (fp_feed s)) = concat out @ rest @ spsc_contents 20 (mf_queue f)" "go_on \<longrightarrow> rest = []"
      "spsc_inv 20 (mf_queue f)" "mf_seq_num f = mf_seq_num (fp_feed s)"
      using sender_pass_takes [OF f(1) inv] by blast
    have "increasing k ((concat (fp_datagrams s) @ concat out) @ rest @ spsc_contents 20 (mf_queue f))" using k(4) f(2) r(1) by simp
    moreover from increasing_prefix [OF this] have "increasing k (concat (fp_datagrams s) @ concat out)" .
    ultimately show ?thesis using r k(1,2) f(3) by (auto simp: wire_inv_def intro!: exI [of _ k])
  qed
qed

lemma wire_inv_run: "run_steps ok feed_step es s = Some s' \<Longrightarrow> wire_inv c s \<Longrightarrow> wire_inv (c + 20 * length es) s'"
proof (induction es arbitrary: s c)
  case (Cons e es)
  then obtain s1 where s1: "feed_step e s = Some s1" "run_steps ok feed_step es s1 = Some s'"
    by (auto simp: bind_eq_Some_conv split: if_splits)
  from Cons.IH [OF s1(2) wire_inv_step [OF Cons.prems(2) s1(1)]] show ?case by (simp add: algebra_simps)
qed simp

lemma wire_inv_start: "wire_inv 0 (feed_start mem)"
  using spsc_inv_new [of 20 mem] by (simp add: wire_inv_def feed_start_def MarketFeedReader_new_def)

section \<open>Draining the queue\<close>

text \<open>The kernel takes everything it is given, in any portions; \<open>sendmmsg\<close> may be interrupted.\<close>

fun udp_takes :: "send_result list \<Rightarrow> nat \<Rightarrow> bool" where
  "udp_takes results 0 = True"
| "udp_takes (Sent k # results) n = (k \<le> n \<and> udp_takes results (n - k))"
| "udp_takes (Intr # results) n = udp_takes results n"
| "udp_takes _ n = False"

fun tcp_takes :: "send_result list \<Rightarrow> nat \<Rightarrow> bool" where
  "tcp_takes results 0 = True"
| "tcp_takes (Sent k # results) n = (k \<le> n \<and> tcp_takes results (n - k))"
| "tcp_takes _ n = False"

text \<open>Enough passes for \<open>n\<close> messages.\<close>

fun passes_take :: "(send_result list \<times> send_result list) list \<Rightarrow> nat \<Rightarrow> bool" where
  "passes_take inputs 0 = True"
| "passes_take [] n = False"
| "passes_take ((udp, tcp) # inputs) n = (udp_takes udp ((min n 1472 + 22) div 23) \<and> tcp_takes tcp (64 * min n 1472) \<and> passes_take inputs (n - 1472))"

lemma send_packets_all: "udp_takes results (length xs) \<Longrightarrow> send_packets results xs = Some (xs, True)"
proof (induction results xs rule: send_packets.induct)
  case (3 n results x xs)
  then have "send_packets results (drop n (x # xs)) = Some (drop n (x # xs), True)" by (cases n) auto
  then show ?case using append_take_drop_id [of n "x # xs"] by simp
qed auto

lemma send_tcp_all: "tcp_takes results (length bs) \<Longrightarrow> send_tcp results bs = Some (bs, True)"
proof (induction results bs rule: send_tcp.induct)
  case (3 n results b bs)
  then have "send_tcp results (drop n (b # bs)) = Some (drop n (b # bs), True)" by (cases n) auto
  then show ?case using append_take_drop_id [of n "b # bs"] by simp
qed auto

lemma length_chunks: "0 < k \<Longrightarrow> length (chunks k xs) = (length xs + (k - 1)) div k"
proof (induction k xs rule: chunks.induct)
  case (1 k xs)
  show ?case
  proof (cases "xs = []")
    case False
    have "length (chunks k (drop k xs)) = (length (drop k xs) + (k - 1)) div k" by (rule 1(1)) (use False 1(2) in auto)
    moreover have "(length xs + (k - 1)) div k = Suc ((length xs - 1) div k)"
    proof -
      have "0 < length xs" using False by simp
      then have "k \<le> length xs + (k - 1)" "length xs + (k - 1) - k = length xs - 1" using 1(2) by linarith+
      then show ?thesis using le_div_geq [OF 1(2), of "length xs + (k - 1)"] by simp
    qed
    moreover have "(length xs - k + (k - 1)) div k = (length xs - 1) div k"
      using 1(2) by (cases "k \<le> length xs") simp_all
    ultimately show ?thesis using False 1(2) by (simp add: chunks.simps [of k xs])
  qed (use 1 in simp)
qed

lemma stream_bytes_length: "length pad = 24 \<Longrightarrow> length (concat (map (message_bytes pad) ms)) = 64 * length ms"
  by (induction ms) (simp_all add: message_bytes_def)

lemma sender_pass_drains:
  assumes "spsc_inv 20 (mf_queue f)" "spsc_contents 20 (mf_queue f) = ms" "ms \<noteq> []" "length pad = 24"
    "udp_takes udp ((min (length ms) 1472 + 22) div 23)" "tcp_takes tcp (64 * min (length ms) 1472)"
  shows "\<exists>q. sendThread_pass udp tcp pad f = Some (f\<lparr>mf_queue := q\<rparr>, chunks 23 (take 1472 ms), concat (map (message_bytes pad) (take 1472 ms)), True) \<and>
    spsc_inv 20 q \<and> spsc_contents 20 q = drop 1472 ms"
proof -
  obtain q where q: "pack_batch (mf_queue f) = Some (q, chunks 23 (take 1472 ms), take 1472 ms)" "spsc_inv 20 q" "spsc_contents 20 q = drop 1472 ms"
    using pack_batch_ok [OF assms(1)] assms(2) by (auto simp: batch_capacity_def msg_per_packet_def)
  have ne: "\<not> spsc_empty (mf_queue f)" using assms(2,3) by (auto simp: spsc_empty_def spsc_contents_def)
  have "length (chunks 23 (take 1472 ms)) = (min (length ms) 1472 + 22) div 23" using length_chunks [of 23 "take 1472 ms"] by (simp add: min.commute)
  then have udp: "send_packets udp (chunks 23 (take 1472 ms)) = Some (chunks 23 (take 1472 ms), True)" using send_packets_all assms(5) by metis
  have "length (concat (map (message_bytes pad) (take 1472 ms))) = 64 * min (length ms) 1472"
    using stream_bytes_length [OF assms(4), of "take 1472 ms"] by (simp add: min.commute)
  then have tcp: "send_tcp tcp (concat (map (message_bytes pad) (take 1472 ms))) = Some (concat (map (message_bytes pad) (take 1472 ms)), True)"
    using send_tcp_all assms(6) by metis
  have "chunks 23 (take 1472 ms) \<noteq> []" using assms(3) concat_chunks [of 23 "take 1472 ms"] by auto
  then have "sendThread_pass udp tcp pad f = Some (f\<lparr>mf_queue := q\<rparr>, chunks 23 (take 1472 ms), concat (map (message_bytes pad) (take 1472 ms)), True)"
    using ne q(1) udp tcp by (simp add: sendThread_pass_def Let_def)
  then show ?thesis using q(2,3) by blast
qed

lemma chunks_short: "p \<in> set (chunks k xs) \<Longrightarrow> length p \<le> k"
proof (induction k xs rule: chunks.induct)
  case (1 k xs)
  then show ?case by (cases "xs = [] \<or> k = 0") (auto simp: chunks.simps [of k xs])
qed

section \<open>Properties of the feed process\<close>

text \<open>
  C7. The feed never repeats or reorders: however the passes of the two threads interleave, and whatever the rings, the queue (full or not) and the kernel
  do, the messages in the datagrams of a run carry strictly increasing sequence numbers (up to the wrap-around of the counter).
\<close>

theorem feed_never_repeats:
  assumes "run_steps ok feed_step es (feed_start mem) = Some s" "20 * length es \<le> 2 ^ 64"
  shows "sorted_wrt (<) (map md_seq_num (concat (fp_datagrams s)))"
proof -
  obtain k where "k \<le> 20 * length es" "increasing k (concat (fp_datagrams s))"
    using wire_inv_run [OF assms(1) wire_inv_start] by (auto simp: wire_inv_def)
  then show ?thesis using increasing_strict assms(2) by (meson le_trans)
qed


text \<open>
  The feed as \<^verbatim>\<open>live_mfr.cpp\<close> starts it never ends: the reader never sees a cleared flag, so it never sets \<open>done\<close>, and \<open>main\<close> waits for it in \<open>join\<close>.
\<close>

theorem live_feed_never_done:
  assumes "run_steps live_flag feed_step es (feed_start mem) = Some s"
  shows "\<not> mf_done (fp_feed s)"
proof -
  have "step_invariant live_flag feed_step (\<lambda>s. spsc_inv 20 (mf_queue (fp_feed s)) \<and> \<not> mf_done (fp_feed s))"
  proof
    fix s e s' assume s: "spsc_inv 20 (mf_queue (fp_feed s)) \<and> \<not> mf_done (fp_feed s)" "live_flag s e" "feed_step e s = Some s'"
    show "spsc_inv 20 (mf_queue (fp_feed s')) \<and> \<not> mf_done (fp_feed s')"
    proof (cases e)
      case (ReaderPass rings flag)
      then obtain f where "readThread_pass rings True (fp_feed s) = Some f" "s' = s\<lparr>fp_feed := f\<rparr>"
        using s by (auto simp: feed_step_def live_flag_def)
      then show ?thesis using reader_pass_appends [of rings "fp_feed s" f] s(1) by (simp add: appends_def)
    next
      case (SenderPass udp tcp pad)
      then obtain f out bytes go_on where "sendThread_pass udp tcp pad (fp_feed s) = Some (f, out, bytes, go_on)" "fp_feed s' = f"
        using s(3) by (auto simp: feed_step_def split: if_splits)
      then show ?thesis using sender_pass_takes [of udp tcp pad "fp_feed s" f out bytes go_on] s(1) by auto
    qed
  qed
  from step_invariant.run_inv [OF this assms] show ?thesis
    using spsc_inv_new [of 20 mem] by (simp add: feed_start_def MarketFeedReader_new_def)
qed

text \<open>A feed with one message waiting; the datagram goes out after an interruption, the stream in two portions.\<close>

lemma one_waiting:
  obtains q where "spsc_push 20 (spsc_new (\<lambda>_. demo_message 0)) (demo_message 5) = Some (q, True)" "spsc_inv 20 q" "spsc_contents 20 q = [demo_message 5]"
  using sq.push_accept [OF spsc_inv_new(1), of "\<lambda>_. demo_message 0" "demo_message 5"] by (auto simp: spsc_inv_new)


text \<open>The reader reads one trade of the first ring, and the sender sends it.\<close>

theorem feed_never_repeats_witness:
  "\<exists>ring s. run_steps (\<lambda>_ _. True) feed_step [ReaderPass (\<lambda>i. if i = 0 then ring else zero_ring) True, SenderPass [Sent 1] [Sent 64] (replicate 24 0)]
      (feed_start (\<lambda>_. demo_message 0)) = Some s \<and> length (concat (fp_datagrams s)) = 1 \<and> sorted_wrt (<) (map md_seq_num (concat (fp_datagrams s)))"
proof -
  let ?f = "MarketFeedReader_new (\<lambda>_. demo_message 0)" and ?t = "zero_trade\<lparr>t_price := 7\<rparr>"
  obtain ring h where p: "publish_all (zero_ring, trade_ring_buffer_new True 0) [?t] = (ring, h)" by fastforce
  have holds: "ring_holds ring [?t]"
    using publish_all_ok [of "trade_ring_buffer_new True 0" "[]" zero_ring "[?t]" ring h] p handle_at_new ring_holds_zero by simp
  have g: "[0..<GROUP_COUNT] = [0, 1]" by (simp add: GROUP_COUNT_def numeral_2_eq_2)
  let ?rings = "\<lambda>i. if i = 0 then ring else zero_ring" and ?ts = "\<lambda>i :: nat. if i = 0 then [?t] else []"
  have hyp: "\<forall>i < 2. ring_holds (?rings i) (?ts i) \<and> handle_at (mf_trb_vec ?f ! i) 0 \<and> 0 \<le> length (?ts i) \<and>
      length (?ts i) \<le> 0 + 2 ^ 20 \<and> length (?ts i) + 3 < 2 ^ 21"
    using holds ring_holds_zero handle_at_new by (auto simp: less_2_cases_iff MarketFeedReader_new_def g)
  have q: "length (mf_trb_vec ?f) = 2" "spsc_inv 20 (mf_queue ?f)" "spsc_contents 20 (mf_queue ?f) = []"
    using spsc_inv_new [of 20 "\<lambda>_. demo_message 0"] by (simp_all add: MarketFeedReader_new_def g)
  obtain f1 m where f1: "readThread_pass ?rings True ?f = Some f1" "spsc_contents 20 (mf_queue f1) = [m]"
    using feed_pass_ok [OF hyp q(1,2)] q(3) by auto
  have "appends 20 ?f f1" by (rule reader_pass_appends [OF f1(1) q(2)])
  then have inv: "spsc_inv 20 (mf_queue f1)" by (simp add: appends_def)
  have t: "udp_takes [Sent 1] ((min (length [m]) 1472 + 22) div 23)" "tcp_takes [Sent 64] (64 * min (length [m]) 1472)"
  proof -
    have e: "(min (length [m]) 1472 + 22) div 23 = 1" "64 * min (length [m]) 1472 = 64" by simp_all
    show "udp_takes [Sent 1] ((min (length [m]) 1472 + 22) div 23)" unfolding e by code_simp
    show "tcp_takes [Sent 64] (64 * min (length [m]) 1472)" unfolding e by code_simp
  qed
  obtain q' where "sendThread_pass [Sent 1] [Sent 64] (replicate 24 0) f1 =
      Some (f1\<lparr>mf_queue := q'\<rparr>, chunks 23 (take 1472 [m]), concat (map (message_bytes (replicate 24 0)) (take 1472 [m])), True)"
    using sender_pass_drains [OF inv f1(2) _ _ t, of "replicate 24 0"] by auto
  then obtain s where s: "run_steps (\<lambda>_ _. True) feed_step [ReaderPass ?rings True, SenderPass [Sent 1] [Sent 64] (replicate 24 0)]
      (feed_start (\<lambda>_. demo_message 0)) = Some s" "concat (fp_datagrams s) = [m]"
    using f1(1) concat_chunks [of 23 "[m]"] by (auto simp: feed_step_def feed_start_def MarketFeedReader_new_def)
  then show ?thesis using feed_never_repeats [OF s(1)] by (intro exI [of _ ring] exI [of _ s]) simp
qed

end
