(* ===== verification/Price_Memory.thy ===== *)
theory Price_Memory
  imports Oms_Progress Dispatcher State_Machine
begin

text \<open>
  The last traded prices as the engine and the order management system share them: the memory object \<^verbatim>\<open>/oms_market_data\<close> (constructor and destructor of the dispatcher in
  \<^verbatim>\<open>src/src/producer_consumer.cpp\<close>, constructor of \<open>OrderManagementSystem\<close> in \<^verbatim>\<open>src/src/oms.cpp\<close>), and the two programs interleaved over it: a trade of the engine
  fires the stops it reaches.
\<close>

section \<open>The memory object\<close>

text \<open>The objects made so far with their prices (none before \<open>ftruncate\<close>), and the object the name stands for.\<close>

record price_memory =
  pm_objects :: "MarketState list"
  pm_named :: "nat option"

text \<open>\<open>shm_open\<close> with \<open>O_CREAT\<close>; the flag says whether the call succeeds.\<close>

definition open_create :: "bool \<Rightarrow> price_memory \<Rightarrow> nat option \<times> price_memory" where
  "open_create ok m = (if \<not> ok then (None, m) else case pm_named m of
     Some k \<Rightarrow> (Some k, m)
   | None \<Rightarrow> (Some (length (pm_objects m)), m\<lparr>pm_objects := pm_objects m @ [[]], pm_named := Some (length (pm_objects m))\<rparr>))"

text \<open>\<open>ftruncate\<close> to the size of \<open>MarketState\<close> keeps what is there and fills with zeros.\<close>

definition set_size :: "nat \<Rightarrow> MarketState \<Rightarrow> MarketState" where
  "set_size n l = take n l @ replicate (n - length l) 0"

text \<open>
  The constructor of the dispatcher: the three system calls with their results, then the loop that zeroes the prices. It checks neither \<open>shm_open\<close> nor \<open>mmap\<close>, and goes on when \<open>ftruncate\<close> has failed:
  \<open>None\<close> is the access through a pointer that is not mapped, or past the end of the object.
\<close>

definition Dispatcher_map_prices :: "bool \<Rightarrow> bool \<Rightarrow> bool \<Rightarrow> price_memory \<Rightarrow> (nat \<times> price_memory) option" where
  "Dispatcher_map_prices open_ok trunc_ok map_ok m = (case open_create open_ok m of
     (None, m1) \<Rightarrow> None
   | (Some k, m1) \<Rightarrow>
      (let m2 = (if trunc_ok then m1\<lparr>pm_objects := (pm_objects m1)[k := set_size MAX_SYMBOLS (pm_objects m1 ! k)]\<rparr> else m1) in
       if map_ok \<and> MAX_SYMBOLS \<le> length (pm_objects m2 ! k)
       then Some (k, m2\<lparr>pm_objects := (pm_objects m2)[k := replicate MAX_SYMBOLS 0 @ drop MAX_SYMBOLS (pm_objects m2 ! k)]\<rparr>)
       else None))"

text \<open>The destructor removes the name; mappings of the object stay.\<close>

definition Dispatcher_unmap_prices :: "price_memory \<Rightarrow> price_memory" where
  "Dispatcher_unmap_prices m = m\<lparr>pm_named := None\<rparr>"

text \<open>The constructor of the order management system: \<open>shared_memory_ptr\<close> is null unless both calls succeed.\<close>

definition Oms_map_prices :: "bool \<Rightarrow> bool \<Rightarrow> price_memory \<Rightarrow> nat option" where
  "Oms_map_prices open_ok map_ok m = (if open_ok then (case pm_named m of None \<Rightarrow> None | Some k \<Rightarrow> if map_ok then Some k else None) else None)"

section \<open>Engine and order management system over the prices\<close>

record price_system =
  ps_memory :: price_memory
  ps_engine :: MatchingEngineDispatcher
  ps_engine_map :: nat
  ps_oms :: OrderManagementSystem
  ps_oms_map :: "nat option"

datatype price_event = Engine_takes Order | Engine_runs nat | Oms_takes ClientOrder | Oms_passes Order

definition price_start :: "bool \<Rightarrow> bool \<Rightarrow> bool \<Rightarrow> price_memory \<Rightarrow> MatchingEngineDispatcher \<Rightarrow> bool \<Rightarrow> bool \<Rightarrow> OrderManagementSystem \<Rightarrow>
    price_system option" where
  "price_start open_ok trunc_ok map_ok m d oms_open oms_map s = do {
     (k, m1) \<leftarrow> Dispatcher_map_prices open_ok trunc_ok map_ok m;
     Some \<lparr>ps_memory = m1, ps_engine = d, ps_engine_map = k, ps_oms = s, ps_oms_map = Oms_map_prices oms_open oms_map m1\<rparr>
   }"

text \<open>
  An event is an order handed to the dispatcher, a pass of a group's thread, an order of a client, or a pass of the order management system. The group's thread reads and writes the prices
  in the object the dispatcher has mapped, the pass of the order management system reads those in its own mapping, and the trades in the rings of the groups.
\<close>

definition price_step :: "(nat \<Rightarrow> u64) \<Rightarrow> price_event \<Rightarrow> price_system \<Rightarrow> price_system option" where
  "price_step clk e p = (let objects = pm_objects (ps_memory p); k = ps_engine_map p in case e of
     Engine_takes order \<Rightarrow> map_option (\<lambda>(d, _). p\<lparr>ps_engine := d\<rparr>) (try_dispatch (ps_engine p) order)
   | Engine_runs i \<Rightarrow> map_option (\<lambda>d. p\<lparr>ps_engine := d, ps_memory := (ps_memory p)\<lparr>pm_objects := objects[k := d_shared_ltp d]\<rparr>\<rparr>)
       (run_group i ((ps_engine p)\<lparr>d_shared_ltp := objects ! k\<rparr>))
   | Oms_takes c \<Rightarrow> map_option (\<lambda>(s, _). p\<lparr>ps_oms := s\<rparr>) (enqueueClientOrder (ps_oms p) c)
   | Oms_passes out \<Rightarrow> map_option (\<lambda>s. p\<lparr>ps_oms := s\<rparr>)
       (oms_pass clk out (\<lambda>i. g_ring (d_groups (ps_engine p) ! i)) (map_option (\<lambda>j. objects ! j) (ps_oms_map p)) (ps_oms p)))"

text \<open>What the runs are about: clients send orders the system can work with, and the engine gets orders that its groups can process.\<close>

definition group_ready :: "GroupProcessor \<Rightarrow> bool" where
  "group_ready g \<longleftrightarrow> wf_group g \<and> rb_inv (g_group_queue g) \<and> (\<forall>x \<in> set (take 1 (rb_contents (g_group_queue g))). order_ok g x)"

definition price_ok :: "price_system \<Rightarrow> price_event \<Rightarrow> bool" where
  "price_ok p e \<longleftrightarrow> (case e of
     Engine_runs i \<Rightarrow> i < length (d_groups (ps_engine p)) \<and> group_ready (d_groups (ps_engine p) ! i)
   | Oms_takes c \<Rightarrow> client_ok c
   | _ \<Rightarrow> True)"

lemma set_size_length [simp]: "length (set_size n l) = n" by (simp add: set_size_def)

lemma map_prices_ok:
  assumes "\<forall>j. pm_named m = Some j \<longrightarrow> j < length (pm_objects m)"
  obtains k m' where "Dispatcher_map_prices True True True m = Some (k, m')" "pm_named m' = Some k" "k < length (pm_objects m')"
    "pm_objects m' ! k = replicate MAX_SYMBOLS 0"
proof (cases "pm_named m")
  case None
  then show thesis by (intro that) (auto simp: Dispatcher_map_prices_def open_create_def Let_def nth_append set_size_def)
next
  case (Some j)
  let ?m = "m\<lparr>pm_objects := (pm_objects m)[j := replicate MAX_SYMBOLS 0]\<rparr>"
  show thesis
    by (rule that [of j ?m]) (use Some assms in \<open>simp_all add: Dispatcher_map_prices_def open_create_def Let_def\<close>)
qed

section \<open>What the runs keep\<close>

definition shares_prices :: "(nat \<Rightarrow> u64) \<Rightarrow> OrderManagementSystem \<Rightarrow> price_system \<Rightarrow> bool" where
  "shares_prices clk s0 p \<longleftrightarrow> ps_oms_map p = Some (ps_engine_map p) \<and> ps_engine_map p < length (pm_objects (ps_memory p)) \<and>
     length (pm_objects (ps_memory p) ! ps_engine_map p) = MAX_SYMBOLS \<and> oms_reach clk client_ok s0 (ps_oms p)"

text \<open>A pass of a group's thread with an order waiting, and the prices it leaves.\<close>

lemma group_step_order:
  assumes "group_ready g" "\<not> g_terminate_flag g" "rb_contents (g_group_queue g) = x # xs"
  obtains g' where "group_step (g\<lparr>g_shared_ltp := l\<rparr>) = Some (Inr g')"
    "(g_ring g', g_trade_buffer g') = publish_all (g_ring g, g_trade_buffer g) (order_trades g x)"
    "g_shared_ltp g' = (if order_trades g x = [] then l else l[unat (o_symbol_id x AND SYMBOL_MASK) := t_price (last (order_trades g x))])"
proof -
  have g: "rb_inv (g_group_queue g)" "wf_group g" "order_ok g x" using assms(1,3) by (simp_all add: group_ready_def)
  obtain q where q: "RingBuffer_pop (g_group_queue g) = Some (q, Some x)" using rb.pop_front [OF g(1) assms(3)] by blast
  let ?g = "g\<lparr>g_shared_ltp := l, g_group_queue := q\<rparr>"
  have ok: "wf_group ?g" "order_ok ?g x" using g(2,3) by (simp_all add: group_ltp_indep group_queue_indep)
  obtain g' where g': "process_order ?g x = Some (Inr g')" by (rule process_order_abs [OF ok])
  have ts: "order_trades ?g x = order_trades g x" by (simp add: order_trades_def group_spec_def group_ltp_indep group_queue_indep)
  have "group_step (g\<lparr>g_shared_ltp := l\<rparr>) = Some (Inr g')" using assms(2) q g' by (simp add: group_step_def)
  then show thesis by (rule that) (use published [OF ok g'] order_prices [OF ok g'] in \<open>simp_all add: ts\<close>)
qed

lemma group_step_length:
  assumes "group_ready g" "group_step (g\<lparr>g_shared_ltp := l\<rparr>) = Some (Inr g')" shows "length (g_shared_ltp g') = length l"
proof (cases "g_terminate_flag g")
  case False
  show ?thesis
  proof (cases "rb_contents (g_group_queue g)")
    case Nil
    obtain q msg where "RingBuffer_pop (g_group_queue g) = Some (q, msg)" "msg = None"
      using rb.pop_total [of "g_group_queue g"] Nil assms(1) by (metis group_ready_def)
    then show ?thesis using assms(2) False by (auto simp: group_step_def)
  next
    case (Cons x xs)
    show ?thesis by (rule group_step_order [OF assms(1) False Cons, of l]) (use assms(2) in \<open>simp split: if_splits\<close>)
  qed
qed (use assms(2) in \<open>auto simp: group_step_def\<close>)

lemma run_group_parts:
  "run_group i (d\<lparr>d_shared_ltp := l\<rparr>) = Some d' \<longleftrightarrow>
    (\<exists>g. group_step ((d_groups d ! i)\<lparr>g_shared_ltp := l\<rparr>) = Some (Inr g) \<and> d' = d\<lparr>d_groups := (d_groups d)[i := g], d_shared_ltp := g_shared_ltp g\<rparr>)"
  by (auto simp: run_group_def split: option.splits sum.splits)

interpretation prices: step_invariant price_ok "price_step clk" "shares_prices clk s0" for clk s0
proof unfold_locales
  fix p e p' assume inv: "shares_prices clk s0 p" and ok: "price_ok p e" and step: "price_step clk e p = Some p'"
  let ?objs = "pm_objects (ps_memory p)" and ?k = "ps_engine_map p"
  show "shares_prices clk s0 p'"
  proof (cases e)
    case (Engine_runs i)
    obtain g where g: "group_step ((d_groups (ps_engine p) ! i)\<lparr>g_shared_ltp := ?objs ! ?k\<rparr>) = Some (Inr g)"
      and p': "ps_memory p' = (ps_memory p)\<lparr>pm_objects := ?objs[?k := g_shared_ltp g]\<rparr>" "ps_engine_map p' = ?k" "ps_oms_map p' = ps_oms_map p" "ps_oms p' = ps_oms p"
      using step Engine_runs by (auto simp: price_step_def Let_def run_group_parts)
    have "length (g_shared_ltp g) = length (?objs ! ?k)"
      by (rule group_step_length [OF _ g]) (use ok Engine_runs in \<open>simp add: price_ok_def\<close>)
    then show ?thesis using inv p' by (simp add: shares_prices_def)
  next
    case (Oms_takes c)
    then show ?thesis using inv ok step oms_reach.enqueue [of clk client_ok s0 "ps_oms p" c]
      by (auto simp: price_step_def shares_prices_def price_ok_def)
  next
    case (Oms_passes out)
    then show ?thesis using inv step oms_reach.pass [of clk client_ok s0 "ps_oms p" out]
      by (auto simp: price_step_def shares_prices_def Let_def)
  qed (use inv step in \<open>auto simp: price_step_def shares_prices_def\<close>)
qed

section \<open>A pass that sees a new price\<close>

definition reached_stops :: "u64 \<Rightarrow> StopLossContainer \<Rightarrow> ClientOrder set" where
  "reached_stops p r = {c \<in> set (sell_stops r). p \<le> c_trigger_price c} \<union> {c \<in> set (buy_stops r). c_trigger_price c \<le> p}"

lemma reached_left: "reached_stops p (stops_left p r) = {}"
  by (auto simp: reached_stops_def stops_left_def)

lemma leg_seen: "process_iceberg_leg clk s child q = Some s' \<Longrightarrow> last_seen_price s' = last_seen_price s"
  by (auto simp: process_iceberg_leg_def Let_def send_slice_def getCurrentTimestamp_def split: option.splits if_splits)

lemma check_fill_seen: "check_fill clk s t = Some s' \<Longrightarrow> last_seen_price s' = last_seen_price s"
  by (auto simp: check_fill_def bind_eq_Some_conv split: if_splits dest!: leg_seen)

lemma poll_groups_seen: "poll_groups clk rings gs s = Some s' \<Longrightarrow> last_seen_price s' = last_seen_price s"
proof (induction gs arbitrary: s)
  case (Cons g gs)
  obtain h u where u: "poll_trades clk (rings g) (trade_consumers s ! g) s = Some (h, u)"
    "poll_groups clk rings gs (u\<lparr>trade_consumers := (trade_consumers u)[g := h]\<rparr>) = Some s'"
    using Cons.prems by (auto simp: bind_eq_Some_conv split: if_splits)
  have "last_seen_price (snd (h, u)) = last_seen_price s"
    by (rule poll_trades_keeps [where Q = "\<lambda>v. last_seen_price v = last_seen_price s", OF _ u(1)]) (simp_all add: check_fill_seen)
  then show ?case using Cons.IH [OF u(2)] by simp
qed simp

lemma handle_seen: "handle_client_order clk out s c = Some s' \<Longrightarrow> last_seen_price s' = last_seen_price s"
  by (erule handle_cases, simp, cases "c_execution_type c")
    (simp_all add: handle_market_eq handle_limit_eq registerStopLoss_def send_slice_def getCurrentTimestamp_def Let_def)

text \<open>An order that is handled before the scan only adds stops.\<close>

lemma handle_reached:
  assumes "handle_client_order clk out s c = Some s'"
  shows "reached_stops p (stop_loss_registry s k) \<subseteq> reached_stops p (stop_loss_registry s' k)"
  using assms
proof (cases rule: handle_cases)
  case (known symbol n)
  have "reached_stops p (stop_loss_registry s k) \<subseteq> reached_stops p (stop_loss_registry (registerStopLoss s n) k)"
    by (auto simp: registerStopLoss_def Let_def reached_stops_def)
  then show ?thesis using known(4) by (cases "c_execution_type c") simp_all
qed simp

text \<open>Sell stops and buy stops are kept apart.\<close>

definition stop_sides :: "OrderManagementSystem \<Rightarrow> bool" where
  "stop_sides s \<longleftrightarrow> (\<forall>k. (\<forall>c \<in> set (sell_stops (stop_loss_registry s k)). c_type c \<noteq> BUY) \<and> (\<forall>c \<in> set (buy_stops (stop_loss_registry s k)). c_type c = BUY))"

lemma stop_sides_cong: "stop_loss_registry s' = stop_loss_registry s \<Longrightarrow> stop_sides s' \<longleftrightarrow> stop_sides s"
  by (simp add: stop_sides_def)

lemma stop_sides_frame [simp]:
  "stop_sides (s\<lparr>active_icebergs := m\<rparr>) = stop_sides s" "stop_sides (s\<lparr>child_to_parent := cp\<rparr>) = stop_sides s"
  "stop_sides (s\<lparr>last_seen_price := l\<rparr>) = stop_sides s" "stop_sides (s\<lparr>incoming_orders := q\<rparr>) = stop_sides s"
  "stop_sides (s\<lparr>trade_consumers := hs\<rparr>) = stop_sides s" "stop_sides (s\<lparr>oms_shutdown := b\<rparr>) = stop_sides s"
  "stop_sides (handle_market clk out s c) = stop_sides s" "stop_sides (handle_limit clk out s c) = stop_sides s"
  "stop_sides (send_slice clk s i) = stop_sides s"
  by (rule stop_sides_cong, simp add: handle_market_eq handle_limit_eq send_slice_def getCurrentTimestamp_def Let_def)+

interpretation sides: oms_invariant clk "\<lambda>_. True" stop_sides for clk
proof unfold_locales
  show "stop_sides s'" if "stop_sides s" "trigger_order clk s c = Some s'" for s c s'
    using that stop_sides_cong [OF trigger_order_frame(1) [OF that(2)]] by simp
next
  show "stop_sides (registerStopLoss s c)" if "stop_sides s" for s c
    using that by (auto simp: stop_sides_def registerStopLoss_def Let_def)
next
  fix s k sells buys assume "stop_sides s" "suffix sells (sell_stops (stop_loss_registry s k))" "suffix buys (buy_stops (stop_loss_registry s k))"
  then show "stop_sides (s\<lparr>stop_loss_registry := (stop_loss_registry s)(k := \<lparr>sell_stops = sells, buy_stops = buys\<rparr>)\<rparr>)"
    using set_mono_suffix by (fastforce simp: stop_sides_def)
qed simp_all

lemma reach_sides:
  assumes "OrderManagementSystem_new clk blank cap csv = Some (Inr s0)" "0 < unat cap" "pow2_part (unat cap) \<le> 2 ^ 32" "oms_reach clk accept s0 s"
  shows "stop_sides s"
proof -
  have "stop_sides s0" using assms(1) by (auto elim!: oms_new_cases simp: stop_sides_def)
  then have "oms_ok (\<lambda>_. True) stop_sides s0" using oms_new_ok(1) [OF assms(1-3)] by (simp add: oms_ok_def)
  then show ?thesis using sides.reach_ok [OF oms_reach_mono [OF assms(4)]] by (simp add: oms_ok_def)
qed

lemma reached_gone:
  assumes "stop_sides s" "c \<in> reached_stops p (stop_loss_registry s k)" "stop_loss_registry s' k = stops_left p (stop_loss_registry s k)"
  shows "c \<in> stops_at s k" "c \<notin> stops_at s' k"
  using assms by (auto simp: stop_sides_def reached_stops_def stops_at_def stops_left_def)

lemma scan_fires:
  assumes "stops_inv s" "stop_sides s" "length l = MAX_SYMBOLS" "k < MAX_SYMBOLS" "l ! k \<noteq> last_seen_price s k"
    "scan_ltp clk l [0..<MAX_SYMBOLS] s = Some s'"
  obtains xs where "oms_sent s' = oms_sent s @ xs" "reached_stops (l ! k) (stop_loss_registry s' k) = {}"
    "\<forall>c \<in> reached_stops (l ! k) (stop_loss_registry s k). \<exists>x \<in> set xs. triggered s c x"
proof -
  have "\<forall>j \<in> set [0..<MAX_SYMBOLS]. j < length l" using assms(3) by simp
  from scan_ltp_ok [OF assms(1) distinct_upt this, of clk] obtain xs where xs: "oms_sent s' = oms_sent s @ xs"
    "stop_loss_registry s' k = stops_left (l ! k) (stop_loss_registry s k)" "\<forall>c \<in> stops_at s k. c \<notin> stops_at s' k \<longrightarrow> (\<exists>x \<in> set xs. triggered s c x)"
    using assms(4-6) by auto
  show thesis
    by (rule that [OF xs(1)]) (use xs(2,3) reached_left reached_gone [OF assms(2) _ xs(2)] in auto)
qed

lemma pass_fires:
  assumes "running s" "stop_sides s" "length l = MAX_SYMBOLS" "k < MAX_SYMBOLS" "l ! k \<noteq> last_seen_price s k"
    "oms_pass clk out rings (Some l) s = Some s'"
  obtains xs where "oms_sent s' = oms_sent s @ xs" "reached_stops (l ! k) (stop_loss_registry s' k) = {}"
    "\<forall>c \<in> reached_stops (l ! k) (stop_loss_registry s k). \<exists>x \<in> set xs. triggered s c x"
proof -
  have s: "rb_inv (incoming_orders s)" "\<not> oms_shutdown s" "stops_inv s" using assms(1) by (simp_all add: running_def oms_ok_def)
  obtain q msg s2 s3 where s2: "(case msg of None \<Rightarrow> Some (s\<lparr>incoming_orders := q\<rparr>) | Some c \<Rightarrow> handle_client_order clk out (s\<lparr>incoming_orders := q\<rparr>) c) = Some s2"
    and s3: "poll_groups clk rings [0..<GROUP_COUNT] s2 = Some s3" and scan: "scan_ltp clk l [0..<MAX_SYMBOLS] s3 = Some s'"
    using oms_pass_parts [OF s(1,2) assms(6)] by (metis option.simps(5))
  let ?s1 = "s\<lparr>incoming_orders := q\<rparr>"
  have 1: "stops_inv ?s1" "stop_sides ?s1" using s(3) assms(2) by simp_all
  have 2: "stops_inv s2" "stop_sides s2" "last_seen_price s2 = last_seen_price s" "symbolLookupTable s2 = symbolLookupTable s" "prefix (oms_sent s) (oms_sent s2)"
      "reached_stops (l ! k) (stop_loss_registry s k) \<subseteq> reached_stops (l ! k) (stop_loss_registry s2 k)"
    using s2 stops.I_handle [OF 1(1)] sides.I_handle [OF 1(2)] 1 handle_seen [of clk out ?s1] handle_frame(3) [of clk out ?s1] handle_sent [of clk out ?s1]
      handle_reached [of clk out ?s1 _ s2 "l ! k" k] by (auto split: option.splits)
  have 3: "stops_inv s3" "stop_sides s3" "last_seen_price s3 = last_seen_price s" "symbolLookupTable s3 = symbolLookupTable s"
      "stop_loss_registry s3 = stop_loss_registry s2" "prefix (oms_sent s2) (oms_sent s3)"
    using stops.I_poll_groups [OF 2(1) s3] sides.I_poll_groups [OF 2(2) s3] poll_groups_seen [OF s3] poll_groups_frame [OF s3] 2(3,4)
      sent.I_poll_groups [of s2 "symbolLookupTable s2" "oms_sent s2", OF _ s3] by simp_all
  obtain xs where xs: "oms_sent s' = oms_sent s3 @ xs" "reached_stops (l ! k) (stop_loss_registry s' k) = {}"
    "\<forall>c \<in> reached_stops (l ! k) (stop_loss_registry s2 k). \<exists>x \<in> set xs. triggered s c x"
    using scan_fires [OF 3(1,2) assms(3,4) _ scan] assms(5) 3(3,5) triggered_cong [OF 3(4)] by metis
  obtain ys where "oms_sent s3 = oms_sent s @ ys" using 2(5) 3(6) by (auto simp: prefix_def)
  moreover have "\<forall>c \<in> reached_stops (l ! k) (stop_loss_registry s k). \<exists>x \<in> set (ys @ xs). triggered s c x"
    using xs(3) 2(6) by (simp, blast)
  ultimately show thesis using that [of "ys @ xs"] xs(1,2) by simp
qed

section \<open>From a trade to the stops\<close>

text \<open>The rings hold the trades the groups have published, and the groups stand behind the last of them.\<close>

definition engine_published :: "MatchingEngineDispatcher \<Rightarrow> (nat \<Rightarrow> Trade list) \<Rightarrow> bool" where
  "engine_published d tss \<longleftrightarrow> length (d_groups d) = GROUP_COUNT \<and>
     (\<forall>i < GROUP_COUNT. ring_holds (g_ring (d_groups d ! i)) (tss i) \<and> handle_at (g_trade_buffer (d_groups d ! i)) (length (tss i)))"

lemma published_after:
  assumes "engine_published d tss" "i < GROUP_COUNT" "(g_ring g', g_trade_buffer g') = publish_all (g_ring (d_groups d ! i), g_trade_buffer (d_groups d ! i)) ts"
    "\<forall>g < GROUP_COUNT. length ((tss(i := tss i @ ts)) g) + 3 < 2 ^ 21"
  shows "rings_hold (\<lambda>g. g_ring ((d_groups d)[i := g'] ! g)) (tss(i := tss i @ ts))"
proof -
  have "length (tss i) + length ts + 3 < 2 ^ 21" using assms(2,4) by fastforce
  then have "ring_holds (g_ring g') (tss i @ ts)"
    using publish_all_ok [of "g_trade_buffer (d_groups d ! i)" "tss i" "g_ring (d_groups d ! i)" ts "g_ring g'" "g_trade_buffer g'"] assms(1-3)
    by (auto simp: engine_published_def)
  then show ?thesis using assms(1,2,4) by (auto simp: engine_published_def rings_hold_def nth_list_update)
qed

lemma start_shares:
  assumes "price_start True True True m d True True s0 = Some p" "\<forall>j. pm_named m = Some j \<longrightarrow> j < length (pm_objects m)"
  shows "shares_prices clk s0 p"
proof -
  obtain k m' where "Dispatcher_map_prices True True True m = Some (k, m')" "pm_named m' = Some k" "k < length (pm_objects m')"
    "pm_objects m' ! k = replicate MAX_SYMBOLS 0"
    by (rule map_prices_ok [OF assms(2)])
  then show ?thesis using assms(1) by (auto simp: price_start_def shares_prices_def Oms_map_prices_def oms_reach.start)
qed

text \<open>A run to try it on: a stop of a client, then an order that trades.\<close>

definition demo_stop_order :: ClientOrder where "demo_stop_order = demo_client C_STOP_LOSS SELL 9 95 10 0"

definition demo_buy :: Order where "demo_buy = demo_order 2 LIMIT BUY 12 4"

definition demo_engine :: MatchingEngineDispatcher where
  "demo_engine = MatchingEngineDispatcher_new (n_order demo_node) 1024 (\<lambda>_. zero_ring)\<lparr>d_groups := [demo_group1, demo_group]\<rparr>"

definition demo_memory :: price_memory where "demo_memory = \<lparr>pm_objects = [], pm_named = None\<rparr>"

definition demo_prices :: price_system where
  "demo_prices = \<lparr>ps_memory = \<lparr>pm_objects = [replicate MAX_SYMBOLS 0], pm_named = Some 0\<rparr>, ps_engine = demo_engine, ps_engine_map = 0,
     ps_oms = demo_oms, ps_oms_map = Some 0\<rparr>"

lemma demo_prices_start: "price_start True True True demo_memory demo_engine True True demo_oms = Some demo_prices"
  by (simp add: price_start_def Dispatcher_map_prices_def open_create_def Oms_map_prices_def set_size_def demo_memory_def demo_prices_def)

lemma demo_queue: "rb_inv (g_group_queue demo_group)" "rb_contents (g_group_queue demo_group) = []" "rb_room (g_group_queue demo_group) = 1023"
proof -
  have "pow2_part 1024 = 1024" by code_simp
  then show "rb_inv (g_group_queue demo_group)" "rb_contents (g_group_queue demo_group) = []" "rb_room (g_group_queue demo_group) = 1023"
    using rb_inv_new [of 1024 "n_order demo_node"] by (simp_all add: demo_group_def GroupProcessor_new_def)
qed

lemma demo_group1_rest:
  "g_group_queue demo_group1 = g_group_queue demo_group" "g_terminate_flag demo_group1 = g_terminate_flag demo_group"
  "g_ring demo_group1 = zero_ring" "g_trade_buffer demo_group1 = trade_ring_buffer_new True 0"
proof -
  have ok: "order_ok demo_group demo_sell" unfolding demo_sell_def by (rule demo_ok) simp
  show "g_group_queue demo_group1 = g_group_queue demo_group" "g_terminate_flag demo_group1 = g_terminate_flag demo_group"
    using process_order_abs [OF demo_group_wf(1) ok] demo_group1_wf(1) by (metis option.inject sum.inject(2))+
  have "order_trades demo_group demo_sell = []" by (simp add: order_trades_nil demo_spec1)
  then have "(g_ring demo_group1, g_trade_buffer demo_group1) = (g_ring demo_group, g_trade_buffer demo_group)"
    using published [OF demo_group_wf(1) ok demo_group1_wf(1)] by simp
  then show "g_ring demo_group1 = zero_ring" "g_trade_buffer demo_group1 = trade_ring_buffer_new True 0"
    by (simp_all add: demo_group_def GroupProcessor_new_def)
qed

lemma demo_engine_takes:
  obtains q where "try_dispatch demo_engine demo_buy = Some (demo_engine\<lparr>d_groups := [demo_group1\<lparr>g_group_queue := q\<rparr>, demo_group]\<rparr>, True)"
    "rb_inv q" "rb_contents q = [demo_buy]"
proof -
  obtain q where q: "RingBuffer_push (g_group_queue demo_group) demo_buy = Some (q, True)" "rb_inv q" "rb_contents q = [demo_buy]"
    using rb.push_accept [OF demo_queue(1), of demo_buy] by (auto simp: demo_queue)
  have "route demo_engine demo_buy = 0" using route_group [of demo_engine demo_buy] by (simp add: GROUP_COUNT_def demo_engine_def demo_buy_def)
  then have "try_dispatch demo_engine demo_buy = Some (demo_engine\<lparr>d_groups := [demo_group1\<lparr>g_group_queue := q\<rparr>, demo_group]\<rparr>, True)"
    using q(1) by (simp add: try_dispatch_def enqueue_order_def demo_group1_rest demo_engine_def)
  then show thesis using that q(2,3) by blast
qed

lemma scan_same: "\<forall>j \<in> set js. j < length l \<and> l ! j = last_seen_price s j \<Longrightarrow> scan_ltp clk l js s = Some s"
  by (induction js) simp_all

lemma poll_groups_cong: "\<forall>i \<in> set gs. rings i = rings' i \<Longrightarrow> poll_groups clk rings gs s = poll_groups clk rings' gs s"
  by (induction gs arbitrary: s) (auto split: Option.bind_splits)

lemma demo_engine_published: "engine_published demo_engine (\<lambda>_. [])"
  by (auto simp: engine_published_def demo_engine_def GROUP_COUNT_def less_2_cases_iff demo_group1_rest ring_holds_zero handle_at_new)
    (simp_all add: demo_group_def GroupProcessor_new_def ring_holds_zero handle_at_new)

lemma demo_oms_stop:
  obtains q s where "enqueueClientOrder demo_oms demo_stop_order = Some (demo_oms\<lparr>incoming_orders := q\<rparr>, True)"
    "oms_pass demo_clk demo_out (\<lambda>i. g_ring (d_groups demo_engine ! i)) (Some (replicate MAX_SYMBOLS 0)) (demo_oms\<lparr>incoming_orders := q\<rparr>) = Some s"
    "\<not> oms_shutdown s" "trade_consumers s = trade_consumers demo_oms" "last_seen_price s = (\<lambda>_. 0)"
    "demo_stop_order\<lparr>c_symbol_id := 5\<rparr> \<in> set (sell_stops (stop_loss_registry s 5))" "oms_sent s = []"
proof -
  obtain q where q: "RingBuffer_push (incoming_orders demo_oms) demo_stop_order = Some (q, True)" "rb_inv q" "rb_contents q = [demo_stop_order]"
    using rb.push_accept [OF demo_room(1), of zero_client_order demo_stop_order] by (auto simp: demo_oms_def demo_room)
  obtain q1 where q1: "RingBuffer_pop q = Some (q1, Some demo_stop_order)" using rb.pop_front [OF q(2,3)] by blast
  have m: "unat (5 AND SYMBOL_MASK) = 5" by (simp add: unat_masked_symbol)
  have c: "c_symbol demo_stop_order = ''AAPL'' @ replicate 4 (CHR 0x00)" "c_execution_type demo_stop_order = C_STOP_LOSS" "c_type demo_stop_order = SELL"
    by (simp_all add: demo_stop_order_def demo_client_def)
  have str: "c_str (c_symbol demo_stop_order) = Some ''AAPL''" by (simp only: c(1) demo_str)
  have id5: "find_id (demo_oms\<lparr>incoming_orders := q1\<rparr>) ''AAPL'' = 5" by (simp add: find_id_def demo_hash demo_oms_def)
  define s where "s = registerStopLoss (demo_oms\<lparr>incoming_orders := q1\<rparr>) (demo_stop_order\<lparr>c_symbol_id := 5\<rparr>)"
  have s: "trade_consumers s = trade_consumers demo_oms" "last_seen_price s = (\<lambda>_. 0)" "oms_sent s = []" "\<not> oms_shutdown s"
    "demo_stop_order\<lparr>c_symbol_id := 5\<rparr> \<in> set (sell_stops (stop_loss_registry s 5))"
    using c(3) by (simp_all add: s_def registerStopLoss_def m Let_def demo_oms_def)
  have rings: "poll_groups demo_clk (\<lambda>i. g_ring (d_groups demo_engine ! i)) [0..<GROUP_COUNT] s = Some s"
  proof (subst poll_groups_cong [where rings' = "\<lambda>_. zero_ring"])
    have "g_ring demo_group = zero_ring" by (simp add: demo_group_def GroupProcessor_new_def)
    then show "\<forall>i \<in> set [0..<GROUP_COUNT]. g_ring (d_groups demo_engine ! i) = zero_ring"
      by (auto simp: demo_engine_def GROUP_COUNT_def demo_group1_rest less_2_cases_iff)
    show "poll_groups demo_clk (\<lambda>_. zero_ring) [0..<GROUP_COUNT] s = Some s" by (rule demo_idle) (simp add: s(1), simp add: demo_oms_def)
  qed
  have "scan_ltp demo_clk (replicate MAX_SYMBOLS 0) [0..<MAX_SYMBOLS] s = Some s" by (rule scan_same) (simp add: s(2))
  then have "oms_pass demo_clk demo_out (\<lambda>i. g_ring (d_groups demo_engine ! i)) (Some (replicate MAX_SYMBOLS 0)) (demo_oms\<lparr>incoming_orders := q\<rparr>) = Some s"
    using q1 str id5 c(2) rings by (simp add: oms_pass_def handle_client_order_def s_def demo_oms_def)
  then show thesis using that [of q s] q(1) s by (simp add: enqueueClientOrder_def)
qed



text \<open>
  What becomes of the prices around a run. The first dispatcher comes up exactly when all three calls succeed, otherwise it writes through a bad pointer or past the end of the object; a second dispatcher opens the
  object of the first and clears the prices under it; once a dispatcher is gone, no system that starts later finds the prices, while those that have mapped them keep them.
\<close>

theorem price_memory_life:
  assumes "pm_named m = None" "pm_named m1 = Some k" "k < length (pm_objects m1)"
  shows "(Dispatcher_map_prices open_ok trunc_ok map_ok m = None \<longleftrightarrow> \<not> (open_ok \<and> trunc_ok \<and> map_ok)) \<and>
    (\<exists>m2. Dispatcher_map_prices True True True m1 = Some (k, m2) \<and> pm_objects m2 ! k = replicate MAX_SYMBOLS 0) \<and>
    Oms_map_prices oms_open oms_map (Dispatcher_unmap_prices m1) = None \<and> pm_objects (Dispatcher_unmap_prices m1) = pm_objects m1"
  using assms by (auto simp: Dispatcher_map_prices_def open_create_def Oms_map_prices_def Dispatcher_unmap_prices_def Let_def nth_append
      MAX_SYMBOLS_def SYMBOL_BITS_def)

theorem price_memory_life_witness:
  "Dispatcher_map_prices True False True demo_memory = None \<and> Oms_map_prices True True (Dispatcher_unmap_prices (ps_memory demo_prices)) = None"
  using price_memory_life [of demo_memory "ps_memory demo_prices" 0 True False True True True] by (simp add: demo_memory_def demo_prices_def)

end
