(* ===== verification/Trade_Store.thy ===== *)
theory Trade_Store
  imports Trade_Ring Ring_Queue
begin

text \<open>
  The persistence of trades, \<^verbatim>\<open>src/src/trade_processor.cpp\<close>: one thread copies the trades of a ring into mapped file regions, another
  writes full regions to disk. The regions travel between them through two queues of 32 slots. A region is the number of
  its file; a trade lies at a byte offset of its region. \<open>msync\<close> copies memory to disk; the files, the mapping and the threads themselves are not
  modelled.
\<close>

section \<open>State\<close>

definition mem_regions :: nat where "mem_regions = 32"
definition trade_size :: nat where "trade_size = 48"
definition maxTradesPerTP :: nat where "maxTradesPerTP = 100000 div 2"
definition fileSize :: nat where "fileSize = maxTradesPerTP * trade_size div mem_regions"

type_synonym region = "nat \<rightharpoonup> Trade"

text \<open>
  The members and the local variables of the two threads. \<open>tp_log\<close> are the trades the writer has taken from the ring so far.
\<close>

record TradeProcessor =
  tp_rb_write :: "nat spsc"
  tp_rb_persist :: "nat spsc"
  tp_memory :: "nat \<Rightarrow> region"
  tp_disk :: "nat \<Rightarrow> region"
  tp_trBuffer :: trade_ring_buffer
  tp_t2done :: bool
  tp_writer_region :: "nat option"
  tp_writeOffset :: nat
  tp_trade_counter :: nat
  tp_persist_region :: "nat option"
  tp_log :: "Trade list"

definition give_region :: "nat spsc \<Rightarrow> nat \<Rightarrow> (nat spsc \<times> bool) option" where
  "give_region q r = spsc_push 5 q r"

definition get_region :: "nat spsc \<Rightarrow> (nat spsc \<times> nat option) option" where
  "get_region q = spsc_pop 5 q"

text \<open>The constructor of the write queue creates and hands over \<open>mem_regions - 1\<close> regions.\<close>

fun give_regions :: "nat list \<Rightarrow> nat spsc \<Rightarrow> nat spsc option" where
  "give_regions [] q = Some q"
| "give_regions (r # rs) q = do { (q1, _) \<leftarrow> give_region q r; give_regions rs q1 }"

definition TradeProcessor_new :: "(u64 \<Rightarrow> nat) \<Rightarrow> u32 \<Rightarrow> TradeProcessor option" where
  "TradeProcessor_new junk buffer_id = do {
     q \<leftarrow> give_regions [0..<mem_regions - 1] (spsc_new junk);
     Some \<lparr>tp_rb_write = q, tp_rb_persist = spsc_new junk, tp_memory = (\<lambda>_. Map.empty), tp_disk = (\<lambda>_. Map.empty),
       tp_trBuffer = trade_ring_buffer_new False buffer_id, tp_t2done = False, tp_writer_region = None, tp_writeOffset = 0,
       tp_trade_counter = 0, tp_persist_region = None, tp_log = []\<rparr>
   }"

section \<open>The writer\<close>

text \<open>Taking a region from the write queue, if the writer holds none.\<close>

definition writer_claim :: "TradeProcessor \<Rightarrow> TradeProcessor option" where
  "writer_claim s = (case tp_writer_region s of
     Some r \<Rightarrow> Some s
   | None \<Rightarrow> do {
       (q, r) \<leftarrow> get_region (tp_rb_write s);
       Some (case r of None \<Rightarrow> s\<lparr>tp_rb_write := q\<rparr>
         | Some r \<Rightarrow> s\<lparr>tp_rb_write := q, tp_writer_region := Some r, tp_writeOffset := 0\<rparr>)
     })"

text \<open>Copying one trade into the region held, and passing the region on when it is full.\<close>

definition writer_write :: "trade_ring \<Rightarrow> TradeProcessor \<Rightarrow> TradeProcessor option" where
  "writer_write ring s = (case tp_writer_region s of
     None \<Rightarrow> Some s
   | Some r \<Rightarrow> do {
       (h, t) \<leftarrow> get_trade ring (tp_trBuffer s);
       let s1 = s\<lparr>tp_trBuffer := h, tp_memory := (tp_memory s)(r := (tp_memory s r)(tp_writeOffset s \<mapsto> t)),
         tp_writeOffset := tp_writeOffset s + trade_size, tp_trade_counter := tp_trade_counter s + 1, tp_log := tp_log s @ [t]\<rparr>;
       if tp_writeOffset s1 \<ge> fileSize then do {
         (q, _) \<leftarrow> give_region (tp_rb_persist s1) r;
         Some (s1\<lparr>tp_rb_persist := q, tp_writer_region := None\<rparr>)
       } else Some s1
     })"

text \<open>The end of the thread: a region that is not full is passed on too.\<close>

definition writer_end :: "TradeProcessor \<Rightarrow> TradeProcessor option" where
  "writer_end s = (case tp_writer_region s of
     None \<Rightarrow> Some (s\<lparr>tp_t2done := True\<rparr>)
   | Some r \<Rightarrow> do {
       (q, _) \<leftarrow> give_region (tp_rb_persist s) r;
       Some (s\<lparr>tp_rb_persist := q, tp_writer_region := None, tp_t2done := True\<rparr>)
     })"

text \<open>One pass of \<open>writerThread\<close>, the end of the thread included.\<close>

definition writer_pass :: "trade_ring \<Rightarrow> TradeProcessor \<Rightarrow> TradeProcessor option" where
  "writer_pass ring s =
     (if tp_t2done s then Some s
      else if tp_trade_counter s < maxTradesPerTP then
        (if \<not> any_new_trade ring (tp_trBuffer s) then Some s
         else do { s1 \<leftarrow> writer_claim s; writer_write ring s1 })
      else writer_end s)"

section \<open>The persistence thread\<close>

text \<open>The two halves of a pass: claiming a region, and syncing it and giving it back. Other threads run in between.\<close>

definition persist_claim :: "TradeProcessor \<Rightarrow> TradeProcessor option" where
  "persist_claim s = (case tp_persist_region s of
     Some r \<Rightarrow> Some s
   | None \<Rightarrow> do {
       (q, r) \<leftarrow> get_region (tp_rb_persist s);
       Some (s\<lparr>tp_rb_persist := q, tp_persist_region := r\<rparr>)
     })"

definition persist_sync :: "TradeProcessor \<Rightarrow> TradeProcessor option" where
  "persist_sync s = (case tp_persist_region s of
     None \<Rightarrow> Some s
   | Some r \<Rightarrow> do {
       (q, _) \<leftarrow> give_region (tp_rb_write s) r;
       Some (s\<lparr>tp_disk := (tp_disk s)(r := tp_memory s r), tp_rb_write := q, tp_persist_region := None\<rparr>)
     })"

text \<open>
  The end of \<open>persistenceThread\<close>, after the writer is done: a region still in hand, then the regions still queued (given back first
  and synced then), then every region of the write queue is unmapped. The loops run as long as their queue holds a region, so
  33 rounds are enough for 31 regions.
\<close>

fun persist_drain :: "nat \<Rightarrow> TradeProcessor \<Rightarrow> TradeProcessor option" where
  "persist_drain 0 s = None"
| "persist_drain (Suc n) s = do {
     (q, r) \<leftarrow> get_region (tp_rb_persist s);
     (case r of None \<Rightarrow> Some (s\<lparr>tp_rb_persist := q\<rparr>)
      | Some r \<Rightarrow> do {
          (w, _) \<leftarrow> give_region (tp_rb_write s) r;
          persist_drain n (s\<lparr>tp_rb_persist := q, tp_rb_write := w, tp_disk := (tp_disk s)(r := tp_memory s r)\<rparr>)
        })
   }"

fun unmap_all :: "nat \<Rightarrow> nat spsc \<Rightarrow> (nat spsc \<times> nat list) option" where
  "unmap_all 0 q = None"
| "unmap_all (Suc n) q = do {
     (q1, r) \<leftarrow> get_region q;
     (case r of None \<Rightarrow> Some (q1, [])
      | Some r \<Rightarrow> do { (q2, rs) \<leftarrow> unmap_all n q1; Some (q2, r # rs) })
   }"

definition persist_finish :: "TradeProcessor \<Rightarrow> (TradeProcessor \<times> nat list) option" where
  "persist_finish s = do {
     s1 \<leftarrow> persist_sync s;
     s2 \<leftarrow> persist_drain 33 s1;
     (q, rs) \<leftarrow> unmap_all 33 (tp_rb_write s2);
     Some (s2\<lparr>tp_rb_write := q\<rparr>, rs)
   }"

section \<open>Interleaved runs\<close>

text \<open>
  The two threads in any interleaving of writer passes, claims and syncs, from the constructed state on; the ring may be any at each pass.
\<close>

inductive tp_reach :: "TradeProcessor \<Rightarrow> TradeProcessor \<Rightarrow> bool" for s0 where
  start: "tp_reach s0 s0"
| writer: "tp_reach s0 s \<Longrightarrow> writer_pass ring s = Some s' \<Longrightarrow> tp_reach s0 s'"
| claim: "tp_reach s0 s \<Longrightarrow> persist_claim s = Some s' \<Longrightarrow> tp_reach s0 s'"
| sync: "tp_reach s0 s \<Longrightarrow> persist_sync s = Some s' \<Longrightarrow> tp_reach s0 s'"

section \<open>The round trip of the regions\<close>

text \<open>
  The regions go round: the write queue, the persistence thread, the persist queue, the writer, in the order of \<open>cycle\<close>. Every step keeps this
  list, except that the writer's claim rotates it by one.
\<close>

definition hand :: "nat option \<Rightarrow> nat list" where
  "hand r = (case r of None \<Rightarrow> [] | Some r \<Rightarrow> [r])"

lemma hand_simps [simp]: "hand None = []" "hand (Some r) = [r]"
  by (simp_all add: hand_def)

definition cycle :: "TradeProcessor \<Rightarrow> nat list" where
  "cycle s = spsc_contents 5 (tp_rb_write s) @ hand (tp_persist_region s) @ spsc_contents 5 (tp_rb_persist s) @ hand (tp_writer_region s)"

definition rotated :: "nat \<Rightarrow> nat list" where
  "rotated c = map (\<lambda>i. (c + i) mod 31) [0..<31]"

lemma upt31: "[0..<31] = 0 # map Suc [0..<30]" "[0..<31] = [0..<30] @ [30 :: nat]"
  using upt_conv_Cons [of 0 31] map_Suc_upt [of 0 30] upt_Suc_append [of 0 30] by simp_all

lemma rotated_step: "rotated c = c mod 31 # xs \<Longrightarrow> rotated (Suc c) = xs @ [c mod 31]"
proof -
  assume "rotated c = c mod 31 # xs"
  then have "xs = map (\<lambda>i. (c + Suc i) mod 31) [0..<30]" by (simp add: rotated_def upt31(1) comp_def)
  moreover have "rotated (Suc c) = map (\<lambda>i. (Suc c + i) mod 31) [0..<30] @ [(Suc c + 30) mod 31]"
    by (simp only: rotated_def upt31(2) map_append list.map)
  ultimately show ?thesis by simp
qed

lemma rotated_hd: "\<exists>xs. rotated c = c mod 31 # xs"
  by (simp add: rotated_def upt31(1))

lemma rotated_last: "rotated (Suc c) = xs @ [r] \<Longrightarrow> r = c mod 31"
  by (simp add: rotated_def upt31(2))

lemma rotated_distinct: "distinct (rotated c)" "length (rotated c) = 31" "set (rotated c) = {..<31}"
proof -
  have inj: "inj_on (\<lambda>i. (c + i) mod 31) (set [0..<31])"
  proof (rule inj_onI)
    fix i j assume "i \<in> set [0..<31]" "j \<in> set [0..<31]" "(c + i) mod 31 = (c + j) mod 31"
    then show "i = j" using mod_add_inject [of i j 31 c] mod_add_inject [of j i 31 c] by (cases "i \<le> j") auto
  qed
  then show d: "distinct (rotated c)" by (simp add: rotated_def distinct_map)
  show l: "length (rotated c) = 31" by (simp add: rotated_def)
  have "set (rotated c) \<subseteq> {..<31}" by (auto simp: rotated_def)
  moreover have "card (set (rotated c)) = 31" using distinct_card [OF d] l by simp
  ultimately show "set (rotated c) = {..<31}" by (intro card_subset_eq) auto
qed

text \<open>Where trade \<open>m\<close> goes: 1563 trades fill a region, and 31 regions hold 48453.\<close>

lemma file_size: "fileSize = 75000"
  by (simp add: fileSize_def maxTradesPerTP_def trade_size_def mem_regions_def)

definition region_of :: "nat \<Rightarrow> nat" where "region_of m = m div 1563 mod 31"
definition offset_of :: "nat \<Rightarrow> nat" where "offset_of m = trade_size * (m mod 1563)"

lemma place_inject:
  assumes "region_of m = region_of n" "offset_of m = offset_of n" "m \<le> n" "n < m + 48453" shows "m = n"
proof -
  have split: "k mod 48453 = 1563 * region_of k + k mod 1563" for k
    using mod_mult2_eq [of k 1563 31] by (simp add: region_of_def)
  have "(m + 0) mod 48453 = (m + (n - m)) mod 48453"
    using assms(1,2,3) by (simp add: split offset_of_def trade_size_def)
  then have "0 = n - m" using assms(4) by (intro mod_add_inject [of 0 "n - m" 48453 m]) auto
  then show ?thesis using assms(3) by simp
qed

section \<open>The invariant\<close>

text \<open>After \<open>c\<close> claims the writer holds no region and has filled all it claimed, or it is inside the last one.\<close>

definition writer_at :: "nat \<Rightarrow> nat option \<Rightarrow> bool \<Rightarrow> nat \<Rightarrow> nat \<Rightarrow> bool" where
  "writer_at c r done off n = (case r of
     None \<Rightarrow> done \<or> n = c * 1563
   | Some r \<Rightarrow> \<not> done \<and> c = Suc (n div 1563) \<and> off = offset_of n)"

lemma writer_at_simps [simp]:
  "writer_at c None done off n \<longleftrightarrow> done \<or> n = c * 1563"
  "writer_at c (Some r) done off n \<longleftrightarrow> \<not> done \<and> c = Suc (n div 1563) \<and> off = offset_of n"
  by (simp_all add: writer_at_def)

definition holds_last :: "(nat \<Rightarrow> region) \<Rightarrow> Trade list \<Rightarrow> bool" where
  "holds_last mem ts \<longleftrightarrow> (\<forall>m < length ts. length ts \<le> m + 48453 \<longrightarrow> mem (region_of m) (offset_of m) = Some (ts ! m))"

definition tp_at :: "nat \<Rightarrow> TradeProcessor \<Rightarrow> bool" where
  "tp_at c s \<longleftrightarrow> spsc_inv 5 (tp_rb_write s) \<and> spsc_inv 5 (tp_rb_persist s) \<and> tp_trade_counter s = length (tp_log s) \<and>
     length (tp_log s) \<le> maxTradesPerTP \<and> (tp_t2done s \<longrightarrow> length (tp_log s) = maxTradesPerTP) \<and> cycle s = rotated c \<and>
     writer_at c (tp_writer_region s) (tp_t2done s) (tp_writeOffset s) (length (tp_log s)) \<and> holds_last (tp_memory s) (tp_log s) \<and>
     (\<forall>r \<in> set (spsc_contents 5 (tp_rb_write s)). tp_disk s r = tp_memory s r)"

lemma give_room:
  assumes "spsc_inv 5 q" "length (spsc_contents 5 q) < 31"
  obtains q' where "give_region q r = Some (q', True)" "spsc_inv 5 q'" "spsc_contents 5 q' = spsc_contents 5 q @ [r]"
  using rq.push_accept [OF assms(1), of r] assms(2) that by (auto simp: give_region_def)

lemma take_region:
  assumes "spsc_inv 5 q"
  obtains q' r where "get_region q = Some (q', r)" "spsc_inv 5 q'" "spsc_contents 5 q = hand r @ spsc_contents 5 q'"
    "r = None \<Longrightarrow> spsc_contents 5 q = []"
  using rq.pop_total [OF assms] that by (auto simp: get_region_def hand_def split: option.splits)

lemma cycle_length: "cycle s = rotated c \<Longrightarrow> length (spsc_contents 5 (tp_rb_write s)) + length (hand (tp_persist_region s)) +
    length (spsc_contents 5 (tp_rb_persist s)) + length (hand (tp_writer_region s)) = 31"
  using rotated_distinct(2) [of c] by (metis add.assoc cycle_def length_append)

lemma give_persist:
  assumes "tp_at c s" "tp_writer_region s = Some r"
  obtains q where "give_region (tp_rb_persist s) r = Some (q, True)" "spsc_inv 5 q"
    "spsc_contents 5 q = spsc_contents 5 (tp_rb_persist s) @ [r]"
proof -
  have "length (spsc_contents 5 (tp_rb_persist s)) < 31" using cycle_length [of s c] assms by (simp add: tp_at_def)
  then show ?thesis using give_room [of "tp_rb_persist s" r] assms(1) that by (auto simp: tp_at_def)
qed

lemma at_persist_claim:
  assumes "tp_at c s" "persist_claim s = Some s'" shows "tp_at c s'"
proof (cases "tp_persist_region s")
  case None
  obtain q r where q: "get_region (tp_rb_persist s) = Some (q, r)" "spsc_inv 5 q"
    "spsc_contents 5 (tp_rb_persist s) = hand r @ spsc_contents 5 q"
    using take_region [of "tp_rb_persist s"] assms(1) unfolding tp_at_def by metis
  have s': "s' = s\<lparr>tp_rb_persist := q, tp_persist_region := r\<rparr>" using assms(2) None q(1) by (simp add: persist_claim_def)
  have "cycle s' = cycle s" using None q(3) by (simp add: cycle_def s')
  then show ?thesis using assms(1) q(2) by (simp add: tp_at_def s')
qed (use assms in \<open>simp add: persist_claim_def\<close>)

text \<open>Giving a region to the write queue, after or before it is synced: the queue always has room.\<close>

lemma at_persist_sync:
  assumes "tp_at c s" "persist_sync s = Some s'" shows "tp_at c s'"
proof (cases "tp_persist_region s")
  case (Some r)
  have "length (spsc_contents 5 (tp_rb_write s)) < 31" using cycle_length [of s c] assms(1) Some by (simp add: tp_at_def)
  then obtain q where q: "give_region (tp_rb_write s) r = Some (q, True)" "spsc_inv 5 q"
    "spsc_contents 5 q = spsc_contents 5 (tp_rb_write s) @ [r]"
    using give_room [of "tp_rb_write s" r] assms(1) by (auto simp: tp_at_def)
  have s': "s' = s\<lparr>tp_disk := (tp_disk s)(r := tp_memory s r), tp_rb_write := q, tp_persist_region := None\<rparr>"
    using assms(2) Some q(1) by (simp add: persist_sync_def)
  have "cycle s' = cycle s" using Some q(3) by (simp add: cycle_def s')
  then show ?thesis using assms(1) q(2,3) by (simp add: tp_at_def s')
qed (use assms in \<open>simp add: persist_sync_def\<close>)

lemma at_writer_claim:
  assumes "tp_at c s" "writer_claim s = Some s'" "\<not> tp_t2done s"
  shows "\<exists>c. tp_at c s'"
proof (cases "tp_writer_region s")
  case None
  obtain q r where q: "get_region (tp_rb_write s) = Some (q, r)" "spsc_inv 5 q"
    "spsc_contents 5 (tp_rb_write s) = hand r @ spsc_contents 5 q"
    using take_region [of "tp_rb_write s"] assms(1) unfolding tp_at_def by metis
  show ?thesis
  proof (cases r)
    case r: None
    have s': "s' = s\<lparr>tp_rb_write := q\<rparr>" using assms(2) None q(1) r by (simp add: writer_claim_def)
    have "cycle s' = cycle s" using q(3) r by (simp add: cycle_def s')
    then have "tp_at c s'" using assms(1) q(2,3) r by (simp add: tp_at_def s')
    then show ?thesis ..
  next
    case (Some x)
    have s': "s' = s\<lparr>tp_rb_write := q, tp_writer_region := Some x, tp_writeOffset := 0\<rparr>"
      using assms(2) None q(1) Some by (simp add: writer_claim_def)
    have cyc: "rotated c = x # spsc_contents 5 q @ hand (tp_persist_region s) @ spsc_contents 5 (tp_rb_persist s)"
      using assms(1) q(3) Some None by (simp add: tp_at_def cycle_def)
    then have "x = c mod 31" using rotated_hd [of c] by auto
    then have "cycle s' = rotated (Suc c)" using rotated_step [of c] cyc by (simp add: cycle_def s')
    moreover have "length (tp_log s) = c * 1563" using assms(1,3) None by (simp add: tp_at_def)
    ultimately have "tp_at (Suc c) s'" using assms(1,3) q(2,3) Some by (simp add: tp_at_def s' offset_of_def)
    then show ?thesis ..
  qed
qed (use assms in \<open>auto simp: writer_claim_def\<close>)

lemma holds_last_snoc:
  assumes "holds_last mem ts" "r = region_of (length ts)" "off = offset_of (length ts)"
  shows "holds_last (mem(r := (mem r)(off \<mapsto> t))) (ts @ [t])"
  unfolding holds_last_def
proof (intro allI impI)
  fix m assume m: "m < length (ts @ [t])" "length (ts @ [t]) \<le> m + 48453"
  show "(mem(r := (mem r)(off \<mapsto> t))) (region_of m) (offset_of m) = Some ((ts @ [t]) ! m)"
  proof (cases "m = length ts")
    case False
    then have "\<not> (region_of m = r \<and> offset_of m = off)" using place_inject [of m "length ts"] m assms(2,3) by auto
    moreover have "mem (region_of m) (offset_of m) = Some (ts ! m)" using False assms(1) m by (simp add: holds_last_def)
    ultimately show ?thesis using False m by (auto simp: nth_append)
  qed (simp add: assms)
qed

text \<open>A region is full after 1563 trades, when the next offset is 75024.\<close>

lemma region_full:
  "offset_of n + trade_size \<ge> fileSize \<longleftrightarrow> Suc n = Suc (n div 1563) * 1563"
  "offset_of n + trade_size < fileSize \<Longrightarrow> offset_of n + trade_size = offset_of (Suc n) \<and> Suc n div 1563 = n div 1563"
proof -
  have e: "n = 1563 * (n div 1563) + n mod 1563" "n mod 1563 < 1563" by simp_all
  show "offset_of n + trade_size \<ge> fileSize \<longleftrightarrow> Suc n = Suc (n div 1563) * 1563"
  proof -
    have "75000 \<le> 48 * (n mod 1563) + 48 \<longleftrightarrow> n mod 1563 = 1562" using e(2) by linarith
    also have "\<dots> \<longleftrightarrow> Suc n = Suc (n div 1563) * 1563"
    proof -
      have "b = 1562 \<longleftrightarrow> Suc n = Suc a * 1563" if "n = 1563 * a + b" for a b using that by auto
      then show ?thesis using e(1) by blast
    qed
    finally show ?thesis by (simp add: offset_of_def trade_size_def file_size)
  qed
  assume "offset_of n + trade_size < fileSize"
  then have "Suc (n mod 1563) \<noteq> 1563" by (simp add: offset_of_def trade_size_def file_size)
  then have "Suc n mod 1563 = Suc (n mod 1563)" "Suc n div 1563 = n div 1563" by (simp_all add: mod_Suc div_Suc)
  then show "offset_of n + trade_size = offset_of (Suc n) \<and> Suc n div 1563 = n div 1563"
    by (simp add: offset_of_def trade_size_def)
qed

text \<open>The write itself, before a full region is passed on.\<close>

definition written :: "nat \<Rightarrow> trade_ring_buffer \<Rightarrow> Trade \<Rightarrow> TradeProcessor \<Rightarrow> TradeProcessor" where
  "written r h t s = s\<lparr>tp_trBuffer := h, tp_memory := (tp_memory s)(r := (tp_memory s r)(tp_writeOffset s \<mapsto> t)),
     tp_writeOffset := tp_writeOffset s + trade_size, tp_trade_counter := tp_trade_counter s + 1, tp_log := tp_log s @ [t]\<rparr>"

lemma written_ok:
  assumes "tp_at c s" "tp_writer_region s = Some r"
  shows "holds_last (tp_memory (written r h t s)) (tp_log (written r h t s))"
    and "r \<notin> set (spsc_contents 5 (tp_rb_write s))"
proof -
  have c: "rotated c = (spsc_contents 5 (tp_rb_write s) @ hand (tp_persist_region s) @ spsc_contents 5 (tp_rb_persist s)) @ [r]"
    using assms by (simp add: tp_at_def cycle_def)
  have w: "c = Suc (length (tp_log s) div 1563)" "tp_writeOffset s = offset_of (length (tp_log s))"
    using assms by (simp_all add: tp_at_def)
  have "r = region_of (length (tp_log s))" using rotated_last c w(1) unfolding region_of_def by blast
  then show "holds_last (tp_memory (written r h t s)) (tp_log (written r h t s))"
    using holds_last_snoc [of "tp_memory s" "tp_log s" r "tp_writeOffset s" t] assms(1) w(2) by (simp add: written_def tp_at_def)
  show "r \<notin> set (spsc_contents 5 (tp_rb_write s))" using rotated_distinct(1) [of c] unfolding c by auto
qed

lemma at_writer_write:
  assumes at: "tp_at c s" and wr: "writer_write ring s = Some s'" and lt: "length (tp_log s) < maxTradesPerTP"
  shows "tp_at c s'"
proof (cases "tp_writer_region s")
  case (Some r)
  obtain h t where g: "get_trade ring (tp_trBuffer s) = Some (h, t)"
    using wr Some by (auto simp: writer_write_def bind_eq_Some_conv)
  note ok = written_ok(1) [OF at Some, of h t] written_ok(2) [OF at Some]
  have w: "\<not> tp_t2done s" "c = Suc (length (tp_log s) div 1563)" "tp_writeOffset s = offset_of (length (tp_log s))"
    using at Some by (simp_all add: tp_at_def)
  show ?thesis
  proof (cases "tp_writeOffset s + trade_size \<ge> fileSize")
    case True
    obtain q where q: "give_region (tp_rb_persist s) r = Some (q, True)" "spsc_inv 5 q"
      "spsc_contents 5 q = spsc_contents 5 (tp_rb_persist s) @ [r]" by (rule give_persist [OF at Some])
    have s': "s' = (written r h t s)\<lparr>tp_rb_persist := q, tp_writer_region := None\<rparr>"
      using wr Some g q(1) True by (simp add: writer_write_def written_def)
    have "cycle s' = cycle s" using Some q(3) by (simp add: cycle_def s' written_def)
    moreover have "Suc (length (tp_log s)) = c * 1563"
      using region_full(1) [of "length (tp_log s)"] True w by simp
    ultimately show ?thesis using at ok q(2) lt by (auto simp: tp_at_def s' written_def)
  next
    case False
    have s': "s' = written r h t s" using wr Some g False by (simp add: writer_write_def written_def)
    have "cycle s' = cycle s" by (simp add: cycle_def s' written_def)
    moreover have "tp_writeOffset s + trade_size = offset_of (Suc (length (tp_log s)))" "Suc (length (tp_log s)) div 1563 = length (tp_log s) div 1563"
      using region_full(2) [of "length (tp_log s)"] False w(3) by simp_all
    ultimately show ?thesis using at ok lt w(1,2) Some by (auto simp: tp_at_def s' written_def)
  qed
qed (use wr at in \<open>simp add: writer_write_def\<close>)

lemma at_writer_end:
  assumes at: "tp_at c s" and w: "writer_end s = Some s'" and n: "\<not> tp_trade_counter s < maxTradesPerTP" shows "\<exists>c. tp_at c s'"
proof (cases "tp_writer_region s")
  case None
  then have "s' = s\<lparr>tp_t2done := True\<rparr>" using w by (simp add: writer_end_def)
  then have "tp_at c s'" using at None n by (simp add: tp_at_def cycle_def)
  then show ?thesis ..
next
  case (Some r)
  obtain q where q: "give_region (tp_rb_persist s) r = Some (q, True)" "spsc_inv 5 q"
    "spsc_contents 5 q = spsc_contents 5 (tp_rb_persist s) @ [r]" by (rule give_persist [OF at Some])
  have s': "s' = s\<lparr>tp_rb_persist := q, tp_writer_region := None, tp_t2done := True\<rparr>" using w Some q(1) by (simp add: writer_end_def)
  have "cycle s' = cycle s" using Some q(3) by (simp add: cycle_def s')
  then have "tp_at c s'" using at q(2) n by (simp add: tp_at_def s')
  then show ?thesis ..
qed

lemma at_writer_pass:
  assumes at: "tp_at c s" and w: "writer_pass ring s = Some s'" shows "\<exists>c. tp_at c s'"
proof (cases "tp_t2done s \<or> tp_trade_counter s < maxTradesPerTP \<and> \<not> any_new_trade ring (tp_trBuffer s)")
  case True
  then have "s' = s" using w by (auto simp: writer_pass_def split: if_splits)
  then show ?thesis using at by blast
next
  case go: False
  show ?thesis
  proof (cases "tp_trade_counter s < maxTradesPerTP")
    case True
    obtain s1 where s1: "writer_claim s = Some s1" "writer_write ring s1 = Some s'"
      using w go True by (auto simp: writer_pass_def bind_eq_Some_conv)
    obtain c1 where "tp_at c1 s1" using at_writer_claim [OF at s1(1)] go by blast
    moreover have "tp_log s1 = tp_log s"
      using s1(1) by (auto simp: writer_claim_def bind_eq_Some_conv split: option.splits)
    ultimately show ?thesis using at_writer_write [OF _ s1(2)] True at by (auto simp: tp_at_def)
  next
    case False
    then show ?thesis using at_writer_end [OF at _ False] w go by (simp add: writer_pass_def writer_end_def)
  qed
qed

end
