(* ===== verification/Side_Tools.thy ===== *)
theory Side_Tools
  imports Bots Trade_Store
begin

text \<open>
  Code beside the main path: the \<open>DemoBot\<close> of \<^verbatim>\<open>src/bots/bots.h\<close>, the statistics of \<open>process_processing_times\<close> in \<^verbatim>\<open>src/src/producer_consumer.cpp\<close>, the destructor
  of the order management system, the last lines of the persistence thread, and the main function of \<^verbatim>\<open>src/src/live_tp.cpp\<close>.
\<close>

section \<open>The demo bot\<close>

text \<open>\<open>db_send_fn\<close> is \<open>None\<close> for an empty \<open>std::function\<close>; \<open>db_symbol_max\<close> is the upper end of \<open>symbol_dist_\<close>.\<close>

record DemoBot =
  db_symbols :: "SymbolInfo list"
  db_trader_id :: u64
  db_send_fn :: "(ClientOrder \<Rightarrow> bool) option"
  db_symbol_max :: nat

definition DemoBot_new :: "SymbolInfo list \<Rightarrow> u64 \<Rightarrow> (ClientOrder \<Rightarrow> bool) option \<Rightarrow> DemoBot" where
  "DemoBot_new symbols trader_id send_fn = \<lparr>db_symbols = symbols, db_trader_id = trader_id, db_send_fn = send_fn,
     db_symbol_max = (if symbols = [] then 0 else length symbols - 1)\<rparr>"

text \<open>A call: what it returns and the order handed over, if any; \<open>None\<close> for an access outside the vector. \<open>i\<close> is the draw of \<open>symbol_dist_\<close>.\<close>

definition DemoBot_call :: "DemoBot \<Rightarrow> nat \<Rightarrow> draws \<Rightarrow> (bool \<times> ClientOrder option) option" where
  "DemoBot_call b i d = (case db_send_fn b of
     None \<Rightarrow> Some (False, None)
   | Some send \<Rightarrow> if db_symbols b = [] then Some (False, None)
       else map_option (\<lambda>order. (send order, Some order)) (generateSingleOrder (db_symbols b) (db_trader_id b) i d))"

text \<open>The demo bot never reads outside its symbols, and hands over active orders of 1 to 50, icebergs that show between one and all, and prices inside the limits, except for the price of a stop order.\<close>

lemma demo_quantity: "unat (ucast (q mod 50 + 1 :: u64) :: u32) = unat q mod 50 + 1"
proof -
  have "unat (q mod 50 + 1) = unat q mod 50 + 1"
    by (subst unat_word_ariths) (simp add: unat_mod)
  moreover have "unat q mod 50 < 50" by simp
  ultimately show ?thesis by (simp add: unsigned_ucast_eq take_bit_nat_eq_self)
qed

theorem demo_bot_orders:
  assumes "i \<le> db_symbol_max (DemoBot_new symbols t send)" "\<forall>info \<in> set symbols. s_lower_limit info < d_price d \<and> d_price d < s_upper_limit info"
  shows "\<exists>ok order. DemoBot_call (DemoBot_new symbols t send) i d = Some (ok, order) \<and>
    (order = None \<longleftrightarrow> symbols = [] \<or> send = None) \<and>
    (\<forall>c. order = Some c \<longrightarrow> c_is_active c \<and> unat (c_quantity c) \<in> {1..50} \<and> c_filled_quantity c = 0 \<and>
       (c_execution_type c = C_ICEBERG \<longrightarrow> 0 < c_display_quantity c \<and> c_display_quantity c \<le> c_quantity c) \<and>
       (c_execution_type c \<in> {C_LIMIT, C_ICEBERG} \<longrightarrow> in_band (symbols ! i) (c_price c)) \<and>
       (c_execution_type c = C_STOP_LOSS \<longrightarrow> in_band (symbols ! i) (c_trigger_price c)))"
proof (cases "symbols = [] \<or> send = None")
  case True
  then show ?thesis by (auto simp: DemoBot_call_def DemoBot_new_def split: option.splits)
next
  case False
  then have i: "i < length symbols" using assms(1) by (cases symbols) (auto simp: DemoBot_new_def)
  then have p: "in_band (symbols ! i) (d_price d)" using assms(2) by (simp add: in_band_def less_imp_le)
  let ?q = "ucast (d_quantity d mod 50 + 1) :: u32"
  have q: "unat ?q = unat (d_quantity d) mod 50 + 1" by (rule demo_quantity)
  then have q': "1 \<le> unat ?q" "unat ?q \<le> 50" by simp_all
  have disp: "0 < max 1 (?q div 5)" "max 1 (?q div 5) \<le> ?q"
    using q'(1) by (auto simp: max_def word_le_nat_alt word_less_nat_alt unat_div)
  show ?thesis using False i p q' disp
    by (auto simp: DemoBot_call_def DemoBot_new_def generateSingleOrder_def zero_client_order_def Let_def)
qed

section \<open>Processing times\<close>

record time_summary =
  ts_total :: int
  ts_count :: nat
  ts_p10 :: int
  ts_p50 :: int
  ts_p90 :: int
  ts_p99 :: int

text \<open>
  The sorted vector and what is printed; the average is \<open>ts_total\<close> divided by \<open>ts_count\<close> in floating point. \<open>None\<close> for an empty vector, whose element 0 is read. The sum is that of
  unbounded numbers: 64 bits hold the nanoseconds of three hundred years.
\<close>

definition process_processing_times :: "int list \<Rightarrow> (int list \<times> time_summary) option" where
  "process_processing_times ts = (let n = length ts; sorted_ts = sort ts in
     if n = 0 then None
     else Some (sorted_ts, \<lparr>ts_total = sum_list ts, ts_count = n, ts_p10 = sorted_ts ! (n div 10), ts_p50 = sorted_ts ! (n div 2),
       ts_p90 = sorted_ts ! (n * 9 div 10), ts_p99 = sorted_ts ! (n * 99 div 100)\<rparr>))"

lemma rank_of_sorted:
  assumes "i < length xs"
  shows "i < length (filter (\<lambda>x. x \<le> sort xs ! i) xs)"
proof -
  have s: "sorted (sort xs)" by simp
  have "length (filter (\<lambda>x. x \<le> sort xs ! i) xs) = size (filter_mset (\<lambda>x. x \<le> sort xs ! i) (mset xs))" by (simp flip: mset_filter)
  also have "\<dots> = length (filter (\<lambda>x. x \<le> sort xs ! i) (sort xs))" by (metis mset_filter mset_sort size_mset)
  also have "\<dots> = card {k. k < length (sort xs) \<and> sort xs ! k \<le> sort xs ! i}" by (rule length_filter_conv_card)
  also have "{..i} \<subseteq> {k. k < length (sort xs) \<and> sort xs ! k \<le> sort xs ! i}"
    using assms sorted_nth_mono [OF s] by auto
  then have "card {..i} \<le> card {k. k < length (sort xs) \<and> sort xs ! k \<le> sort xs ! i}" by (intro card_mono) auto
  then have "i < card {k. k < length (sort xs) \<and> sort xs ! k \<le> sort xs ! i}" by simp
  finally show ?thesis .
qed

text \<open>The percentiles are what they say: the p-th is reached by more than p per cent of the times, and they come in order.\<close>

theorem percentiles_rank:
  assumes "ts \<noteq> []"
  shows "\<exists>xs r. process_processing_times ts = Some (xs, r) \<and> mset xs = mset ts \<and> sorted xs \<and>
    ts_p10 r \<le> ts_p50 r \<and> ts_p50 r \<le> ts_p90 r \<and> ts_p90 r \<le> ts_p99 r \<and>
    length ts div 10 < length (filter (\<lambda>t. t \<le> ts_p10 r) ts) \<and> length ts div 2 < length (filter (\<lambda>t. t \<le> ts_p50 r) ts) \<and>
    length ts * 9 div 10 < length (filter (\<lambda>t. t \<le> ts_p90 r) ts) \<and> length ts * 99 div 100 < length (filter (\<lambda>t. t \<le> ts_p99 r) ts)"
proof -
  let ?n = "length ts"
  have n: "0 < ?n" using assms by simp
  then have i: "?n div 10 < ?n" "?n div 2 < ?n" "?n * 9 div 10 < ?n" "?n * 99 div 100 < ?n" by linarith+
  have m: "sort ts ! a \<le> sort ts ! b" if "a \<le> b" "b < ?n" for a b using that by (simp add: sorted_nth_mono)
  have "?n div 10 \<le> ?n div 2" "?n div 2 \<le> ?n * 9 div 10" "?n * 9 div 10 \<le> ?n * 99 div 100" by linarith+
  then show ?thesis using n i m i(1,2,3,4) [THEN rank_of_sorted] by (simp add: process_processing_times_def Let_def)
qed

section \<open>Endings\<close>

text \<open>\<open>~OrderManagementSystem\<close>: \<open>stop\<close>, then the consumers are deleted; the prices are unmapped when the constructor had mapped them.\<close>

definition OrderManagementSystem_delete :: "OrderManagementSystem \<Rightarrow> MarketState option \<Rightarrow> OrderManagementSystem \<times> MarketState option" where
  "OrderManagementSystem_delete s shared_memory = ((oms_stop s)\<lparr>trade_consumers := []\<rparr>, None)"

text \<open>The descriptors the persistence thread closes.\<close>

definition close_files :: "int list \<Rightarrow> int list" where
  "close_files fdArray = filter (\<lambda>fd. fd \<noteq> - 1 \<and> fd \<noteq> 0) fdArray"

section \<open>The store's main function\<close>

text \<open>The threads \<^verbatim>\<open>live_tp.cpp\<close> starts for \<open>n\<close> processors, and the order in which it waits for them.\<close>

datatype tp_thread = WriterThread nat | PersistenceThread nat

definition live_tp_starts :: "nat \<Rightarrow> tp_thread list" where
  "live_tp_starts n = concat (map (\<lambda>i. [WriterThread i, PersistenceThread i]) [0..<n])"

definition live_tp_joins :: "nat \<Rightarrow> tp_thread list" where
  "live_tp_joins n = map WriterThread [0..<n] @ map PersistenceThread [0..<n]"

text \<open>Every thread is started once and waited for once, so that \<open>main\<close> returns when the last of them has ended.\<close>

theorem live_tp_joins_all: "mset (live_tp_joins n) = mset (live_tp_starts n) \<and> distinct (live_tp_starts n)"
proof (induction n)
  case (Suc n)
  have "distinct (live_tp_starts (Suc n))"
    using Suc by (auto simp: live_tp_starts_def)
  then show ?case using Suc by (simp add: live_tp_starts_def live_tp_joins_def)
qed (simp add: live_tp_starts_def live_tp_joins_def)

end
