(* ===== verification/Order_Server.thy ===== *)
theory Order_Server
  imports State_Machine Client_Wire
begin

text \<open>
  The threads of \<^verbatim>\<open>src/src/oms_order_receiving_server.cpp\<close>: the accept loop, one session per client and \<open>stop\<close>, interleaved step by step. What a session
  reads and enqueues is the theory \<open>Client_Wire\<close>; here it is a thread that runs until its connection ends or the server shuts down. The kernel
  hands out file descriptors; \<open>sv_open\<close> are the client sockets open at the moment.
\<close>

section \<open>State\<close>

text \<open>Where the accept loop, a session and \<open>stop\<close> are. A session that has left its loop closes its socket before it takes the descriptor off the list.\<close>

datatype accept_pc = AtTest | InAccept | AcceptEnded
datatype session_pc = InSession | SocketClosed | SessionEnded
datatype stop_pc = NotStopping | FlagSet | ServerClosed | AcceptJoined | ClientsShut | Stopped

record OrderReceivingServer =
  sv_shutdown :: bool
  sv_server_fd :: int
  sv_active_client_fds :: "int list"
  sv_client_threads :: "(int \<times> session_pc) list"
  sv_accept :: accept_pc
  sv_stop :: stop_pc
  sv_open :: "int list"
  sv_shut :: "int list"

text \<open>After the constructor and \<open>start\<close>, with the listening socket \<open>fd\<close>.\<close>

definition OrderReceivingServer_start :: "int \<Rightarrow> OrderReceivingServer" where
  "OrderReceivingServer_start fd = \<lparr>sv_shutdown = False, sv_server_fd = fd, sv_active_client_fds = [], sv_client_threads = [],
     sv_accept = AtTest, sv_stop = NotStopping, sv_open = [], sv_shut = []\<rparr>"

section \<open>The accept loop\<close>

definition accept_test :: "OrderReceivingServer \<Rightarrow> OrderReceivingServer option" where
  "accept_test s = (if sv_accept s = AtTest
     then Some (s\<lparr>sv_accept := if sv_shutdown s then AcceptEnded else InAccept\<rparr>) else None)"

text \<open>\<open>accept\<close> returns a descriptor, or fails; after a failure only the shutdown flag ends the loop.\<close>

definition accept_client :: "int \<Rightarrow> OrderReceivingServer \<Rightarrow> OrderReceivingServer option" where
  "accept_client client_fd s = (if sv_accept s = InAccept
     then Some (s\<lparr>sv_active_client_fds := sv_active_client_fds s @ [client_fd],
       sv_client_threads := sv_client_threads s @ [(client_fd, InSession)], sv_accept := AtTest, sv_open := client_fd # sv_open s\<rparr>)
     else None)"

definition accept_fail :: "OrderReceivingServer \<Rightarrow> OrderReceivingServer option" where
  "accept_fail s = (if sv_accept s = InAccept
     then Some (s\<lparr>sv_accept := if sv_shutdown s then AcceptEnded else AtTest\<rparr>) else None)"

section \<open>The end of a session\<close>

definition session_close :: "nat \<Rightarrow> OrderReceivingServer \<Rightarrow> OrderReceivingServer option" where
  "session_close i s = (if i < length (sv_client_threads s) \<and> snd (sv_client_threads s ! i) = InSession
     then (let client_fd = fst (sv_client_threads s ! i) in
       Some (s\<lparr>sv_client_threads := (sv_client_threads s)[i := (client_fd, SocketClosed)], sv_open := remove1 client_fd (sv_open s)\<rparr>))
     else None)"

definition session_remove :: "nat \<Rightarrow> OrderReceivingServer \<Rightarrow> OrderReceivingServer option" where
  "session_remove i s = (if i < length (sv_client_threads s) \<and> snd (sv_client_threads s ! i) = SocketClosed
     then (let client_fd = fst (sv_client_threads s ! i) in
       Some (s\<lparr>sv_client_threads := (sv_client_threads s)[i := (client_fd, SessionEnded)],
         sv_active_client_fds := removeClientFd (sv_active_client_fds s) client_fd\<rparr>))
     else None)"

section \<open>Stopping\<close>

text \<open>The five stages of \<open>stop\<close>: the two joins wait for the accept thread and for every session.\<close>

definition stop_step :: "OrderReceivingServer \<Rightarrow> OrderReceivingServer option" where
  "stop_step s = (case sv_stop s of
     NotStopping \<Rightarrow> Some (s\<lparr>sv_shutdown := True, sv_stop := FlagSet\<rparr>)
   | FlagSet \<Rightarrow> Some (if sv_server_fd s \<noteq> - 1 then s\<lparr>sv_server_fd := - 1, sv_stop := ServerClosed\<rparr> else s\<lparr>sv_stop := ServerClosed\<rparr>)
   | ServerClosed \<Rightarrow> if sv_accept s = AcceptEnded then Some (s\<lparr>sv_stop := AcceptJoined\<rparr>) else None
   | AcceptJoined \<Rightarrow> Some (s\<lparr>sv_shut := sv_active_client_fds s, sv_stop := ClientsShut\<rparr>)
   | ClientsShut \<Rightarrow> if \<forall>t \<in> set (sv_client_threads s). snd t = SessionEnded
       then Some (s\<lparr>sv_client_threads := [], sv_stop := Stopped\<rparr>) else None
   | Stopped \<Rightarrow> None)"

datatype server_event = AcceptTest | Accepted int | AcceptFailed | SessionClose nat | SessionRemove nat | Stop

fun server_step :: "server_event \<Rightarrow> OrderReceivingServer \<Rightarrow> OrderReceivingServer option" where
  "server_step AcceptTest s = accept_test s"
| "server_step (Accepted fd) s = accept_client fd s"
| "server_step AcceptFailed s = accept_fail s"
| "server_step (SessionClose i) s = session_close i s"
| "server_step (SessionRemove i) s = session_remove i s"
| "server_step Stop s = stop_step s"

text \<open>The kernel never hands out a descriptor that is in use.\<close>

fun fresh_fds :: "OrderReceivingServer \<Rightarrow> server_event \<Rightarrow> bool" where
  "fresh_fds s (Accepted fd) = (0 \<le> fd \<and> fd \<notin> set (sv_open s))"
| "fresh_fds s e = True"

section \<open>The invariant\<close>

definition live_fds :: "session_pc set \<Rightarrow> (int \<times> session_pc) list \<Rightarrow> int list" where
  "live_fds pcs ts = map fst (filter (\<lambda>t. snd t \<in> pcs) ts)"

text \<open>
  The list of active descriptors is that of the sessions that have not ended, each once, whatever descriptors were reused; the open sockets are those of
  the sessions in their loop; and once the accept loop has ended there are no new ones.
\<close>

definition server_inv :: "OrderReceivingServer \<Rightarrow> bool" where
  "server_inv s \<longleftrightarrow> mset (sv_active_client_fds s) = mset (live_fds {InSession, SocketClosed} (sv_client_threads s)) \<and>
     mset (sv_open s) = mset (live_fds {InSession} (sv_client_threads s)) \<and> distinct (sv_open s) \<and>
     (sv_shutdown s \<longleftrightarrow> sv_stop s \<noteq> NotStopping) \<and> (sv_accept s = AcceptEnded \<longrightarrow> sv_shutdown s) \<and>
     (sv_stop s \<in> {AcceptJoined, ClientsShut, Stopped} \<longrightarrow> sv_accept s = AcceptEnded) \<and>
     (sv_stop s = ClientsShut \<longrightarrow> set (sv_open s) \<subseteq> set (sv_shut s)) \<and> (sv_stop s = Stopped \<longrightarrow> sv_client_threads s = [])"

lemma live_fds_simps [simp]:
  "live_fds pcs [] = []" "live_fds pcs (t # ts) = (if snd t \<in> pcs then [fst t] else []) @ live_fds pcs ts"
  "live_fds pcs (ts @ us) = live_fds pcs ts @ live_fds pcs us"
  by (simp_all add: live_fds_def)

lemma thread_split:
  assumes "i < length ts" "snd (ts ! i) = p"
  obtains us fd vs where "ts = us @ (fd, p) # vs" "fst (ts ! i) = fd" "ts[i := (fd, q)] = us @ (fd, q) # vs"
proof -
  have "ts = take i ts @ (fst (ts ! i), p) # drop (Suc i) ts" using id_take_nth_drop [OF assms(1)] assms(2) by (metis prod.collapse)
  then show ?thesis using that [of "take i ts" "fst (ts ! i)" "drop (Suc i) ts"] upd_conv_take_nth_drop [OF assms(1)] by simp
qed

lemma inv_accept_test: "server_inv s \<Longrightarrow> accept_test s = Some s' \<Longrightarrow> server_inv s'"
  by (cases "sv_shutdown s"; cases "sv_stop s") (auto simp: server_inv_def accept_test_def split: if_splits)

lemma inv_accept_fail: "server_inv s \<Longrightarrow> accept_fail s = Some s' \<Longrightarrow> server_inv s'"
  by (cases "sv_shutdown s"; cases "sv_stop s") (auto simp: server_inv_def accept_fail_def split: if_splits)

lemma inv_accept_client:
  assumes "server_inv s" "accept_client fd s = Some s'" "fd \<notin> set (sv_open s)" shows "server_inv s'"
proof -
  have "sv_accept s = InAccept" and s': "s' = s\<lparr>sv_active_client_fds := sv_active_client_fds s @ [fd],
      sv_client_threads := sv_client_threads s @ [(fd, InSession)], sv_accept := AtTest, sv_open := fd # sv_open s\<rparr>"
    using assms(2) by (auto simp: accept_client_def split: if_splits)
  then have "sv_stop s \<notin> {AcceptJoined, ClientsShut, Stopped}" using assms(1) by (auto simp: server_inv_def)
  then show ?thesis using assms(1,3) by (simp add: server_inv_def s')
qed

lemma inv_session_close:
  assumes "server_inv s" "session_close i s = Some s'" shows "server_inv s'"
proof -
  have i: "i < length (sv_client_threads s)" "snd (sv_client_threads s ! i) = InSession"
    and s': "s' = s\<lparr>sv_client_threads := (sv_client_threads s)[i := (fst (sv_client_threads s ! i), SocketClosed)],
      sv_open := remove1 (fst (sv_client_threads s ! i)) (sv_open s)\<rparr>"
    using assms(2) by (auto simp: session_close_def Let_def split: if_splits)
  obtain us fd vs where t: "sv_client_threads s = us @ (fd, InSession) # vs" "fst (sv_client_threads s ! i) = fd"
    "(sv_client_threads s)[i := (fd, SocketClosed)] = us @ (fd, SocketClosed) # vs" by (rule thread_split [OF i])
  have "set (sv_open s) \<subseteq> A \<longrightarrow> set (remove1 fd (sv_open s)) \<subseteq> A" for A using set_remove1_subset by fast
  moreover have "s' = s\<lparr>sv_client_threads := us @ (fd, SocketClosed) # vs, sv_open := remove1 fd (sv_open s)\<rparr>" using s' t(2,3) by simp
  ultimately show ?thesis using assms(1) t(1) by (auto simp: server_inv_def)
qed

lemma inv_session_remove:
  assumes "server_inv s" "session_remove i s = Some s'" shows "server_inv s'"
proof -
  have i: "i < length (sv_client_threads s)" "snd (sv_client_threads s ! i) = SocketClosed"
    and s': "s' = s\<lparr>sv_client_threads := (sv_client_threads s)[i := (fst (sv_client_threads s ! i), SessionEnded)],
      sv_active_client_fds := removeClientFd (sv_active_client_fds s) (fst (sv_client_threads s ! i))\<rparr>"
    using assms(2) by (auto simp: session_remove_def Let_def split: if_splits)
  obtain us fd vs where t: "sv_client_threads s = us @ (fd, SocketClosed) # vs" "fst (sv_client_threads s ! i) = fd"
    "(sv_client_threads s)[i := (fd, SessionEnded)] = us @ (fd, SessionEnded) # vs" by (rule thread_split [OF i])
  then have "s' = s\<lparr>sv_client_threads := us @ (fd, SessionEnded) # vs, sv_active_client_fds := removeClientFd (sv_active_client_fds s) fd\<rparr>"
    using s' by simp
  then show ?thesis using assms(1) t(1) by (auto simp: server_inv_def removeClientFd_def)
qed

lemma live_fds_mono: "pcs \<subseteq> qcs \<Longrightarrow> set (live_fds pcs ts) \<subseteq> set (live_fds qcs ts)"
  by (auto simp: live_fds_def)

lemma live_fds_none: "\<forall>t \<in> set ts. snd t = SessionEnded \<Longrightarrow> SessionEnded \<notin> pcs \<Longrightarrow> live_fds pcs ts = []"
  by (auto simp: live_fds_def filter_empty_conv)

lemma inv_stop:
  assumes "server_inv s" "stop_step s = Some s'" shows "server_inv s'"
proof (cases "sv_stop s")
  case AcceptJoined
  have "set (sv_open s) \<subseteq> set (sv_active_client_fds s)"
    using assms(1) live_fds_mono [of "{InSession}" "{InSession, SocketClosed}" "sv_client_threads s"]
    by (auto simp: server_inv_def dest!: mset_eq_setD)
  then show ?thesis using assms AcceptJoined by (auto simp: server_inv_def stop_step_def)
next
  case ClientsShut
  then have "\<forall>t \<in> set (sv_client_threads s). snd t = SessionEnded" "s' = s\<lparr>sv_client_threads := [], sv_stop := Stopped\<rparr>"
    using assms(2) by (auto simp: stop_step_def split: if_splits)
  then show ?thesis using assms(1) ClientsShut by (simp add: server_inv_def live_fds_none)
qed (use assms in \<open>auto simp: server_inv_def stop_step_def split: if_splits\<close>)

interpretation srv: step_invariant fresh_fds server_step server_inv
proof unfold_locales
  fix s e s' assume a: "server_inv s" "fresh_fds s e" "server_step e s = Some s'"
  then show "server_inv s'"
    by (cases e) (auto intro: inv_accept_test inv_accept_client inv_accept_fail inv_session_close inv_session_remove inv_stop)
qed

lemma server_start_inv: "server_inv (OrderReceivingServer_start fd)"
  by (simp add: server_inv_def OrderReceivingServer_start_def)

section \<open>Stopping ends\<close>

text \<open>The threads can always get to a state with \<open>P\<close>.\<close>

definition can_reach :: "(OrderReceivingServer \<Rightarrow> bool) \<Rightarrow> OrderReceivingServer \<Rightarrow> bool" where
  "can_reach P s \<longleftrightarrow> (\<exists>es s'. run_steps fresh_fds server_step es s = Some s' \<and> P s')"

lemma can_reach_now: "P s \<Longrightarrow> can_reach P s"
  unfolding can_reach_def by (rule exI [of _ "[]"]) simp

lemma can_reach_step: "server_step e s = Some s1 \<Longrightarrow> fresh_fds s e \<Longrightarrow> can_reach P s1 \<Longrightarrow> can_reach P s"
proof -
  assume a: "server_step e s = Some s1" "fresh_fds s e" "can_reach P s1"
  then obtain es s' where "run_steps fresh_fds server_step es s1 = Some s'" "P s'" by (auto simp: can_reach_def)
  then show ?thesis unfolding can_reach_def using a(1,2) by (intro exI [of _ "e # es"]) simp
qed

definition unfinished :: "(int \<times> session_pc) list \<Rightarrow> nat" where
  "unfinished ts = (\<Sum>t\<leftarrow>ts. case snd t of InSession \<Rightarrow> 2 | SocketClosed \<Rightarrow> 1 | SessionEnded \<Rightarrow> 0)"

lemma unfinished_0: "unfinished ts = 0 \<longleftrightarrow> (\<forall>t \<in> set ts. snd t = SessionEnded)"
  by (induction ts) (auto simp: unfinished_def split: session_pc.splits)

text \<open>Once the client sockets are shut down every session ends, and with the last one \<open>stop\<close>.\<close>

lemma clients_end: "sv_stop s = ClientsShut \<Longrightarrow> can_reach (\<lambda>s. sv_stop s = Stopped) s"
proof (induction "unfinished (sv_client_threads s)" arbitrary: s rule: less_induct)
  case less
  show ?case
  proof (cases "\<forall>t \<in> set (sv_client_threads s). snd t = SessionEnded")
    case True
    show ?thesis by (rule can_reach_step [of Stop]) (use True less.prems in \<open>auto simp: stop_step_def intro!: can_reach_now\<close>)
  next
    case False
    then obtain i where i: "i < length (sv_client_threads s)" "snd (sv_client_threads s ! i) \<noteq> SessionEnded" by (metis in_set_conv_nth)
    define fd where "fd = fst (sv_client_threads s ! i)"
    show ?thesis
    proof (cases "snd (sv_client_threads s ! i)")
      case InSession
      let ?s = "s\<lparr>sv_client_threads := (sv_client_threads s)[i := (fd, SocketClosed)], sv_open := remove1 fd (sv_open s)\<rparr>"
      obtain us vs where "sv_client_threads s = us @ (fd, InSession) # vs" "(sv_client_threads s)[i := (fd, SocketClosed)] = us @ (fd, SocketClosed) # vs"
        using thread_split [OF i(1) InSession] fd_def by metis
      then have "unfinished (sv_client_threads ?s) < unfinished (sv_client_threads s)" by (simp add: unfinished_def)
      then have "can_reach (\<lambda>s. sv_stop s = Stopped) ?s" using less by simp
      then show ?thesis
        by (rule can_reach_step [of "SessionClose i", rotated 2]) (use i(1) InSession in \<open>auto simp: session_close_def fd_def Let_def\<close>)
    next
      case SocketClosed
      let ?s = "s\<lparr>sv_client_threads := (sv_client_threads s)[i := (fd, SessionEnded)], sv_active_client_fds := removeClientFd (sv_active_client_fds s) fd\<rparr>"
      obtain us vs where "sv_client_threads s = us @ (fd, SocketClosed) # vs" "(sv_client_threads s)[i := (fd, SessionEnded)] = us @ (fd, SessionEnded) # vs"
        using thread_split [OF i(1) SocketClosed] fd_def by metis
      then have "unfinished (sv_client_threads ?s) < unfinished (sv_client_threads s)" by (simp add: unfinished_def)
      then have "can_reach (\<lambda>s. sv_stop s = Stopped) ?s" using less by simp
      then show ?thesis
        by (rule can_reach_step [of "SessionRemove i", rotated 2]) (use i(1) SocketClosed in \<open>auto simp: session_remove_def fd_def Let_def\<close>)
    qed (use i in simp)
  qed
qed

lemma accept_joined: "sv_stop s = AcceptJoined \<Longrightarrow> can_reach (\<lambda>s. sv_stop s = Stopped) s"
  by (rule can_reach_step [of Stop]) (auto simp: stop_step_def intro: clients_end)

lemma server_closed:
  assumes "sv_stop s = ServerClosed" "sv_shutdown s" shows "can_reach (\<lambda>s. sv_stop s = Stopped) s"
proof -
  have ended: "can_reach (\<lambda>s. sv_stop s = Stopped) t" if "sv_stop t = ServerClosed" "sv_accept t = AcceptEnded" for t
    by (rule can_reach_step [of Stop]) (use that in \<open>auto simp: stop_step_def intro: accept_joined\<close>)
  show ?thesis
  proof (cases "sv_accept s")
    case AtTest
    show ?thesis by (rule can_reach_step [of AcceptTest]) (use assms AtTest in \<open>auto simp: accept_test_def intro: ended\<close>)
  next
    case InAccept
    show ?thesis by (rule can_reach_step [of AcceptFailed]) (use assms InAccept in \<open>auto simp: accept_fail_def intro: ended\<close>)
  qed (use assms ended in simp)
qed

lemma stop_reached: "server_inv s \<Longrightarrow> can_reach (\<lambda>s. sv_stop s = Stopped) s"
proof (cases "sv_stop s")
  case FlagSet
  moreover assume "server_inv s"
  ultimately show ?thesis
    by - (rule can_reach_step [of Stop], auto simp: stop_step_def server_inv_def intro: server_closed)
next
  case NotStopping
  let ?s = "s\<lparr>sv_shutdown := True, sv_stop := FlagSet\<rparr>"
  have "can_reach (\<lambda>s. sv_stop s = Stopped) ?s" by (rule can_reach_step [of Stop]) (auto simp: stop_step_def intro: server_closed)
  then show ?thesis by (rule can_reach_step [of Stop, rotated 2]) (use NotStopping in \<open>simp_all add: stop_step_def\<close>)
qed (auto simp: server_inv_def intro: server_closed accept_joined clients_end can_reach_now)

section \<open>Properties of the server\<close>

text \<open>
  However the threads interleave and whichever descriptors the kernel reuses, the list of active descriptors is that of the sessions which have
  not ended, and the open client sockets are those of the sessions in their loop, no two of them the same.
\<close>

theorem server_tracks_sessions:
  assumes "run_steps fresh_fds server_step es (OrderReceivingServer_start fd) = Some s"
  shows "mset (sv_active_client_fds s) = mset (live_fds {InSession, SocketClosed} (sv_client_threads s)) \<and>
    mset (sv_open s) = mset (live_fds {InSession} (sv_client_threads s)) \<and> distinct (sv_open s)"
  using srv.run_inv [OF assms server_start_inv] by (simp add: server_inv_def)

lemmas server_eval = OrderReceivingServer_start_def accept_test_def accept_client_def accept_fail_def session_close_def session_remove_def
  stop_step_def removeClientFd_def

text \<open>Two clients, the first of which ends while the second gets its reused descriptor.\<close>

theorem server_tracks_sessions_witness:
  "\<exists>s. run_steps fresh_fds server_step [AcceptTest, Accepted 7, SessionClose 0, AcceptTest, Accepted 7] (OrderReceivingServer_start 3) = Some s \<and>
    sv_active_client_fds s = [7, 7] \<and> sv_open s = [7] \<and> distinct (sv_open s)"
proof -
  obtain s where s: "run_steps fresh_fds server_step [AcceptTest, Accepted 7, SessionClose 0, AcceptTest, Accepted 7] (OrderReceivingServer_start 3) = Some s"
    "sv_active_client_fds s = [7, 7]" "sv_open s = [7]"
    by (simp add: server_eval)
  then show ?thesis using server_tracks_sessions [OF s(1)] by simp
qed


text \<open>
  A session closes its socket before it takes the descriptor off the list; \<open>stop\<close> may run in between and then shuts down a descriptor that is
  closed, or by then belongs to someone else.
\<close>

definition late_stop :: "server_event list" where
  "late_stop = [AcceptTest, Accepted 7, AcceptTest, SessionClose 0, Stop, Stop, AcceptFailed, Stop, Stop]"

lemma stop_shuts_closed_descriptor:
  "\<exists>s. run_steps fresh_fds server_step late_stop (OrderReceivingServer_start 3) = Some s \<and> sv_shut s = [7] \<and> sv_open s = []"
  by (simp add: late_stop_def server_eval)


end
