(* ===== verification/Feed_Recovery.thy ===== *)
theory Feed_Recovery
  imports Market_Feed
begin

text \<open>
  Recovery of lost market data: the listener of \<^verbatim>\<open>src/src/listener.cpp\<close> watches the sequence numbers of the datagrams and asks for the missing
  ones; the retransmitter of \<^verbatim>\<open>src/src/retransmitter.cpp\<close> keeps the last \<open>2^20\<close> messages it got over TCP and answers.
  The kernel's side is a parameter: the chunks \<open>recv\<close> delivers and the events \<open>poll\<close> reports.
\<close>

section \<open>The listener\<close>

record Listener =
  li_last_seq_num :: u64
  li_queue :: "u64 spsc"
  li_done :: bool

definition Listener_new :: "(u64 \<Rightarrow> u64) \<Rightarrow> Listener" where
  "Listener_new mem = \<lparr>li_last_seq_num = 0, li_queue = spsc_new mem, li_done = False\<rparr>"

text \<open>The loop that queues the missing numbers; \<open>n\<close> is the number of rounds left, and the result of \<open>push\<close> is ignored.\<close>

fun push_missing :: "nat \<Rightarrow> u64 \<Rightarrow> u64 spsc \<Rightarrow> u64 spsc option" where
  "push_missing 0 missing q = Some q"
| "push_missing (Suc n) missing q = do {
     (q1, _) \<leftarrow> spsc_push 20 q missing;
     push_missing n (missing + 1) q1
   }"

definition receive_message :: "MarketDataMessage \<Rightarrow> Listener \<Rightarrow> Listener option" where
  "receive_message msg l = do {
     q \<leftarrow> (if md_seq_num msg > li_last_seq_num l + 1
          then push_missing (unat (md_seq_num msg) - unat (li_last_seq_num l + 1)) (li_last_seq_num l + 1) (li_queue l)
          else Some (li_queue l));
     Some (l\<lparr>li_queue := q, li_last_seq_num := md_seq_num msg\<rparr>)
   }"

fun receive_messages :: "MarketDataMessage list \<Rightarrow> Listener \<Rightarrow> Listener option" where
  "receive_messages [] l = Some l"
| "receive_messages (msg # msgs) l = do { l1 \<leftarrow> receive_message msg l; receive_messages msgs l1 }"

text \<open>One pass of \<open>listener\<close>: the datagrams of one \<open>recvmmsg\<close>, each cut into whole messages.\<close>

definition packet_messages :: "u8 list \<Rightarrow> MarketDataMessage list" where
  "packet_messages bytes = map (\<lambda>i. message_of_bytes (field (i * message_size) message_size bytes)) [0..<length bytes div message_size]"

definition listener_pass :: "u8 list list \<Rightarrow> Listener \<Rightarrow> Listener option" where
  "listener_pass packets l = (if li_done l then Some l else receive_messages (concat (map packet_messages packets)) l)"

text \<open>
  One round of \<open>missing_packet_request\<close>: the next number is sent, and the answer read. \<open>reply\<close> is what the other end sends back; \<open>None\<close>
  is a \<open>recv\<close> that waits forever, an empty answer a closed connection.
\<close>

definition missing_packet_request_pass :: "(u8 list \<Rightarrow> u8 list option) \<Rightarrow> Listener \<Rightarrow>
    (Listener \<times> (u64 \<times> MarketDataMessage) option) option" where
  "missing_packet_request_pass reply l = do {
     (q, r) \<leftarrow> spsc_pop 20 (li_queue l);
     let l1 = l\<lparr>li_queue := q\<rparr>;
     (case r of
        None \<Rightarrow> Some (l1, None)
      | Some seq_num \<Rightarrow> (case reply (le_bytes 8 (unat seq_num)) of
            None \<Rightarrow> None
          | Some bytes \<Rightarrow> Some (if bytes = [] then (l1\<lparr>li_done := True\<rparr>, None) else (l1, Some (seq_num, message_of_bytes bytes)))))
   }"

section \<open>The retransmitter\<close>

text \<open>The array of \<open>SIZE\<close> messages is not initialised; \<open>rt_pending\<close> are the bytes of an incomplete message.\<close>

definition SIZE :: u64 where "SIZE = 2 ^ 20"

record Retransmitter =
  rt_buffer :: "u64 \<Rightarrow> MarketDataMessage"
  rt_pending :: "u8 list"
  rt_done :: bool

definition Retransmitter_new :: "(u64 \<Rightarrow> MarketDataMessage) \<Rightarrow> Retransmitter" where
  "Retransmitter_new mem = \<lparr>rt_buffer = mem, rt_pending = [], rt_done = False\<rparr>"

definition store_message :: "MarketDataMessage \<Rightarrow> (u64 \<Rightarrow> MarketDataMessage) \<Rightarrow> (u64 \<Rightarrow> MarketDataMessage)" where
  "store_message msg buffer = buffer(md_seq_num msg AND (SIZE - 1) := msg)"

text \<open>The parsing loop of \<open>storeThread\<close>: whole messages are stored, the leftover bytes stay.\<close>

function parse_messages :: "(u64 \<Rightarrow> MarketDataMessage) \<Rightarrow> u8 list \<Rightarrow> (u64 \<Rightarrow> MarketDataMessage) \<times> u8 list" where
  "parse_messages buffer bytes = (if length bytes \<ge> message_size
     then parse_messages (store_message (message_of_bytes (take message_size bytes)) buffer) (drop message_size bytes)
     else (buffer, bytes))"
  by auto
termination by (relation "measure (\<lambda>(b, bs). length bs)") (auto simp: message_size_def)

declare parse_messages.simps [simp del]

text \<open>What \<open>recv\<close> gives the loop: bytes, nothing yet, the end of the stream, or an error.\<close>

datatype store_event = Data "u8 list" | NotYet | PeerClosed | RecvError

fun storeThread :: "store_event list \<Rightarrow> Retransmitter \<Rightarrow> Retransmitter option" where
  "storeThread [] r = None"
| "storeThread (Data bytes # evs) r =
     (let (buffer, leftover) = parse_messages (rt_buffer r) (rt_pending r @ bytes)
      in storeThread evs (r\<lparr>rt_buffer := buffer, rt_pending := leftover\<rparr>))"
| "storeThread (NotYet # evs) r = storeThread evs r"
| "storeThread (PeerClosed # evs) r = Some (r\<lparr>rt_done := True\<rparr>)"
| "storeThread (RecvError # evs) r = Some (r\<lparr>rt_done := True\<rparr>)"

text \<open>The answer to a request: the cached message, if it is the one asked for; otherwise nothing is sent.\<close>

definition serve_request :: "Retransmitter \<Rightarrow> u64 \<Rightarrow> MarketDataMessage option" where
  "serve_request r requested_seq = (let cached = rt_buffer r (requested_seq AND (SIZE - 1)) in
     if md_seq_num cached = requested_seq then Some cached else None)"

text \<open>
  The loop of \<open>listenerThread\<close> over the client connections, with \<open>activity\<close> events left. A connection is ready with
  the bytes its \<open>recv\<close> delivers (none: the client is gone), with an error, or it is not ready.
\<close>

datatype client_event = Idle | Bytes "u8 list" | WouldBlock | Broken

fun serve_clients :: "Retransmitter \<Rightarrow> int \<Rightarrow> (int \<times> client_event) list \<Rightarrow> int list \<times> (int \<times> MarketDataMessage) list" where
  "serve_clients r activity [] = ([], [])"
| "serve_clients r activity ((fd, ev) # clients) =
     (let (keep, replies) = (case ev of
            Idle \<Rightarrow> ([fd], [])
          | Bytes bs \<Rightarrow> (if length bs = 8
              then ([fd], case serve_request r (of_nat (le_value bs)) of None \<Rightarrow> [] | Some m \<Rightarrow> [(fd, m)])
              else if bs = [] then ([], []) else ([fd], []))
          | WouldBlock \<Rightarrow> ([fd], [])
          | Broken \<Rightarrow> ([], []));
          activity1 = (if ev = Idle then activity else activity - 1);
          (keeps, replies') = (if ev \<noteq> Idle \<and> activity1 \<le> 0 then (map fst clients, []) else serve_clients r activity1 clients)
      in (keep @ keeps, replies @ replies'))"

section \<open>What the listener asks for\<close>

lemma push_missing_ok:
  assumes "spsc_inv 20 q" "length (spsc_contents 20 q) + n < 2 ^ 20" "unat missing + n < 2 ^ 64"
  shows "\<exists>q'. push_missing n missing q = Some q' \<and> spsc_inv 20 q' \<and>
    map unat (spsc_contents 20 q') = map unat (spsc_contents 20 q) @ [unat missing..<unat missing + n]"
  using assms
proof (induction n arbitrary: q missing)
  case (Suc n)
  obtain q1 where q1: "spsc_push 20 q missing = Some (q1, True)" "spsc_inv 20 q1" "spsc_contents 20 q1 = spsc_contents 20 q @ [missing]"
    using sq.push_accept [OF Suc.prems(1), of missing] Suc.prems(2) by auto
  have u: "unat (missing + 1) = Suc (unat missing)" using Suc.prems(3) by (intro unat_Suc_word) simp
  obtain q' where "push_missing n (missing + 1) q1 = Some q'" "spsc_inv 20 q'"
    "map unat (spsc_contents 20 q') = map unat (spsc_contents 20 q1) @ [Suc (unat missing)..<Suc (unat missing) + n]"
    using Suc.IH [OF q1(2), of "missing + 1"] Suc.prems(2,3) q1(3) u by auto
  moreover have "[unat missing..<unat missing + Suc n] = unat missing # [Suc (unat missing)..<Suc (unat missing) + n]"
    by (simp add: upt_rec)
  ultimately show ?case using q1 by simp
qed simp

lemma receive_message_ok:
  assumes "spsc_inv 20 (li_queue l)" "li_last_seq_num l < md_seq_num msg"
    "length (spsc_contents 20 (li_queue l)) + (unat (md_seq_num msg) - unat (li_last_seq_num l)) \<le> 2 ^ 20"
  obtains l' where "receive_message msg l = Some l'" "spsc_inv 20 (li_queue l')" "li_last_seq_num l' = md_seq_num msg"
    "map unat (spsc_contents 20 (li_queue l')) = map unat (spsc_contents 20 (li_queue l)) @
      [Suc (unat (li_last_seq_num l))..<unat (md_seq_num msg)]"
proof -
  let ?L = "li_last_seq_num l" and ?S = "md_seq_num msg"
  have lt: "unat ?L < unat ?S" using assms(2) by (simp add: word_less_nat_alt)
  have S: "unat ?S < 2 ^ 64" using unsigned_less [of ?S, where 'a = nat] by simp
  have u: "unat (?L + 1) = Suc (unat ?L)" using lt S by (intro unat_Suc_word) simp
  show thesis
  proof (cases "?S > ?L + 1")
    case True
    then have gt: "Suc (unat ?L) < unat ?S" by (simp add: word_less_nat_alt u)
    let ?n = "unat ?S - unat (?L + 1)"
    obtain q' where "push_missing ?n (?L + 1) (li_queue l) = Some q'" "spsc_inv 20 q'"
      "map unat (spsc_contents 20 q') = map unat (spsc_contents 20 (li_queue l)) @ [Suc (unat ?L)..<Suc (unat ?L) + ?n]"
    proof -
      have "length (spsc_contents 20 (li_queue l)) + ?n < 2 ^ 20" using assms(3) u gt by linarith
      then show thesis using push_missing_ok [OF assms(1), of ?n "?L + 1"] u gt S that by auto
    qed
    then show thesis using True gt u by (intro that [of "l\<lparr>li_queue := q', li_last_seq_num := ?S\<rparr>"]) (simp_all add: receive_message_def)
  next
    case False
    then have "unat ?S = Suc (unat ?L)" using lt by (simp add: word_less_nat_alt u)
    then show thesis using False assms(1) by (intro that [of "l\<lparr>li_last_seq_num := ?S\<rparr>"]) (simp_all add: receive_message_def)
  qed
qed

lemma receive_messages_ok:
  assumes "spsc_inv 20 (li_queue l)" "sorted_wrt (<) (li_last_seq_num l # map md_seq_num msgs)"
    "length (spsc_contents 20 (li_queue l)) + (unat (last (li_last_seq_num l # map md_seq_num msgs)) - unat (li_last_seq_num l)) \<le> 2 ^ 20"
  shows "\<exists>l'. receive_messages msgs l = Some l' \<and> spsc_inv 20 (li_queue l') \<and>
    li_last_seq_num l' = last (li_last_seq_num l # map md_seq_num msgs) \<and>
    map unat (spsc_contents 20 (li_queue l')) = map unat (spsc_contents 20 (li_queue l)) @
      filter (\<lambda>k. k \<notin> unat ` md_seq_num ` set msgs) [Suc (unat (li_last_seq_num l))..<Suc (unat (li_last_seq_num l'))]"
  using assms
proof (induction msgs arbitrary: l)
  case (Cons m msgs)
  let ?L = "unat (li_last_seq_num l)" and ?S = "unat (md_seq_num m)" and ?E = "last (md_seq_num m # map md_seq_num msgs)"
  have lt: "li_last_seq_num l < md_seq_num m" and srt: "sorted_wrt (<) (md_seq_num m # map md_seq_num msgs)" using Cons.prems(2) by simp_all
  have "?E \<in> set (md_seq_num m # map md_seq_num msgs)" by (rule last_in_set) simp
  then have "md_seq_num m \<le> ?E" using srt by (auto simp: less_imp_le)
  then have SE: "?S \<le> unat ?E" by (simp add: word_le_nat_alt)
  have LS: "?L < ?S" using lt by (simp add: word_less_nat_alt)
  obtain l1 where l1: "receive_message m l = Some l1" "spsc_inv 20 (li_queue l1)" "li_last_seq_num l1 = md_seq_num m"
    "map unat (spsc_contents 20 (li_queue l1)) = map unat (spsc_contents 20 (li_queue l)) @ [Suc ?L..<?S]"
  proof (rule receive_message_ok [OF Cons.prems(1) lt])
    have e: "last (li_last_seq_num l # map md_seq_num (m # msgs)) = ?E" by simp
    show "length (spsc_contents 20 (li_queue l)) + (?S - ?L) \<le> 2 ^ 20"
      using Cons.prems(3) [unfolded e] diff_le_mono [OF SE, of ?L] by linarith
  qed
  have "length (spsc_contents 20 (li_queue l1)) = length (spsc_contents 20 (li_queue l)) + (?S - Suc ?L)"
    using arg_cong [OF l1(4), of length] by simp
  then have bound: "length (spsc_contents 20 (li_queue l1)) + (unat (last (li_last_seq_num l1 # map md_seq_num msgs)) - unat (li_last_seq_num l1)) \<le> 2 ^ 20"
    using Cons.prems(3) SE LS l1(3) by simp
  obtain l' where l': "receive_messages msgs l1 = Some l'" "spsc_inv 20 (li_queue l')" "li_last_seq_num l' = ?E"
    "map unat (spsc_contents 20 (li_queue l')) = map unat (spsc_contents 20 (li_queue l1)) @
      filter (\<lambda>k. k \<notin> unat ` md_seq_num ` set msgs) [Suc ?S..<Suc (unat ?E)]"
    using Cons.IH [OF l1(2) _ bound] srt l1(3) by auto
  have above: "?S < unat (md_seq_num x)" if "x \<in> set msgs" for x
    using srt that by (auto simp: word_less_nat_alt)
  have split: "[Suc ?L..<Suc (unat ?E)] = [Suc ?L..<?S] @ ?S # [Suc ?S..<Suc (unat ?E)]"
    using upt_add_eq_append [of "Suc ?L" ?S "Suc (unat ?E) - ?S"] upt_conv_Cons [of ?S "Suc (unat ?E)"] LS SE by simp
  have "filter (\<lambda>k. k \<notin> unat ` md_seq_num ` set (m # msgs)) [Suc ?L..<?S] = [Suc ?L..<?S]"
    using above by (fastforce simp: filter_id_conv)
  moreover have "filter (\<lambda>k. k \<notin> unat ` md_seq_num ` set (m # msgs)) [Suc ?S..<Suc (unat ?E)] =
      filter (\<lambda>k. k \<notin> unat ` md_seq_num ` set msgs) [Suc ?S..<Suc (unat ?E)]"
    by (rule filter_cong) auto
  ultimately have "filter (\<lambda>k. k \<notin> unat ` md_seq_num ` set (m # msgs)) [Suc ?L..<Suc (unat ?E)] =
      [Suc ?L..<?S] @ filter (\<lambda>k. k \<notin> unat ` md_seq_num ` set msgs) [Suc ?S..<Suc (unat ?E)]"
    unfolding split filter_append filter.simps(2) by simp
  then have "map unat (spsc_contents 20 (li_queue l')) = map unat (spsc_contents 20 (li_queue l)) @
      filter (\<lambda>k. k \<notin> unat ` md_seq_num ` set (m # msgs)) [Suc ?L..<Suc (unat (li_last_seq_num l'))]"
    by (simp only: l'(3,4) l1(4) append_assoc)
  moreover have "receive_messages (m # msgs) l = Some l'" using l1(1) l'(1) by simp
  moreover have "li_last_seq_num l' = last (li_last_seq_num l # map md_seq_num (m # msgs))" using l'(3) by simp
  ultimately show ?case using l'(2) by blast
qed simp

section \<open>What the retransmitter keeps\<close>

lemma message_image:
  assumes "length pad = 24" shows "length (message_bytes pad m) = message_size" "message_of_bytes (message_bytes pad m) = m"
  using assms by (cases m; simp add: message_bytes_def message_size_def message_of_bytes_def field_def)+

lemma parse_messages_append:
  "parse_messages buffer (xs @ ys) = (case parse_messages buffer xs of (b, rest) \<Rightarrow> parse_messages b (rest @ ys))"
proof (induction buffer xs rule: parse_messages.induct)
  case (1 buffer bytes)
  show ?case
  proof (cases "length bytes \<ge> message_size")
    case True
    then show ?thesis using 1 by (simp add: parse_messages.simps [of buffer "bytes @ ys"] parse_messages.simps [of buffer bytes])
  qed (simp add: parse_messages.simps [of buffer bytes])
qed

lemma parse_messages_images:
  assumes "list_all2 (\<lambda>m bs. \<exists>pad. length pad = 24 \<and> bs = message_bytes pad m) msgs images"
  shows "parse_messages buffer (concat images) = (fold store_message msgs buffer, [])"
  using assms
proof (induction msgs arbitrary: images buffer)
  case Nil
  then show ?case by (simp add: parse_messages.simps [of buffer "[]"] message_size_def)
next
  case (Cons m msgs)
  obtain pad bs images' where im: "images = bs # images'" "length pad = 24" "bs = message_bytes pad m"
    "list_all2 (\<lambda>m bs. \<exists>pad. length pad = 24 \<and> bs = message_bytes pad m) msgs images'"
    using Cons.prems by (auto simp: list_all2_Cons1)
  have "length bs = message_size" "message_of_bytes bs = m" using message_image [OF im(2)] im(3) by simp_all
  then show ?case using Cons.IH [OF im(4)] im(1) by (simp add: parse_messages.simps [of buffer "bs @ concat images'"])
qed

fun store_stream :: "store_event list \<Rightarrow> u8 list" where
  "store_stream [] = []"
| "store_stream (Data bs # evs) = bs @ store_stream evs"
| "store_stream (NotYet # evs) = store_stream evs"
| "store_stream (e # evs) = []"

fun ends_closed :: "store_event list \<Rightarrow> bool" where
  "ends_closed [] = False"
| "ends_closed (Data bs # evs) = ends_closed evs"
| "ends_closed (NotYet # evs) = ends_closed evs"
| "ends_closed (e # evs) = True"

lemma parse_messages_rest: "length (snd (parse_messages buffer bytes)) < message_size"
proof (induction buffer bytes rule: parse_messages.induct)
  case (1 buffer bytes)
  then show ?case by (cases "length bytes \<ge> message_size") (simp_all add: parse_messages.simps [of buffer bytes])
qed

lemma storeThread_stream:
  assumes "ends_closed evs" "length (rt_pending r) < message_size"
  shows "storeThread evs r = Some (r\<lparr>rt_buffer := fst (parse_messages (rt_buffer r) (rt_pending r @ store_stream evs)),
    rt_pending := snd (parse_messages (rt_buffer r) (rt_pending r @ store_stream evs)), rt_done := True\<rparr>)"
  using assms
proof (induction evs r rule: storeThread.induct)
  case (2 bs evs r)
  obtain b rest where p: "parse_messages (rt_buffer r) (rt_pending r @ bs) = (b, rest)" by fastforce
  have "length rest < message_size" using parse_messages_rest [of "rt_buffer r" "rt_pending r @ bs"] p by simp
  then show ?case
    using 2 p parse_messages_append [of "rt_buffer r" "rt_pending r @ bs" "store_stream evs"] by simp
qed (simp_all add: parse_messages.simps [of "rt_buffer r" "rt_pending r" for r])

text \<open>The slot of a sequence number; the last \<open>2^20\<close> numbers have different slots.\<close>

lemma slot: "x AND (SIZE - 1) = take_bit 20 x"
  by (simp only: SIZE_def mask_eq_take_bit)

lemma cached:
  assumes "\<forall>i < length msgs. md_seq_num (msgs ! i) = of_nat i" "length msgs \<le> 2 ^ 64" "k < length msgs" "length msgs \<le> k + 2 ^ 20"
  shows "fold store_message msgs buffer (of_nat k AND (SIZE - 1)) = msgs ! k"
  using assms
proof (induction msgs rule: rev_induct)
  case (snoc m msgs)
  let ?n = "length msgs"
  have m: "md_seq_num m = of_nat ?n" using snoc.prems(1) by (metis length_append_singleton lessI nth_append_length)
  show ?case
  proof (cases "k = ?n")
    case True
    then show ?thesis using m by (simp add: store_message_def)
  next
    case False
    then have k: "k < ?n" "?n - k < 2 ^ 20" using snoc.prems(3,4) by auto
    have "take_bit 20 (0 + of_nat k :: u64) \<noteq> take_bit 20 (of_nat ?n)"
    proof
      assume "take_bit 20 (0 + of_nat k :: u64) = take_bit 20 (of_nat ?n)"
      then have "unat (take_bit 20 (of_nat k :: u64)) = unat (take_bit 20 (of_nat ?n :: u64))" by simp
      then have "k mod 2 ^ 20 = ?n mod 2 ^ 20" using k(1) snoc.prems(2) by (simp add: unat_take_bit_word unat_of_nat)
      then have "(k + 0) mod 2 ^ 20 = (k + (?n - k)) mod 2 ^ 20" using k(1) by simp
      then have "0 = ?n - k" using k(2) by (intro mod_add_inject [of 0 "?n - k" "2 ^ 20" k]) auto
      then show False using k(1) by simp
    qed
    then have ne: "(of_nat k :: u64) AND (SIZE - 1) \<noteq> md_seq_num m AND (SIZE - 1)"
      by (simp only: slot m) simp
    have "\<forall>i < length msgs. md_seq_num (msgs ! i) = of_nat i"
    proof (intro allI impI)
      fix i assume "i < length msgs"
      then show "md_seq_num (msgs ! i) = of_nat i" using snoc.prems(1) [rule_format, of i] by (simp add: nth_append)
    qed
    then have "fold store_message msgs buffer (of_nat k AND (SIZE - 1)) = msgs ! k" using snoc.IH snoc.prems k by simp
    then show ?thesis using ne k(1) by (simp add: store_message_def [of m] nth_append)
  qed
qed simp

section \<open>Properties of the recovery\<close>


lemma demo_message_seq: "md_seq_num (demo_message n) = n"
  by (simp add: demo_message_def)




end
