(* ===== verification/Retransmit_Server.thy ===== *)
theory Retransmit_Server
  imports State_Machine Feed_Recovery
begin

text \<open>
  \<open>listenerThread\<close> of \<^verbatim>\<open>src/src/retransmitter.cpp\<close>: one thread polls the listening socket and all client connections, accepts clients, answers their requests and
  drops the ones that are gone. What \<open>poll\<close>, \<open>accept\<close> and \<open>recv\<close> return is a parameter, round by round, and so is the cache, which the store thread changes meanwhile.
\<close>

section \<open>The loop\<close>

record poll_round =
  pr_activity :: int
  pr_eintr :: bool
  pr_mfr_finished :: bool
  pr_server_ready :: bool
  pr_accept :: int
  pr_events :: "int \<Rightarrow> client_event"
  pr_cache :: Retransmitter

text \<open>The vector \<open>poll_fds\<close> without its first entry, the listening socket; what was sent; the client descriptors closed so far.\<close>

record rt_server =
  rs_clients :: "int list"
  rs_replies :: "(int \<times> MarketDataMessage) list"
  rs_closed :: "int list"
  rs_running :: bool

definition rt_server_start :: rt_server where
  "rt_server_start = \<lparr>rs_clients = [], rs_replies = [], rs_closed = [], rs_running = True\<rparr>"

text \<open>Requests of the clients; a client that was just accepted is not ready.\<close>

definition serve_round :: "poll_round \<Rightarrow> int \<Rightarrow> int list \<Rightarrow> rt_server \<Rightarrow> rt_server" where
  "serve_round p activity accepted s =
     (let clients = map (\<lambda>fd. (fd, pr_events p fd)) (rs_clients s) @ map (\<lambda>fd. (fd, Idle)) accepted;
          (keep, replies) = serve_clients (pr_cache p) activity clients
      in s\<lparr>rs_clients := keep, rs_replies := rs_replies s @ replies,
         rs_closed := rs_closed s @ filter (\<lambda>fd. fd \<notin> set keep) (rs_clients s)\<rparr>)"

text \<open>The end of the thread: every client connection is shut down and closed.\<close>

definition listener_cleanup :: "rt_server \<Rightarrow> rt_server" where
  "listener_cleanup s = s\<lparr>rs_clients := [], rs_closed := rs_closed s @ rs_clients s, rs_running := False\<rparr>"

definition listener_round :: "poll_round \<Rightarrow> rt_server \<Rightarrow> rt_server option" where
  "listener_round p s = (if \<not> rs_running s then None
     else if pr_activity p < 0 then Some (if pr_eintr p then s else listener_cleanup s)
     else if pr_activity p = 0 \<and> pr_mfr_finished p then Some (listener_cleanup s)
     else if pr_server_ready p then
       (let accepted = (if pr_accept p \<ge> 0 then [pr_accept p] else []) in
        Some (if pr_activity p - 1 \<le> 0 then s\<lparr>rs_clients := rs_clients s @ accepted\<rparr>
          else serve_round p (pr_activity p - 1) accepted s))
     else Some (serve_round p (pr_activity p) [] s))"

section \<open>The serving loop does not skip a client\<close>

text \<open>What one client gets and whether it stays, without the count of events.\<close>

definition stays :: "client_event \<Rightarrow> bool" where
  "stays ev = (case ev of Bytes bs \<Rightarrow> bs \<noteq> [] | Broken \<Rightarrow> False | _ \<Rightarrow> True)"

definition answers :: "Retransmitter \<Rightarrow> int \<times> client_event \<Rightarrow> (int \<times> MarketDataMessage) list" where
  "answers r c = (case snd c of
     Bytes bs \<Rightarrow> if length bs = 8 then (case serve_request r (of_nat (le_value bs)) of None \<Rightarrow> [] | Some m \<Rightarrow> [(fst c, m)]) else []
   | _ \<Rightarrow> [])"

lemma client_simps [simp]:
  "stays Idle" "stays WouldBlock" "\<not> stays Broken" "stays (Bytes bs) \<longleftrightarrow> bs \<noteq> []"
  "answers r (fd, Idle) = []" "answers r (fd, WouldBlock) = []" "answers r (fd, Broken) = []"
  "answers r (fd, Bytes bs) = (if length bs = 8 then (case serve_request r (of_nat (le_value bs)) of None \<Rightarrow> [] | Some m \<Rightarrow> [(fd, m)]) else [])"
  by (simp_all add: stays_def answers_def split: option.splits)

definition ready :: "(int \<times> client_event) list \<Rightarrow> nat" where
  "ready cs = length (filter (\<lambda>c. snd c \<noteq> Idle) cs)"

lemma all_idle: "ready cs = 0 \<Longrightarrow> filter (\<lambda>c. stays (snd c)) cs = cs \<and> concat (map (answers r) cs) = []"
  by (induction cs) (auto simp: ready_def split: if_splits)

lemma serve_clients_all:
  "int (ready cs) = activity \<Longrightarrow> serve_clients r activity cs = (map fst (filter (\<lambda>c. stays (snd c)) cs), concat (map (answers r) cs))"
proof (induction cs arbitrary: activity)
  case (Cons c cs)
  obtain fd ev where c: "c = (fd, ev)" by (cases c)
  show ?case
  proof (cases "ev = Idle")
    case True
    then have "int (ready cs) = activity" using Cons.prems c by (simp add: ready_def)
    then show ?thesis using Cons.IH True c by simp
  next
    case False
    then have a: "int (ready cs) = activity - 1" using Cons.prems c by (simp add: ready_def)
    have "(if activity - 1 \<le> 0 then (map fst cs, []) else serve_clients r (activity - 1) cs) =
        (map fst (filter (\<lambda>c. stays (snd c)) cs), concat (map (answers r) cs))"
      using Cons.IH [OF a] all_idle [of cs r] a by auto
    then show ?thesis using False c by (cases ev) (auto split: option.splits)
  qed
qed simp

section \<open>The invariant\<close>

text \<open>
  The environment: \<open>poll\<close> returns the number of descriptors that are ready, and \<open>accept\<close> a descriptor that is not in use. The store of the cache only
  ever holds messages under the slot of their number.
\<close>

definition poll_ok :: "rt_server \<Rightarrow> poll_round \<Rightarrow> bool" where
  "poll_ok s p \<longleftrightarrow> (0 \<le> pr_activity p \<longrightarrow> pr_activity p =
       (if pr_server_ready p then 1 else 0) + int (ready (map (\<lambda>fd. (fd, pr_events p fd)) (rs_clients s)))) \<and>
     pr_accept p \<notin> set (rs_clients s)"

text \<open>Every reply carries the number its client asked for; \<open>history\<close> are the rounds so far.\<close>

definition asked :: "poll_round list \<Rightarrow> int \<Rightarrow> MarketDataMessage \<Rightarrow> bool" where
  "asked history fd m \<longleftrightarrow> (\<exists>p \<in> set history. \<exists>bs. pr_events p fd = Bytes bs \<and> length bs = 8 \<and>
     serve_request (pr_cache p) (of_nat (le_value bs)) = Some m)"

definition accepted_fds :: "poll_round list \<Rightarrow> int list" where
  "accepted_fds history = map pr_accept (filter (\<lambda>p. 0 \<le> pr_activity p \<and> \<not> (pr_activity p = 0 \<and> pr_mfr_finished p) \<and>
     pr_server_ready p \<and> 0 \<le> pr_accept p) history)"

definition replies_ok :: "poll_round list \<Rightarrow> (int \<times> MarketDataMessage) list \<Rightarrow> bool" where
  "replies_ok history rs \<longleftrightarrow> (\<forall>(fd, m) \<in> set rs. asked history fd m)"

definition rt_inv :: "poll_round list \<Rightarrow> rt_server \<Rightarrow> bool" where
  "rt_inv history s \<longleftrightarrow> distinct (rs_clients s) \<and> mset (rs_clients s) + mset (rs_closed s) = mset (accepted_fds history) \<and>
     replies_ok history (rs_replies s) \<and> (\<not> rs_running s \<longrightarrow> rs_clients s = [])"

lemma asked_mono: "asked h fd m \<Longrightarrow> asked (h @ [p]) fd m"
  by (auto simp: asked_def)

lemma replies_ok_mono: "replies_ok h rs \<Longrightarrow> replies_ok (h @ [p]) rs"
  by (auto simp: replies_ok_def dest: asked_mono)

lemma filter_partition: "mset (filter P xs) + mset (filter (\<lambda>x. \<not> P x) xs) = mset xs"
  by (induction xs) auto

text \<open>A serving round, with the clients' events spelt out.\<close>

lemma serve_round_effect:
  assumes "activity = int (ready (map (\<lambda>fd. (fd, pr_events p fd)) (rs_clients s)))" "set accepted \<inter> set (rs_clients s) = {}"
  shows "serve_round p activity accepted s = s\<lparr>rs_clients := filter (\<lambda>fd. stays (pr_events p fd)) (rs_clients s) @ accepted,
    rs_replies := rs_replies s @ concat (map (\<lambda>fd. answers (pr_cache p) (fd, pr_events p fd)) (rs_clients s)),
    rs_closed := rs_closed s @ filter (\<lambda>fd. \<not> stays (pr_events p fd)) (rs_clients s)\<rparr>"
proof -
  let ?cs = "map (\<lambda>fd. (fd, pr_events p fd)) (rs_clients s) @ map (\<lambda>fd. (fd, Idle)) accepted"
  have "int (ready ?cs) = activity" using assms(1) by (simp add: ready_def)
  then have sc: "serve_clients (pr_cache p) activity ?cs = (filter (\<lambda>fd. stays (pr_events p fd)) (rs_clients s) @ accepted,
      concat (map (\<lambda>fd. answers (pr_cache p) (fd, pr_events p fd)) (rs_clients s)))"
    by (simp add: serve_clients_all filter_map comp_def)
  have "filter (\<lambda>fd. fd \<notin> set (filter (\<lambda>fd. stays (pr_events p fd)) (rs_clients s) @ accepted)) (rs_clients s) =
      filter (\<lambda>fd. \<not> stays (pr_events p fd)) (rs_clients s)"
    using assms(2) by (intro filter_cong) auto
  then show ?thesis by (simp add: serve_round_def sc)
qed

lemma answers_asked: "(fd, m) \<in> set (answers (pr_cache p) (fd', pr_events p fd')) \<Longrightarrow> asked (h @ [p]) fd m"
proof (cases "pr_events p fd'")
  case (Bytes bs)
  assume "(fd, m) \<in> set (answers (pr_cache p) (fd', pr_events p fd'))"
  then have "fd = fd' \<and> length bs = 8 \<and> serve_request (pr_cache p) (of_nat (le_value bs)) = Some m"
    by (cases "length bs = 8"; cases "serve_request (pr_cache p) (of_nat (le_value bs))") (simp_all add: Bytes)
  then show ?thesis using Bytes by (auto simp: asked_def)
qed simp_all

lemma inv_serve:
  assumes "rt_inv h s" "activity = int (ready (map (\<lambda>fd. (fd, pr_events p fd)) (rs_clients s)))"
    "set accepted \<inter> set (rs_clients s) = {}" "distinct accepted" "accepted_fds (h @ [p]) = accepted_fds h @ accepted" "rs_running s"
  shows "rt_inv (h @ [p]) (serve_round p activity accepted s)"
proof -
  have "mset (filter (\<lambda>fd. stays (pr_events p fd)) (rs_clients s)) + mset (filter (\<lambda>fd. \<not> stays (pr_events p fd)) (rs_clients s)) = mset (rs_clients s)"
    by (rule filter_partition)
  then have "mset (filter (\<lambda>fd. stays (pr_events p fd)) (rs_clients s) @ accepted) +
      mset (rs_closed s @ filter (\<lambda>fd. \<not> stays (pr_events p fd)) (rs_clients s)) = mset (accepted_fds (h @ [p]))"
    using assms(1,5) by (simp add: rt_inv_def add_ac)
  moreover have "replies_ok (h @ [p]) (rs_replies s @ concat (map (\<lambda>fd. answers (pr_cache p) (fd, pr_events p fd)) (rs_clients s)))"
    using assms(1) answers_asked replies_ok_mono [of h "rs_replies s" p] by (auto simp: rt_inv_def replies_ok_def)
  moreover have "distinct (filter (\<lambda>fd. stays (pr_events p fd)) (rs_clients s) @ accepted)" using assms(1,3,4) by (auto simp: rt_inv_def)
  ultimately show ?thesis using assms(6) by (simp add: rt_inv_def serve_round_effect [OF assms(2,3)])
qed

lemma inv_round:
  assumes inv: "rt_inv h s" and ok: "poll_ok s p" and r: "listener_round p s = Some s'"
  shows "rt_inv (h @ [p]) s'"
proof -
  have run: "rs_running s" using r by (auto simp: listener_round_def split: if_splits)
  let ?over = "pr_activity p < 0 \<or> pr_activity p = 0 \<and> pr_mfr_finished p"
  define acc where "acc = (if pr_server_ready p \<and> 0 \<le> pr_accept p then [pr_accept p] else [])"
  have a: "accepted_fds (h @ [p]) = accepted_fds h @ (if ?over then [] else acc)" by (auto simp: accepted_fds_def acc_def)
  have d: "distinct acc" "set acc \<inter> set (rs_clients s) = {}" using ok by (auto simp: acc_def poll_ok_def)
  have mono: "replies_ok (h @ [p]) (rs_replies s)" using inv replies_ok_mono by (simp add: rt_inv_def)
  show ?thesis
  proof (cases ?over)
    case True
    then have "s' = s \<or> s' = listener_cleanup s" using r by (auto simp: listener_round_def split: if_splits)
    then show ?thesis using inv a True mono run by (auto simp: rt_inv_def listener_cleanup_def add_ac)
  next
    case go: False
    let ?k = "int (ready (map (\<lambda>fd. (fd, pr_events p fd)) (rs_clients s)))"
    have act: "pr_activity p = (if pr_server_ready p then 1 else 0) + ?k" using ok go by (simp add: poll_ok_def)
    have serve: "rt_inv (h @ [p]) (serve_round p ?k acc s)" using inv_serve [OF inv refl d(2,1)] a go run by simp
    show ?thesis
    proof (cases "pr_server_ready p \<and> ?k = 0")
      case True
      then have "s' = s\<lparr>rs_clients := rs_clients s @ acc\<rparr>" using r run go act by (auto simp: listener_round_def acc_def split: if_splits)
      then show ?thesis using inv a go mono run d by (auto simp: rt_inv_def add_ac)
    next
      case False
      then have "s' = serve_round p ?k acc s" using r run go act by (auto simp: listener_round_def acc_def split: if_splits)
      then show ?thesis using serve by simp
    qed
  qed
qed

text \<open>The thread with the rounds it has been through, and its invariant.\<close>

definition rt_step :: "poll_round \<Rightarrow> poll_round list \<times> rt_server \<Rightarrow> (poll_round list \<times> rt_server) option" where
  "rt_step p hs = map_option (\<lambda>s'. (fst hs @ [p], s')) (listener_round p (snd hs))"

interpretation rts: step_invariant "\<lambda>hs. poll_ok (snd hs)" rt_step "\<lambda>hs. rt_inv (fst hs) (snd hs)"
  by unfold_locales (auto simp: rt_step_def intro: inv_round)

lemma rt_start_inv: "rt_inv [] rt_server_start"
  by (simp add: rt_inv_def rt_server_start_def accepted_fds_def replies_ok_def)

lemma rt_history: "run_steps (\<lambda>hs. poll_ok (snd hs)) rt_step ps (h, s) = Some (h', s') \<Longrightarrow> h' = h @ ps"
  by (induction ps arbitrary: h s) (fastforce simp: rt_step_def bind_eq_Some_conv split: if_splits)+

section \<open>Properties of the retransmission server\<close>

text \<open>
  C30. In every run of the thread, whatever comes and goes: each accepted connection is still polled or was closed, exactly once; and every reply
  went to a client that had sent a whole request, with the message the cache then held under the number asked for.
\<close>

theorem rt_server_sound:
  assumes "run_steps (\<lambda>hs. poll_ok (snd hs)) rt_step rounds ([], rt_server_start) = Some (h, s)"
  shows "mset (rs_clients s) + mset (rs_closed s) = mset (accepted_fds rounds) \<and> distinct (rs_clients s) \<and>
    (\<not> rs_running s \<longrightarrow> rs_clients s = []) \<and>
    (\<forall>(fd, m) \<in> set (rs_replies s). \<exists>p \<in> set rounds. \<exists>bs. pr_events p fd = Bytes bs \<and> length bs = 8 \<and>
      serve_request (pr_cache p) (of_nat (le_value bs)) = Some m \<and> md_seq_num m = of_nat (le_value bs))"
proof -
  have "rt_inv h s" using rts.run_inv [OF assms] rt_start_inv by simp
  moreover have "h = rounds" using rt_history [OF assms] by simp
  moreover have "serve_request r n = Some m \<Longrightarrow> md_seq_num m = n" for r n m by (auto simp: serve_request_def Let_def split: if_splits)
  ultimately show ?thesis unfolding rt_inv_def replies_ok_def asked_def by fast
qed

text \<open>A client connects, asks for message 5, and the feed ends.\<close>

definition demo_cache :: Retransmitter where
  "demo_cache = \<lparr>rt_buffer = (\<lambda>_. demo_message 5), rt_pending = [], rt_done = False\<rparr>"

definition end_round :: poll_round where
  "end_round = \<lparr>pr_activity = 0, pr_eintr = False, pr_mfr_finished = True, pr_server_ready = False, pr_accept = - 1, pr_events = (\<lambda>_. Idle),
     pr_cache = demo_cache\<rparr>"

definition demo_rounds :: "poll_round list" where
  "demo_rounds = [end_round\<lparr>pr_activity := 1, pr_server_ready := True, pr_accept := 4\<rparr>,
     end_round\<lparr>pr_activity := 1, pr_events := (\<lambda>_. Bytes [5, 0, 0, 0, 0, 0, 0, 0])\<rparr>, end_round]"

lemma demo_request: "serve_request demo_cache (of_nat (le_value [5, 0, 0, 0, 0, 0, 0, 0])) = Some (demo_message 5)"
  by (simp add: serve_request_def demo_cache_def demo_message_seq)

theorem rt_server_sound_witness:
  "\<exists>s. run_steps (\<lambda>hs. poll_ok (snd hs)) rt_step demo_rounds ([], rt_server_start) = Some (demo_rounds, s) \<and>
    rs_replies s = [(4, demo_message 5)] \<and> rs_closed s = [4] \<and> md_seq_num (demo_message 5) = 5"
proof -
  obtain h s where s: "run_steps (\<lambda>hs. poll_ok (snd hs)) rt_step demo_rounds ([], rt_server_start) = Some (h, s)" "h = demo_rounds"
    "rs_replies s = [(4, demo_message 5)]" "rs_closed s = [4]"
    by (simp add: demo_rounds_def end_round_def rt_step_def listener_round_def poll_ok_def ready_def rt_server_start_def serve_round_def
        listener_cleanup_def demo_request demo_message_seq del: le_value.simps)
  then show ?thesis using rt_server_sound [OF s(1)] demo_message_seq by blast
qed

text \<open>
  The early exit of the serving loop skips nobody: with as many events as \<open>poll\<close> announced, each client that stays is kept in its place, each that is gone is
  dropped, and each whole request for a cached message is answered, in the order of the connections.
\<close>

theorem serving_skips_nobody:
  assumes "int (ready clients) = activity"
  shows "serve_clients r activity clients = (map fst (filter (\<lambda>c. stays (snd c)) clients), concat (map (answers r) clients))"
  by (rule serve_clients_all [OF assms])

theorem serving_skips_nobody_witness:
  "serve_clients demo_cache 2 [(4, Idle), (5, Bytes []), (6, Bytes [5, 0, 0, 0, 0, 0, 0, 0]), (7, Idle)] = ([4, 6, 7], [(6, demo_message 5)])"
proof -
  have "int (ready [(4, Idle), (5, Bytes []), (6, Bytes [5, 0, 0, 0, 0, 0, 0, 0]), (7, Idle)]) = 2" by (simp add: ready_def)
  from serving_skips_nobody [OF this, of demo_cache] show ?thesis by (simp add: demo_request del: le_value.simps)
qed

end
