(* ===== verification/Batch_Memory.thy ===== *)
theory Batch_Memory
  imports Feed_Recovery
begin

text \<open>
  The buffers of the market data path: the batch the sender fills (\<^verbatim>\<open>src/src/MarketFeedReader.cpp\<close>), the one the listener receives into
  (\<^verbatim>\<open>src/src/listener.cpp\<close>), and the retransmitter's receive buffer (\<^verbatim>\<open>src/src/retransmitter.cpp\<close>). The models of \<open>Market_Feed\<close> and \<open>Feed_Recovery\<close> work on lists of messages; here
  every byte has its place in a block of memory, every copy is checked against the block's bounds, and the loops are shown to refine those models.
\<close>

section \<open>Memory\<close>

text \<open>Writing into a block: \<open>None\<close> when the bytes do not fit, which is undefined behaviour in the code.\<close>

definition memcpy :: "u8 list \<Rightarrow> nat \<Rightarrow> u8 list \<Rightarrow> u8 list option" where
  "memcpy buf off bytes = (if off + length bytes \<le> length buf then Some (take off buf @ bytes @ drop (off + length bytes) buf) else None)"

lemma memcpy_fits:
  assumes "off + length bytes \<le> length buf"
  obtains buf' where "memcpy buf off bytes = Some buf'" "length buf' = length buf" "take (off + length bytes) buf' = take off buf @ bytes"
    "\<And>i. off + length bytes \<le> i \<Longrightarrow> drop i buf' = drop i buf"
proof (rule that [of "take off buf @ bytes @ drop (off + length bytes) buf"])
  fix i assume "off + length bytes \<le> i"
  then show "drop i (take off buf @ bytes @ drop (off + length bytes) buf) = drop i buf" using assms by (simp add: min_def)
qed (use assms in \<open>simp_all add: memcpy_def\<close>)

definition MAX_MSG_SIZE :: nat where "MAX_MSG_SIZE = msg_per_packet * message_size"

lemma sizes: "MAX_MSG_SIZE = 1472" "msg_per_packet = 23" "message_size = 64" "batch_capacity = 64"
  by (simp_all add: MAX_MSG_SIZE_def msg_per_packet_def message_size_def batch_capacity_def)

section \<open>The batch\<close>

text \<open>A pointer into the buffer is an offset; \<open>msgs[i]\<close> always points to \<open>iov[i]\<close> and is left out.\<close>

record iovec =
  iov_base :: nat
  iov_len :: nat

record batch_t =
  ba_iov :: "iovec list"
  ba_buffer :: "u8 list"
  ba_tcp_buffer :: "u8 list"
  ba_capacity :: nat
  ba_tcp_capacity :: nat

text \<open>\<open>init_batch\<close> of the feed; \<open>mem\<close> and \<open>tcp_mem\<close> are what the uninitialised blocks hold.\<close>

definition init_batch :: "nat \<Rightarrow> (nat \<Rightarrow> u8) \<Rightarrow> (nat \<Rightarrow> u8) \<Rightarrow> batch_t" where
  "init_batch cap mem tcp_mem = \<lparr>ba_iov = map (\<lambda>i. \<lparr>iov_base = i * MAX_MSG_SIZE, iov_len = 0\<rparr>) [0..<cap],
     ba_buffer = map mem [0..<cap * MAX_MSG_SIZE], ba_tcp_buffer = map tcp_mem [0..<cap * MAX_MSG_SIZE], ba_capacity = cap,
     ba_tcp_capacity = cap * MAX_MSG_SIZE\<rparr>"

section \<open>Filling the batch\<close>

text \<open>The inner loop of \<open>sendThread\<close>, with \<open>n\<close> rounds left.\<close>

fun fill_packet :: "u8 list \<Rightarrow> nat \<Rightarrow> nat \<Rightarrow> nat \<Rightarrow> nat \<Rightarrow> batch_t \<Rightarrow> MarketDataMessage spsc \<Rightarrow>
    (MarketDataMessage spsc \<times> batch_t \<times> nat \<times> nat \<times> bool) option" where
  "fill_packet pad 0 ptr msgs_packed tcp_offset b q = Some (q, b, msgs_packed, tcp_offset, False)"
| "fill_packet pad (Suc n) ptr msgs_packed tcp_offset b q = do {
     (q1, r) \<leftarrow> spsc_pop 20 q;
     (case r of
        None \<Rightarrow> Some (q1, b, msgs_packed, tcp_offset, True)
      | Some msg \<Rightarrow> do {
          buf \<leftarrow> memcpy (ba_buffer b) (ptr + msgs_packed * message_size) (message_bytes pad msg);
          tcp \<leftarrow> memcpy (ba_tcp_buffer b) tcp_offset (message_bytes pad msg);
          fill_packet pad n ptr (msgs_packed + 1) (tcp_offset + message_size) (b\<lparr>ba_buffer := buf, ba_tcp_buffer := tcp\<rparr>) q1
        })
   }"

text \<open>The outer loop, with \<open>n\<close> packets left of the capacity; it ends early when the queue is empty.\<close>

fun fill_packets :: "u8 list \<Rightarrow> nat \<Rightarrow> nat \<Rightarrow> nat \<Rightarrow> nat \<Rightarrow> batch_t \<Rightarrow> MarketDataMessage spsc \<Rightarrow>
    (MarketDataMessage spsc \<times> batch_t \<times> nat \<times> nat) option" where
  "fill_packets pad 0 p tcp_offset packets_to_send b q = Some (q, b, tcp_offset, packets_to_send)"
| "fill_packets pad (Suc n) p tcp_offset packets_to_send b q = (if p < length (ba_iov b) then do {
       (q1, b1, msgs_packed, tcp_offset1, empty) \<leftarrow> fill_packet pad msg_per_packet (iov_base (ba_iov b ! p)) 0 tcp_offset b q;
       if empty then Some (q1, b1, tcp_offset1, packets_to_send)
       else fill_packets pad n (p + 1) tcp_offset1 (packets_to_send + 1)
         (b1\<lparr>ba_iov := (ba_iov b1)[p := (ba_iov b1 ! p)\<lparr>iov_len := msgs_packed * message_size\<rparr>]\<rparr>) q1
     } else None)"

definition fill_batch :: "u8 list \<Rightarrow> batch_t \<Rightarrow> MarketDataMessage spsc \<Rightarrow> (MarketDataMessage spsc \<times> batch_t \<times> nat \<times> nat) option" where
  "fill_batch pad b q = do {
     (q1, b1, tcp_offset, packets_to_send) \<leftarrow> fill_packets pad (ba_capacity b) 0 0 0 b q;
     let current_packet_msgs = tcp_offset div message_size mod msg_per_packet;
     Some (if packets_to_send < ba_capacity b1 \<and> current_packet_msgs > 0
       then (q1, b1\<lparr>ba_iov := (ba_iov b1)[packets_to_send := (ba_iov b1 ! packets_to_send)\<lparr>iov_len := current_packet_msgs * message_size\<rparr>]\<rparr>,
         tcp_offset, packets_to_send + 1)
       else (q1, b1, tcp_offset, packets_to_send))
   }"

text \<open>What \<open>sendmmsg\<close> reads for packet \<open>i\<close>.\<close>

definition packet_bytes :: "batch_t \<Rightarrow> nat \<Rightarrow> u8 list" where
  "packet_bytes b i = field (iov_base (ba_iov b ! i)) (iov_len (ba_iov b ! i)) (ba_buffer b)"

section \<open>The shape of a batch\<close>

definition batch_ok :: "batch_t \<Rightarrow> bool" where
  "batch_ok b \<longleftrightarrow> ba_capacity b = batch_capacity \<and> length (ba_iov b) = batch_capacity \<and>
     (\<forall>i < batch_capacity. iov_base (ba_iov b ! i) = i * MAX_MSG_SIZE \<and> iov_len (ba_iov b ! i) \<le> MAX_MSG_SIZE) \<and>
     length (ba_buffer b) = batch_capacity * MAX_MSG_SIZE \<and> length (ba_tcp_buffer b) = batch_capacity * MAX_MSG_SIZE \<and>
     ba_tcp_capacity b = batch_capacity * MAX_MSG_SIZE"

lemma init_batch_ok: "batch_ok (init_batch batch_capacity mem tcp_mem)"
  by (simp add: batch_ok_def init_batch_def)

lemma message_bytes_length [simp]: "length pad = 24 \<Longrightarrow> length (message_bytes pad m) = message_size"
  by (simp add: message_bytes_def message_size_def)

abbreviation images :: "u8 list \<Rightarrow> MarketDataMessage list \<Rightarrow> u8 list" where
  "images pad msgs \<equiv> concat (map (message_bytes pad) msgs)"

lemma images_length: "length pad = 24 \<Longrightarrow> length (images pad msgs) = length msgs * message_size"
  by (induction msgs) simp_all

lemma images_concat: "images pad (concat ps) = concat (map (images pad) ps)"
  by (induction ps) simp_all

section \<open>The loops\<close>

lemma fill_packet_refines:
  assumes "pack_packet n q = Some (q', msgs, dry)" "length pad = 24"
    "ptr + (packed + n) * message_size \<le> length (ba_buffer b)" "tcp_offset + n * message_size \<le> length (ba_tcp_buffer b)"
  shows "\<exists>buf tcp. fill_packet pad n ptr packed tcp_offset b q =
      Some (q', b\<lparr>ba_buffer := buf, ba_tcp_buffer := tcp\<rparr>, packed + length msgs, tcp_offset + length msgs * message_size, dry) \<and>
    length buf = length (ba_buffer b) \<and> length tcp = length (ba_tcp_buffer b) \<and>
    take (ptr + (packed + length msgs) * message_size) buf = take (ptr + packed * message_size) (ba_buffer b) @ images pad msgs \<and>
    take (tcp_offset + length msgs * message_size) tcp = take tcp_offset (ba_tcp_buffer b) @ images pad msgs"
  using assms
proof (induction n arbitrary: q msgs packed tcp_offset b)
  case 0
  then show ?case by (intro exI [of _ "ba_buffer b"] exI [of _ "ba_tcp_buffer b"]) simp
next
  case (Suc n)
  obtain q1 r where pop: "spsc_pop 20 q = Some (q1, r)" using Suc.prems(1) by (auto simp: bind_eq_Some_conv)
  show ?case
  proof (cases r)
    case None
    then show ?thesis using Suc.prems(1) pop
      by (intro exI [of _ "ba_buffer b"] exI [of _ "ba_tcp_buffer b"]) auto
  next
    case (Some msg)
    obtain msgs1 where m: "pack_packet n q1 = Some (q', msgs1, dry)" "msgs = msg # msgs1"
      using Suc.prems(1) pop Some by (auto simp: bind_eq_Some_conv)
    let ?bytes = "message_bytes pad msg"
    note len = message_bytes_length [OF Suc.prems(2), of msg]
    obtain buf where buf: "memcpy (ba_buffer b) (ptr + packed * message_size) ?bytes = Some buf" "length buf = length (ba_buffer b)"
        "take (ptr + packed * message_size + length ?bytes) buf = take (ptr + packed * message_size) (ba_buffer b) @ ?bytes"
      by (rule memcpy_fits [of "ptr + packed * message_size" ?bytes "ba_buffer b"]) (use Suc.prems(3) len in \<open>auto simp: algebra_simps\<close>)
    obtain tcp where tcp: "memcpy (ba_tcp_buffer b) tcp_offset ?bytes = Some tcp" "length tcp = length (ba_tcp_buffer b)"
        "take (tcp_offset + length ?bytes) tcp = take tcp_offset (ba_tcp_buffer b) @ ?bytes"
      by (rule memcpy_fits [of tcp_offset ?bytes "ba_tcp_buffer b"]) (use Suc.prems(4) len in \<open>auto simp: algebra_simps\<close>)
    let ?b1 = "b\<lparr>ba_buffer := buf, ba_tcp_buffer := tcp\<rparr>"
    note ih = Suc.IH [OF m(1) Suc.prems(2), of "packed + 1" ?b1 "tcp_offset + message_size"]
    have "ptr + (packed + 1 + n) * message_size \<le> length (ba_buffer ?b1)" "tcp_offset + message_size + n * message_size \<le> length (ba_tcp_buffer ?b1)"
      using Suc.prems(3,4) buf(2) tcp(2) by (simp_all add: algebra_simps)
    from ih [OF this] show ?thesis using pop Some buf tcp len m(2) by (auto simp: algebra_simps)
  qed
qed

lemma pack_packet_length: "pack_packet n q = Some (q', msgs, dry) \<Longrightarrow> (if dry then length msgs < n else length msgs = n)"
proof (induction n arbitrary: q msgs)
  case (Suc n)
  then show ?case by (auto simp: bind_eq_Some_conv split: option.splits if_splits)
qed simp

lemma nth_update_if: "xs[p := x] ! i = (if i = p \<and> p < length xs then x else xs ! i)"
  by (cases "p < length xs") (simp_all add: nth_list_update list_update_beyond)

lemma batch_ok_update:
  assumes "batch_ok b" "length buf = length (ba_buffer b)" "length tcp = length (ba_tcp_buffer b)" "len \<le> MAX_MSG_SIZE"
  shows "batch_ok (b\<lparr>ba_buffer := buf, ba_tcp_buffer := tcp\<rparr>)"
    "batch_ok (b\<lparr>ba_buffer := buf, ba_tcp_buffer := tcp, ba_iov := (ba_iov b)[p := (ba_iov b ! p)\<lparr>iov_len := len\<rparr>]\<rparr>)"
    "batch_ok (b\<lparr>ba_iov := (ba_iov b)[p := (ba_iov b ! p)\<lparr>iov_len := len\<rparr>]\<rparr>)"
  using assms by (auto simp: batch_ok_def nth_update_if)

text \<open>How far the outer loop has come: the buffers agree with the messages packed, and the complete packets have their full length.\<close>

definition batch_filled :: "u8 list \<Rightarrow> nat \<Rightarrow> batch_t \<Rightarrow> MarketDataMessage list list \<Rightarrow> MarketDataMessage list \<Rightarrow> batch_t \<Rightarrow> bool" where
  "batch_filled pad p b packets rest b' \<longleftrightarrow> batch_ok b' \<and>
     (let bytes = images pad (concat packets @ rest); n = p * MAX_MSG_SIZE in
      take (n + length bytes) (ba_buffer b') = take n (ba_buffer b) @ bytes \<and>
      take (n + length bytes) (ba_tcp_buffer b') = take n (ba_tcp_buffer b) @ bytes) \<and>
     (\<forall>i < p. ba_iov b' ! i = ba_iov b ! i) \<and> (\<forall>i < length packets. iov_len (ba_iov b' ! (p + i)) = MAX_MSG_SIZE)"

lemma batch_filled_Cons:
  assumes "batch_filled pad p b [msgs] [] b1" "batch_filled pad (p + 1) b1 packets rest b'" "length (images pad msgs) = MAX_MSG_SIZE"
  shows "batch_filled pad p b (msgs # packets) rest b'"
proof -
  have "iov_len (ba_iov b' ! (p + i)) = MAX_MSG_SIZE" if "i < length (msgs # packets)" for i
    using assms(1,2) that by (cases i) (auto simp: batch_filled_def)
  then show ?thesis using assms by (auto simp: batch_filled_def Let_def algebra_simps)
qed

lemma fill_packets_refines:
  assumes "pack_packets n q = Some (q', packets, rest)" "length pad = 24" "batch_ok b" "p + n = batch_capacity"
  shows "\<exists>b'. fill_packets pad n p (p * MAX_MSG_SIZE) p b q =
      Some (q', b', p * MAX_MSG_SIZE + length (images pad (concat packets @ rest)), p + length packets) \<and> batch_filled pad p b packets rest b'"
  using assms
proof (induction n arbitrary: q packets p b)
  case 0
  then show ?case by (auto simp: batch_filled_def)
next
  case (Suc n)
  obtain q1 msgs dry where m: "pack_packet msg_per_packet q = Some (q1, msgs, dry)" using Suc.prems(1) by (auto simp: bind_eq_Some_conv)
  have p: "p < length (ba_iov b)" "iov_base (ba_iov b ! p) = p * MAX_MSG_SIZE" "(p + 1) * MAX_MSG_SIZE \<le> batch_capacity * MAX_MSG_SIZE"
    using Suc.prems(3,4) by (simp_all add: batch_ok_def mult_le_mono1 del: mult_Suc add_mult_distrib)
  have fits: "p * MAX_MSG_SIZE + (0 + msg_per_packet) * message_size \<le> length (ba_buffer b)"
    "p * MAX_MSG_SIZE + msg_per_packet * message_size \<le> length (ba_tcp_buffer b)"
    using p(3) Suc.prems(3) by (simp_all add: batch_ok_def MAX_MSG_SIZE_def algebra_simps)
  obtain buf tcp where f: "fill_packet pad msg_per_packet (p * MAX_MSG_SIZE) 0 (p * MAX_MSG_SIZE) b q =
      Some (q1, b\<lparr>ba_buffer := buf, ba_tcp_buffer := tcp\<rparr>, length msgs, p * MAX_MSG_SIZE + length (images pad msgs), dry)"
    "length buf = length (ba_buffer b)" "length tcp = length (ba_tcp_buffer b)"
    "take (p * MAX_MSG_SIZE + length (images pad msgs)) buf = take (p * MAX_MSG_SIZE) (ba_buffer b) @ images pad msgs"
    "take (p * MAX_MSG_SIZE + length (images pad msgs)) tcp = take (p * MAX_MSG_SIZE) (ba_tcp_buffer b) @ images pad msgs"
    using fill_packet_refines [OF m Suc.prems(2) fits] by (auto simp: images_length [OF Suc.prems(2)])
  show ?case
  proof (cases dry)
    case True
    then show ?thesis using Suc.prems(1,3) m f p(1,2) by (auto simp: batch_filled_def batch_ok_update(1) [where len = 0])
  next
    case False
    then have len: "length msgs = msg_per_packet" "length (images pad msgs) = MAX_MSG_SIZE"
      using pack_packet_length [OF m] images_length [OF Suc.prems(2), of msgs] by (simp_all add: MAX_MSG_SIZE_def)
    let ?b1 = "b\<lparr>ba_buffer := buf, ba_tcp_buffer := tcp, ba_iov := (ba_iov b)[p := (ba_iov b ! p)\<lparr>iov_len := MAX_MSG_SIZE\<rparr>]\<rparr>"
    have ok: "batch_ok ?b1" by (rule batch_ok_update(2) [OF Suc.prems(3) f(2,3)]) simp
    obtain packets1 where r: "pack_packets n q1 = Some (q', packets1, rest)" "packets = msgs # packets1"
      using Suc.prems(1) m False by (auto simp: bind_eq_Some_conv)
    obtain b' where b': "fill_packets pad n (p + 1) ((p + 1) * MAX_MSG_SIZE) (p + 1) ?b1 q1 =
        Some (q', b', (p + 1) * MAX_MSG_SIZE + length (images pad (concat packets1 @ rest)), p + 1 + length packets1)"
        "batch_filled pad (p + 1) ?b1 packets1 rest b'"
      using Suc.IH [OF r(1) Suc.prems(2) ok, of "p + 1"] Suc.prems(4) by auto
    have "batch_filled pad p b [msgs] [] ?b1" using ok f(4,5) p(1) by (simp add: batch_filled_def)
    then have "batch_filled pad p b packets rest b'" unfolding r(2) by (rule batch_filled_Cons [OF _ b'(2) len(2)])
    moreover have "fill_packets pad (Suc n) p (p * MAX_MSG_SIZE) p b q = fill_packets pad n (p + 1) ((p + 1) * MAX_MSG_SIZE) (p + 1) ?b1 q1"
      using p f(1) False len by (simp add: MAX_MSG_SIZE_def algebra_simps)
    ultimately show ?thesis using b'(1) r(2) len(2) by (auto simp: algebra_simps)
  qed
qed

lemma field_of_prefix:
  assumes "take n xs = A @ bs @ C" "length A + length bs + length C \<le> n" "n \<le> length xs"
  shows "field (length A) (length bs) xs = bs"
proof -
  have "field (length A) (length bs) xs = field (length A) (length bs) (take n xs)"
    using assms(2) by (simp add: field_def take_drop min_def)
  then show ?thesis by (simp add: assms(1) field_def)
qed

lemma concat_split: "i < length xs \<Longrightarrow> concat xs = concat (take i xs) @ xs ! i @ concat (drop (Suc i) xs)"
  by (metis concat.simps(2) concat_append id_take_nth_drop)

text \<open>Reading the packets back from the buffer, given their lengths.\<close>

lemma packets_in_buffer:
  assumes "batch_ok b" "take (length (concat ds)) (ba_buffer b) = concat ds" "length ds \<le> batch_capacity"
    "\<forall>i < length ds. iov_len (ba_iov b ! i) = length (ds ! i)" "\<forall>i. Suc i < length ds \<longrightarrow> length (ds ! i) = MAX_MSG_SIZE"
    "length (concat ds) \<le> length (ba_buffer b)"
  shows "map (packet_bytes b) [0..<length ds] = ds"
proof (rule nth_equalityI)
  fix i assume i: "i < length (map (packet_bytes b) [0..<length ds])"
  then have i': "i < length ds" by simp
  have "\<forall>d \<in> set (take i ds). length d = MAX_MSG_SIZE" using assms(5) i' by (fastforce simp: in_set_conv_nth)
  then have pre: "length (concat (take i ds)) = i * MAX_MSG_SIZE"
    using i' by (simp add: length_concat sum_list_triv cong: map_cong)
  have "field (length (concat (take i ds))) (length (ds ! i)) (ba_buffer b) = ds ! i"
    by (rule field_of_prefix [where n = "length (concat ds)" and C = "concat (drop (Suc i) ds)"])
      (use assms(2,6) concat_split [OF i'] in \<open>auto simp: concat_split [OF i']\<close>)
  moreover have "iov_base (ba_iov b ! i) = i * MAX_MSG_SIZE" using assms(1,3) i' by (simp add: batch_ok_def)
  ultimately show "map (packet_bytes b) [0..<length ds] ! i = ds ! i" using i' assms(4) pre by (simp add: packet_bytes_def)
qed simp

text \<open>The batch after \<open>flush\<close>.\<close>

definition with_tail :: "MarketDataMessage list list \<Rightarrow> MarketDataMessage list \<Rightarrow> batch_t \<Rightarrow> batch_t" where
  "with_tail packets rest b = (if rest = [] then b else b\<lparr>ba_iov := (ba_iov b)[length packets :=
     (ba_iov b ! length packets)\<lparr>iov_len := length rest * message_size\<rparr>]\<rparr>)"

lemma batch_filled_packets:
  assumes "batch_filled pad 0 b packets rest b'" "length pad = 24" "\<forall>p \<in> set packets. length p = msg_per_packet" "length rest < msg_per_packet"
    "length ps \<le> batch_capacity" "ps = packets @ (if rest = [] then [] else [rest])"
  shows "batch_ok (with_tail packets rest b')" "map (packet_bytes (with_tail packets rest b')) [0..<length ps] = map (images pad) ps"
proof -
  let ?b = "with_tail packets rest b'" and ?ds = "map (images pad) ps"
  have f: "batch_ok b'" "take (length (concat ?ds)) (ba_buffer b') = concat ?ds" "\<forall>i < length packets. iov_len (ba_iov b' ! i) = MAX_MSG_SIZE"
    using assms(1) by (auto simp: batch_filled_def Let_def assms(6) images_concat)
  have "length rest * message_size \<le> MAX_MSG_SIZE" using assms(4) by (simp add: MAX_MSG_SIZE_def)
  then show ok: "batch_ok ?b" using batch_ok_update(3) [OF f(1) refl refl] f(1) by (simp add: with_tail_def)
  have full: "length (images pad (packets ! i)) = MAX_MSG_SIZE" if "i < length packets" for i
    using assms(2,3) that by (simp add: images_length MAX_MSG_SIZE_def)
  have "ba_buffer ?b = ba_buffer b'" by (simp add: with_tail_def)
  moreover have "length (concat ?ds) \<le> length (ba_buffer b')" using arg_cong [OF f(2), of length] by simp
  moreover have "iov_len (ba_iov ?b ! i) = length (?ds ! i)" if i: "i < length ?ds" for i
  proof (cases "i < length packets")
    case True
    then show ?thesis using f(3) full [OF True] by (simp add: with_tail_def nth_update_if assms(6) nth_append)
  next
    case False
    then have "i = length packets" "rest \<noteq> []" using i by (auto simp: assms(6) split: if_splits)
    then show ?thesis using f(1) assms(2,5) by (simp add: with_tail_def nth_update_if assms(6) nth_append images_length batch_ok_def)
  qed
  moreover have "length (?ds ! i) = MAX_MSG_SIZE" if "Suc i < length ?ds" for i
    using that full [of i] by (auto simp: assms(6) nth_append split: if_splits)
  ultimately have "map (packet_bytes ?b) [0..<length ?ds] = ?ds"
    using packets_in_buffer [OF ok, of ?ds] f(2) assms(5) by (simp only: length_map) blast
  then show "map (packet_bytes ?b) [0..<length ps] = ?ds" by simp
qed

lemma fill_batch_ok:
  assumes "spsc_inv 20 q" "batch_ok b" "length pad = 24"
  shows "\<exists>q' packets msgs b' tcp_offset. pack_batch q = Some (q', packets, msgs) \<and>
    fill_batch pad b q = Some (q', b', tcp_offset, length packets) \<and> batch_ok b' \<and>
    map (packet_bytes b') [0..<length packets] = map (images pad) packets \<and>
    tcp_offset \<le> ba_tcp_capacity b' \<and> take tcp_offset (ba_tcp_buffer b') = images pad msgs"
proof -
  obtain q' packets rest where r: "pack_packets batch_capacity q = Some (q', packets, rest)"
    "\<forall>x \<in> set packets. length x = msg_per_packet" "length rest < msg_per_packet" "length packets \<le> batch_capacity"
    "length packets = batch_capacity \<longrightarrow> rest = []"
    using pack_packets_ok [OF assms(1), of batch_capacity] by blast
  obtain b' where b': "fill_packets pad batch_capacity 0 0 0 b q = Some (q', b', length (images pad (concat packets @ rest)), length packets)"
      "batch_filled pad 0 b packets rest b'"
    using fill_packets_refines [OF r(1) assms(3,2), of 0] by auto
  let ?ps = "packets @ (if rest = [] then [] else [rest])" and ?b = "with_tail packets rest b'"
  have "length (concat packets) = length packets * msg_per_packet" using r(2) by (induction packets) simp_all
  then have m: "length (concat packets @ rest) mod msg_per_packet = length rest" "length (images pad (concat packets @ rest)) div message_size = length (concat packets @ rest)"
    using r(3) images_length [OF assms(3), of "concat packets @ rest"] by (simp_all add: message_size_def)
  have ps: "length ?ps \<le> batch_capacity" using r(4,5) by auto
  note t = batch_filled_packets [OF b'(2) assms(3) r(2,3) ps refl]
  have "pack_batch q = Some (q', ?ps, concat packets @ rest)"
    using r(1,4,5) m(1) by (auto simp: pack_batch_def Let_def)
  moreover have "fill_batch pad b q = Some (q', ?b, length (images pad (concat packets @ rest)), length ?ps)"
    using b' r(4,5) m assms(2) by (auto simp: fill_batch_def Let_def with_tail_def batch_ok_def batch_filled_def)
  moreover have tcp: "take (length (images pad (concat packets @ rest))) (ba_tcp_buffer ?b) = images pad (concat packets @ rest)"
    using b'(2) by (auto simp: batch_filled_def with_tail_def Let_def)
  moreover have "length (images pad (concat packets @ rest)) \<le> ba_tcp_capacity ?b"
    using arg_cong [OF tcp, of length] t(1) by (simp add: batch_ok_def)
  ultimately show ?thesis using t by blast
qed

section \<open>Properties of the sender's buffers\<close>

text \<open>
  C31. The sender's batch is safe and holds what is meant to be sent: on the batch made by \<open>init_batch\<close>, and on every batch a pass leaves behind, the packing loops write only inside the two
  buffers; the packets \<open>sendmmsg\<close> reads through the vector of pointers and lengths are the images of the packets of \<open>pack_batch\<close>, and the first \<open>tcp_offset\<close> bytes of the TCP buffer the images of the
  same messages in a row.
\<close>

theorem fill_batch_refines:
  assumes "spsc_inv 20 q" "batch_ok b" "length pad = 24"
  shows "\<exists>q' packets msgs b' tcp_offset. pack_batch q = Some (q', packets, msgs) \<and>
    fill_batch pad b q = Some (q', b', tcp_offset, length packets) \<and> batch_ok b' \<and>
    map (packet_bytes b') [0..<length packets] = map (images pad) packets \<and>
    tcp_offset \<le> ba_tcp_capacity b' \<and> take tcp_offset (ba_tcp_buffer b') = images pad msgs"
  by (rule fill_batch_ok [OF assms])

theorem fill_batch_refines_witness:
  "\<exists>q b' tcp_offset. spsc_push 20 (spsc_new (\<lambda>_. demo_message 0)) (demo_message 3) = Some (q, True) \<and>
    map_option snd (fill_batch (replicate 24 0) (init_batch 64 (\<lambda>_. 0) (\<lambda>_. 0)) q) = Some (b', tcp_offset, 1) \<and>
    packet_bytes b' 0 = message_bytes (replicate 24 0) (demo_message 3)"
proof -
  let ?q = "spsc_new (\<lambda>_. demo_message 0)" and ?b = "init_batch 64 (\<lambda>_. 0) (\<lambda>_. 0)" and ?pad = "replicate 24 0"
  obtain q where q: "spsc_push 20 ?q (demo_message 3) = Some (q, True)" "spsc_inv 20 q" "spsc_contents 20 q = [demo_message 3]"
    using sq.push_accept [OF spsc_inv_new(1) [of 20 "\<lambda>_. demo_message 0"], of "demo_message 3"] spsc_inv_new(2) [of 20 "\<lambda>_. demo_message 0"] by auto
  have ok: "batch_ok ?b" using init_batch_ok by (simp add: batch_capacity_def)
  have "chunks 23 [demo_message 3] = [[demo_message 3]]" by (simp add: chunks.simps)
  then obtain q0 where p: "pack_batch q = Some (q0, [[demo_message 3]], [demo_message 3])"
    using pack_batch_ok [OF q(2)] q(3) by (auto simp: sizes)
  obtain b' tcp_offset where "map_option snd (fill_batch ?pad ?b q) = Some (b', tcp_offset, 1)" "map (packet_bytes b') [0..<1] = [message_bytes ?pad (demo_message 3)]"
    using fill_batch_refines [OF q(2) ok, of ?pad] p by auto
  then show ?thesis using q(1) by auto
qed

section \<open>The listener's buffers\<close>

record recv_batch =
  lb_iov :: "iovec list"
  lb_buffer :: "u8 list"
  lb_capacity :: nat

definition Listener_init_batch :: "nat \<Rightarrow> (nat \<Rightarrow> u8) \<Rightarrow> recv_batch" where
  "Listener_init_batch cap mem = \<lparr>lb_iov = map (\<lambda>i. \<lparr>iov_base = i * MAX_MSG_SIZE, iov_len = MAX_MSG_SIZE\<rparr>) [0..<cap],
     lb_buffer = map mem [0..<MAX_MSG_SIZE * cap], lb_capacity = cap\<rparr>"

text \<open>
  \<open>recvmmsg\<close>: datagram by datagram, cut off at the length of its buffer, with the length received. There are at most \<open>capacity\<close> of them.
\<close>

fun recv_datagrams :: "nat \<Rightarrow> u8 list list \<Rightarrow> recv_batch \<Rightarrow> (recv_batch \<times> nat list) option" where
  "recv_datagrams i [] b = Some (b, [])"
| "recv_datagrams i (d # ds) b = (if i < length (lb_iov b) then do {
       let bytes = take (iov_len (lb_iov b ! i)) d;
       buf \<leftarrow> memcpy (lb_buffer b) (iov_base (lb_iov b ! i)) bytes;
       (b1, lens) \<leftarrow> recv_datagrams (i + 1) ds (b\<lparr>lb_buffer := buf\<rparr>);
       Some (b1, length bytes # lens)
     } else None)"

text \<open>The loop over the messages of a datagram, with the pointer \<open>p_msg\<close> and the number of rounds left.\<close>

fun read_packet :: "u8 list \<Rightarrow> nat \<Rightarrow> nat \<Rightarrow> MarketDataMessage list" where
  "read_packet buf p_msg 0 = []"
| "read_packet buf p_msg (Suc n) = message_of_bytes (field p_msg message_size buf) # read_packet buf (p_msg + message_size) n"

definition received_messages :: "recv_batch \<Rightarrow> nat list \<Rightarrow> MarketDataMessage list" where
  "received_messages b lens = concat (map (\<lambda>i. read_packet (lb_buffer b) (iov_base (lb_iov b ! i)) (lens ! i div message_size)) [0..<length lens])"

definition recv_round :: "u8 list list \<Rightarrow> recv_batch \<times> Listener \<Rightarrow> (recv_batch \<times> Listener) option" where
  "recv_round ds s = (case s of (b, l) \<Rightarrow> if li_done l then Some (b, l) else do {
     (b1, lens) \<leftarrow> recv_datagrams 0 ds b;
     l1 \<leftarrow> receive_messages (received_messages b1 lens) l;
     Some (b1, l1)
   })"

definition recv_batch_ok :: "recv_batch \<Rightarrow> bool" where
  "recv_batch_ok b \<longleftrightarrow> lb_capacity b = batch_capacity \<and> lb_iov b = map (\<lambda>i. \<lparr>iov_base = i * MAX_MSG_SIZE, iov_len = MAX_MSG_SIZE\<rparr>) [0..<batch_capacity] \<and>
     length (lb_buffer b) = batch_capacity * MAX_MSG_SIZE"

lemma Listener_init_batch_ok: "recv_batch_ok (Listener_init_batch batch_capacity mem)"
  by (simp add: recv_batch_ok_def Listener_init_batch_def mult.commute)

lemma field_of_take: "off + n \<le> m \<Longrightarrow> take m xs = take m ys \<Longrightarrow> field off n xs = field off n ys"
proof -
  assume "off + n \<le> m" "take m xs = take m ys"
  then have "take (off + n) xs = take (off + n) ys" by (metis min.absorb1 take_take)
  then show ?thesis by (simp add: field_def take_drop add.commute)
qed

lemma recv_datagrams_ok:
  assumes "recv_batch_ok b" "i + length ds \<le> batch_capacity" "\<forall>d \<in> set ds. length d \<le> MAX_MSG_SIZE"
  shows "\<exists>b'. recv_datagrams i ds b = Some (b', map length ds) \<and> recv_batch_ok b' \<and>
    take (i * MAX_MSG_SIZE) (lb_buffer b') = take (i * MAX_MSG_SIZE) (lb_buffer b) \<and>
    (\<forall>j < length ds. field ((i + j) * MAX_MSG_SIZE) (length (ds ! j)) (lb_buffer b') = ds ! j)"
  using assms
proof (induction ds arbitrary: i b)
  case (Cons d ds)
  have i: "i < batch_capacity" and d: "length d \<le> MAX_MSG_SIZE" and fits: "(i + 1) * MAX_MSG_SIZE \<le> length (lb_buffer b)"
    using Cons.prems by (simp_all add: recv_batch_ok_def mult_le_mono1 del: mult_Suc add_mult_distrib)
  obtain buf where buf: "memcpy (lb_buffer b) (i * MAX_MSG_SIZE) d = Some buf" "length buf = length (lb_buffer b)"
      "take (i * MAX_MSG_SIZE + length d) buf = take (i * MAX_MSG_SIZE) (lb_buffer b) @ d"
    by (rule memcpy_fits [of "i * MAX_MSG_SIZE" d "lb_buffer b"]) (use fits d in \<open>auto simp: algebra_simps\<close>)
  have ok: "recv_batch_ok (b\<lparr>lb_buffer := buf\<rparr>)" using Cons.prems(1) buf(2) by (simp add: recv_batch_ok_def)
  obtain b' where b': "recv_datagrams (i + 1) ds (b\<lparr>lb_buffer := buf\<rparr>) = Some (b', map length ds)" "recv_batch_ok b'"
      "take ((i + 1) * MAX_MSG_SIZE) (lb_buffer b') = take ((i + 1) * MAX_MSG_SIZE) buf"
      "\<forall>j < length ds. field ((i + 1 + j) * MAX_MSG_SIZE) (length (ds ! j)) (lb_buffer b') = ds ! j"
    using Cons.IH [OF ok, of "i + 1"] Cons.prems by auto
  have "field (i * MAX_MSG_SIZE) (length d) (lb_buffer b') = field (i * MAX_MSG_SIZE) (length d) buf"
    by (rule field_of_take [OF _ b'(3)]) (use d in simp)
  also have "\<dots> = d" using arg_cong [OF buf(3), of "drop (i * MAX_MSG_SIZE)"] fits by (simp add: field_def take_drop add.commute)
  finally have "field ((i + j) * MAX_MSG_SIZE) (length ((d # ds) ! j)) (lb_buffer b') = (d # ds) ! j" if "j < length (d # ds)" for j
    using b'(4) that by (cases j) auto
  moreover have "take (i * MAX_MSG_SIZE) (lb_buffer b') = take (i * MAX_MSG_SIZE) (lb_buffer b)"
    using arg_cong [OF b'(3), of "take (i * MAX_MSG_SIZE)"] arg_cong [OF buf(3), of "take (i * MAX_MSG_SIZE)"] fits by (simp add: min_def)
  moreover have "recv_datagrams i (d # ds) b = Some (b', map length (d # ds))"
    using Cons.prems(1) i d buf(1) b'(1) by (simp add: recv_batch_ok_def)
  ultimately show ?case using b'(2) by blast
qed simp

lemma read_packet_eq: "read_packet buf p n = map (\<lambda>k. message_of_bytes (field (p + k * message_size) message_size buf)) [0..<n]"
proof (induction n arbitrary: p)
  case (Suc n)
  show ?case unfolding map_upt_Suc by (simp add: Suc algebra_simps)
qed simp

lemma field_field: "a + n \<le> m \<Longrightarrow> field a n (field p m xs) = field (p + a) n xs"
  by (simp add: field_def drop_take min.absorb1 add.commute)

lemma read_packet_messages:
  assumes "field p (length d) buf = d" shows "read_packet buf p (length d div message_size) = packet_messages d"
proof -
  have "field (p + k * message_size) message_size buf = field (k * message_size) message_size d" if "k < length d div message_size" for k
  proof -
    have "Suc k * message_size \<le> length d" using that by (metis Suc_leI div_times_less_eq_dividend le_trans mult_le_mono1)
    then have "field (k * message_size) message_size (field p (length d) buf) = field (p + k * message_size) message_size buf"
      by (intro field_field) simp
    then show ?thesis by (simp only: assms)
  qed
  then show ?thesis by (simp add: read_packet_eq packet_messages_def)
qed

text \<open>
  The bytes of a datagram land in its own part of the buffer, and what the pointer arithmetic reads back are its messages: a round on the buffer is a pass of the list model, and leaves the buffer fit for the next.
\<close>

lemma recv_round_ok:
  assumes "recv_batch_ok b" "length ds \<le> 64" "\<forall>d \<in> set ds. length d \<le> 1472"
  shows "\<exists>b'. recv_batch_ok b' \<and> recv_round ds (b, l) = map_option (Pair b') (listener_pass ds l)"
proof (cases "li_done l")
  case False
  obtain b' where b': "recv_datagrams 0 ds b = Some (b', map length ds)" "recv_batch_ok b'"
      "\<forall>j < length ds. field (j * MAX_MSG_SIZE) (length (ds ! j)) (lb_buffer b') = ds ! j"
    using recv_datagrams_ok [OF assms(1), of 0 ds] assms(2,3) by (auto simp: sizes)
  have "map (\<lambda>i. read_packet (lb_buffer b') (iov_base (lb_iov b' ! i)) (map length ds ! i div message_size)) [0..<length (map length ds)] = map packet_messages ds"
    by (rule nth_equalityI) (use b'(2,3) assms(2) in \<open>auto simp: recv_batch_ok_def read_packet_messages sizes(4)\<close>)
  then have "received_messages b' (map length ds) = concat (map packet_messages ds)" by (simp only: received_messages_def)
  then have "recv_round ds (b, l) = map_option (Pair b') (listener_pass ds l)"
    using b'(1) False by (cases "receive_messages (concat (map packet_messages ds)) l") (simp_all add: recv_round_def listener_pass_def)
  then show ?thesis using b'(2) by blast
qed (use assms(1) in \<open>auto simp: recv_round_def listener_pass_def\<close>)

section \<open>From the sender's memory to the listener's\<close>

lemma packet_messages_images:
  assumes "length pad = 24" shows "packet_messages (images pad ms) = ms"
proof (rule nth_equalityI)
  have len: "length (images pad ms) div message_size = length ms" by (simp add: images_length [OF assms] message_size_def)
  then show "length (packet_messages (images pad ms)) = length ms" by (simp add: packet_messages_def)
  fix i assume "i < length (packet_messages (images pad ms))"
  then have i: "i < length ms" by (simp add: packet_messages_def len)
  have "images pad ms = images pad (take i ms) @ message_bytes pad (ms ! i) @ images pad (drop (Suc i) ms)"
    by (subst id_take_nth_drop [OF i]) simp
  then have "field (length (images pad (take i ms))) (length (message_bytes pad (ms ! i))) (images pad ms) = message_bytes pad (ms ! i)"
    by (simp add: field_def)
  then have "field (i * message_size) message_size (images pad ms) = message_bytes pad (ms ! i)"
    using i by (simp add: images_length [OF assms] message_image(1) [OF assms])
  then show "packet_messages (images pad ms) ! i = ms ! i" using i message_image(2) [OF assms] by (simp add: packet_messages_def len)
qed

lemma chunks_bounds:
  assumes "0 < k" shows "\<forall>p \<in> set (chunks k xs). length p \<le> k" "length xs \<le> n * k \<Longrightarrow> length (chunks k xs) \<le> n" "concat (chunks k xs) = xs"
proof -
  show "\<forall>p \<in> set (chunks k xs). length p \<le> k"
    using assms by (induction k xs rule: chunks.induct) (subst chunks.simps, auto)
  show "concat (chunks k xs) = xs"
    using assms by (induction k xs rule: chunks.induct) (subst chunks.simps, auto)
  show "length xs \<le> n * k \<Longrightarrow> length (chunks k xs) \<le> n"
  proof (induction n arbitrary: xs)
    case (Suc n)
    then show ?case using Suc.IH [of "drop k xs"] by (subst chunks.simps) auto
  qed simp
qed

text \<open>
  The datagrams of a pass of the sender, read by \<open>sendmmsg\<close> from its batch, give the listener that receives them in one round exactly the messages the sender took from its queue. Both ends stay inside their buffers.
\<close>

lemma market_data_crosses:
  assumes "spsc_inv 20 q" "batch_ok b" "length pad = 24" "recv_batch_ok lb" "\<not> li_done l"
  shows "\<exists>q' b' off n lb'. fill_batch pad b q = Some (q', b', off, n) \<and> batch_ok b' \<and> recv_batch_ok lb' \<and>
    spsc_inv 20 q' \<and> spsc_contents 20 q' = drop 1472 (spsc_contents 20 q) \<and>
    concat (map packet_messages (map (packet_bytes b') [0..<n])) = take 1472 (spsc_contents 20 q) \<and>
    recv_round (map (packet_bytes b') [0..<n]) (lb, l) = map_option (Pair lb') (receive_messages (take 1472 (spsc_contents 20 q)) l)"
proof -
  let ?ms = "take 1472 (spsc_contents 20 q)" and ?ps = "chunks 23 (take 1472 (spsc_contents 20 q))"
  obtain q' where q': "pack_batch q = Some (q', ?ps, ?ms)" "spsc_contents 20 q' = drop 1472 (spsc_contents 20 q)" "spsc_inv 20 q'"
    using pack_batch_ok [OF assms(1)] by (auto simp: sizes)
  obtain b' off where b': "fill_batch pad b q = Some (q', b', off, length ?ps)" "batch_ok b'" "map (packet_bytes b') [0..<length ?ps] = map (images pad) ?ps"
    using fill_batch_ok [OF assms(1-3)] q'(1) by auto
  have bounds: "length (map (images pad) ?ps) \<le> 64" "\<forall>d \<in> set (map (images pad) ?ps). length d \<le> 1472"
    using chunks_bounds(2) [of 23 ?ms 64] chunks_bounds(1) [of 23 ?ms] by (simp, auto simp: images_length [OF assms(3)] sizes)
  obtain lb' where "recv_batch_ok lb'" "recv_round (map (images pad) ?ps) (lb, l) = map_option (Pair lb') (listener_pass (map (images pad) ?ps) l)"
    using recv_round_ok [OF assms(4) bounds] by blast
  moreover have ms: "concat (map packet_messages (map (images pad) ?ps)) = ?ms"
    using chunks_bounds(3) [of 23 ?ms] by (simp add: packet_messages_images [OF assms(3)] comp_def)
  then have "listener_pass (map (images pad) ?ps) l = receive_messages ?ms l" using assms(5) by (simp only: listener_pass_def) simp
  moreover have "concat (map packet_messages (map (packet_bytes b') [0..<length ?ps])) = ?ms" using ms by (simp only: b'(3))
  ultimately show ?thesis using q'(2,3) b' by (metis (no_types, lifting))
qed

section \<open>The retransmitter's buffer\<close>

text \<open>\<open>tcp_buffer\<close>, uninitialised, as the constructor's \<open>init_batch\<close> makes it.\<close>

definition rt_init_batch :: "nat \<Rightarrow> (nat \<Rightarrow> u8) \<Rightarrow> u8 list" where
  "rt_init_batch cap mem = map mem [0..<cap * MAX_MSG_SIZE]"

text \<open>The parsing loop of \<open>storeThread\<close> by offsets.\<close>

function parse_at :: "u8 list \<Rightarrow> nat \<Rightarrow> nat \<Rightarrow> (u64 \<Rightarrow> MarketDataMessage) \<Rightarrow> (u64 \<Rightarrow> MarketDataMessage) \<times> nat" where
  "parse_at tcp buffered off buffer = (if buffered - off \<ge> message_size
     then parse_at tcp buffered (off + message_size) (store_message (message_of_bytes (field off message_size tcp)) buffer)
     else (buffer, off))"
  by auto
termination by (relation "measure (\<lambda>(tcp, buffered, off, buffer). buffered - off)") (auto simp: message_size_def)

declare parse_at.simps [simp del]

text \<open>A round of \<open>storeThread\<close> in which \<open>recv\<close> delivers \<open>bytes\<close>: they are appended, parsed, and the rest is moved to the front.\<close>

definition store_round :: "u8 list \<Rightarrow> u8 list \<times> nat \<times> (u64 \<Rightarrow> MarketDataMessage) \<Rightarrow> (u8 list \<times> nat \<times> (u64 \<Rightarrow> MarketDataMessage)) option" where
  "store_round bytes s = (case s of (tcp, buffered, buffer) \<Rightarrow> do {
     tcp1 \<leftarrow> memcpy tcp buffered bytes;
     let buffered1 = buffered + length bytes;
     let (buffer1, off) = parse_at tcp1 buffered1 0 buffer;
     let leftover = buffered1 - off;
     tcp2 \<leftarrow> (if leftover > 0 \<and> off > 0 then memcpy tcp1 0 (field off leftover tcp1) else Some tcp1);
     Some (tcp2, leftover, buffer1)
   })"

text \<open>The space offered to \<open>recv\<close>; with none, \<open>recv\<close> returns 0 as for a closed connection.\<close>

definition recv_space :: "nat \<Rightarrow> nat" where
  "recv_space buffered = batch_capacity * MAX_MSG_SIZE - buffered"

lemma parse_at_messages:
  assumes "off \<le> buffered" "buffered \<le> length tcp"
  shows "\<exists>off'. parse_at tcp buffered off buffer = (fst (parse_messages buffer (field off (buffered - off) tcp)), off') \<and> off \<le> off' \<and> off' \<le> buffered \<and>
    snd (parse_messages buffer (field off (buffered - off) tcp)) = field off' (buffered - off') tcp"
  using assms
proof (induction tcp buffered off buffer rule: parse_at.induct)
  case (1 tcp buffered off buffer)
  let ?bytes = "field off (buffered - off) tcp"
  have len: "length ?bytes = buffered - off" using 1(2,3) by (simp add: field_def)
  show ?case
  proof (cases "buffered - off \<ge> message_size")
    case True
    have "take message_size ?bytes = field off message_size tcp" "drop message_size ?bytes = field (off + message_size) (buffered - (off + message_size)) tcp"
      using True by (simp_all add: field_def drop_take min.absorb1 add.commute)
    moreover have "off + message_size \<le> buffered" using True by (simp add: message_size_def)
    ultimately show ?thesis
      using 1(1) [OF True _ 1(3)] True len by (auto simp: parse_at.simps [of tcp buffered off] parse_messages.simps [of buffer ?bytes])
  next
    case False
    then show ?thesis using 1(2) len by (simp add: parse_at.simps [of tcp buffered off] parse_messages.simps [of buffer ?bytes])
  qed
qed

text \<open>
  C32. The retransmitter's receive buffer refines the stream of \<open>storeThread\<close>: with fewer than 64 bytes of an incomplete message in front and no more bytes than the space offered, a round stays inside the buffer, stores the messages the
  list model stores and leaves its leftover at the front, again fewer than 64 bytes. So \<open>recv\<close> is never offered an empty space, which would look like the end of the stream.
\<close>

theorem store_round_refines:
  assumes "length tcp = 64 * 1472" "buffered < 64" "length bytes \<le> recv_space buffered"
  shows "\<exists>tcp' n. store_round bytes (tcp, buffered, buffer) = Some (tcp', n, fst (parse_messages buffer (take buffered tcp @ bytes))) \<and>
    take n tcp' = snd (parse_messages buffer (take buffered tcp @ bytes)) \<and> length tcp' = length tcp \<and> n < 64 \<and> 0 < recv_space n"
proof -
  have fits: "buffered + length bytes \<le> length tcp" using assms by (simp add: recv_space_def sizes)
  obtain tcp1 where t1: "memcpy tcp buffered bytes = Some tcp1" "length tcp1 = length tcp" "take (buffered + length bytes) tcp1 = take buffered tcp @ bytes"
    by (rule memcpy_fits [OF fits])
  let ?m = "buffered + length bytes" and ?p = "parse_messages buffer (take buffered tcp @ bytes)"
  obtain off where off: "parse_at tcp1 ?m 0 buffer = (fst ?p, off)" "off \<le> ?m" "snd ?p = field off (?m - off) tcp1"
    using parse_at_messages [of 0 ?m tcp1 buffer] fits t1(2,3) by (auto simp: field_def)
  have len: "length (snd ?p) = ?m - off" using off(2,3) fits t1(2) by (simp add: field_def)
  then have n: "?m - off < 64" using parse_messages_rest [of buffer "take buffered tcp @ bytes"] by (simp add: message_size_def)
  obtain tcp2 where t2: "(if ?m - off > 0 \<and> off > 0 then memcpy tcp1 0 (field off (?m - off) tcp1) else Some tcp1) = Some tcp2"
      "length tcp2 = length tcp1" "take (?m - off) tcp2 = snd ?p"
  proof (cases "?m - off > 0 \<and> off > 0")
    case True
    obtain tcp2 where "memcpy tcp1 0 (snd ?p) = Some tcp2" "length tcp2 = length tcp1" "take (0 + length (snd ?p)) tcp2 = take 0 tcp1 @ snd ?p"
      by (rule memcpy_fits [of 0 "snd ?p" tcp1]) (use len fits t1(2) in simp)
    then show ?thesis using that True off(3) len by simp
  next
    case False
    then show ?thesis using that [of tcp1] off(3) len by (auto simp: field_def)
  qed
  have "store_round bytes (tcp, buffered, buffer) = Some (tcp2, ?m - off, fst ?p)" using t1(1) off(1) t2(1) by (simp add: store_round_def)
  then show ?thesis using t2(2,3) t1(2) n by (intro exI [of _ tcp2] exI [of _ "?m - off"]) (simp add: recv_space_def sizes)
qed

theorem store_round_refines_witness:
  "\<exists>tcp' buffer'. store_round (message_bytes (replicate 24 0) (demo_message 7)) (rt_init_batch 64 (\<lambda>_. 0), 0, \<lambda>_. demo_message 0) = Some (tcp', 0, buffer') \<and>
    buffer' 7 = demo_message 7"
proof -
  define tcp where "tcp = rt_init_batch 64 (\<lambda>_. 0)"
  let ?bytes = "message_bytes (replicate 24 0) (demo_message 7)" and ?buffer = "\<lambda>_ :: u64. demo_message 0"
  have "parse_messages ?buffer (concat [?bytes]) = (fold store_message [demo_message 7] ?buffer, [])"
    by (rule parse_messages_images) (auto intro: exI [of _ "replicate 24 0"])
  then have p: "parse_messages ?buffer (take 0 tcp @ ?bytes) = (store_message (demo_message 7) ?buffer, [])" by simp
  have len: "length tcp = 64 * 1472" by (simp add: tcp_def rt_init_batch_def sizes)
  have "length ?bytes \<le> recv_space 0" by (simp add: recv_space_def sizes)
  from store_round_refines [OF len _ this, of ?buffer] obtain tcp' n where
    r: "store_round ?bytes (tcp, 0, ?buffer) = Some (tcp', n, store_message (demo_message 7) ?buffer)" "take n tcp' = []" "length tcp' = length tcp"
    unfolding p by auto
  then have "n = 0" using len by auto
  moreover have "store_message (demo_message 7) ?buffer 7 = demo_message 7" by (simp add: store_message_def demo_message_def SIZE_def)
  ultimately show ?thesis using r(1) unfolding tcp_def by blast
qed

end
