(* ===== verification/Market_Data_Path.thy ===== *)
theory Market_Data_Path
  imports Engine_Run Batch_Memory
begin

text \<open>
  The way of a trade from the matching engine to a listener, through four programs: the group publishes it in its ring, the feed's reader numbers and queues it, the sender packs it into the memory that \<open>sendmmsg\<close>
  reads, and the listener reads it from the memory that \<open>recvmmsg\<close> wrote.
\<close>

text \<open>A feed that has read, numbered and sent all trades \<open>us i\<close> published in the rings so far.\<close>

definition feed_current :: "(nat \<Rightarrow> trade_ring) \<Rightarrow> (nat \<Rightarrow> Trade list) \<Rightarrow> MarketFeedReader \<Rightarrow> bool" where
  "feed_current rings us f \<longleftrightarrow> length (mf_trb_vec f) = 2 \<and> spsc_inv 20 (mf_queue f) \<and> spsc_contents 20 (mf_queue f) = [] \<and>
     (\<forall>i < 2. ring_holds (rings i) (us i) \<and> handle_at (mf_trb_vec f ! i) (length (us i)))"

text \<open>A listener that has seen the feed's last message, or nothing yet.\<close>

definition in_step :: "MarketFeedReader \<Rightarrow> Listener \<Rightarrow> bool" where
  "in_step f l \<longleftrightarrow> \<not> li_done l \<and> (li_last_seq_num l + 1 = mf_seq_num f \<or> mf_seq_num f = 0 \<and> li_last_seq_num l = 0)"

lemma receive_numbered:
  assumes "li_last_seq_num l + 1 = n \<or> n = 0 \<and> li_last_seq_num l = 0"
  shows "receive_messages (numbered n ts) l = Some (if ts = [] then l else l\<lparr>li_last_seq_num := n + of_nat (length ts) - 1\<rparr>)"
  using assms
proof (induction ts arbitrary: n l)
  case (Cons t ts)
  let ?m = "\<lparr>md_trade_id = t_trade_id t, md_timestamp_ns = t_timestamp_ns t, md_price = t_price t, md_symbol_id = t_symbol_id t,
    md_quantity = t_quantity t, md_seq_num = n\<rparr>"
  have "receive_message ?m l = Some (l\<lparr>li_last_seq_num := n\<rparr>)" using Cons.prems by (auto simp: receive_message_def)
  then show ?case using Cons.IH [of "l\<lparr>li_last_seq_num := n\<rparr>" "n + 1"] by (cases ts) (simp_all add: algebra_simps)
qed simp

lemma feed_reads_new:
  assumes "feed_current rings us f" "grp < 2" "ring_holds ring (us grp @ ts)" "length ts \<le> 10" "\<forall>i < 2. length (us i) + 13 < 2 ^ 21"
  shows "\<exists>f'. readThread_pass (rings(grp := ring)) True f = Some f' \<and> spsc_contents 20 (mf_queue f') = numbered (mf_seq_num f) ts \<and>
    mf_seq_num f' = mf_seq_num f + of_nat (length ts) \<and> spsc_inv 20 (mf_queue f') \<and> length (mf_trb_vec f') = 2 \<and>
    (\<forall>i < 2. ring_holds ((rings(grp := ring)) i) ((us(grp := us grp @ ts)) i) \<and> handle_at (mf_trb_vec f' ! i) (length ((us(grp := us grp @ ts)) i)))"
proof -
  define r where "r = rings(grp := ring)"
  define u where "u = us(grp := us grp @ ts)"
  define j where "j = (\<lambda>i. length (us i))"
  have c: "length (mf_trb_vec f) = 2" "spsc_inv 20 (mf_queue f)" "spsc_contents 20 (mf_queue f) = []" using assms(1) by (simp_all add: feed_current_def)
  have holds: "\<forall>i < 2. ring_holds (r i) (u i)" using assms(1,3) by (simp add: feed_current_def r_def u_def)
  then have "\<forall>i < 2. ring_holds (r i) (u i) \<and> handle_at (mf_trb_vec f ! i) (j i) \<and> j i \<le> length (u i) \<and> length (u i) \<le> j i + 2 ^ 20 \<and> length (u i) + 3 < 2 ^ 21"
    using assms(1,4,5) by (fastforce simp: feed_current_def u_def j_def)
  from feed_pass_ok [OF this c(1,2)] obtain f' where f': "readThread_pass r True f = Some f'"
      "spsc_contents 20 (mf_queue f') = numbered (mf_seq_num f) (take 10 (drop (j 0) (u 0)) @ take 10 (drop (j 1) (u 1)))"
      "mf_seq_num f' = mf_seq_num f + of_nat (min 10 (length (u 0) - j 0) + min 10 (length (u 1) - j 1))"
      "spsc_inv 20 (mf_queue f')" "length (mf_trb_vec f') = 2" "\<forall>i < 2. handle_at (mf_trb_vec f' ! i) (min (j i + 10) (length (u i)))"
    using c(3) by auto
  have "grp = 0 \<or> grp = 1" using assms(2) by auto
  then have new: "take 10 (drop (j 0) (u 0)) @ take 10 (drop (j 1) (u 1)) = ts" "min 10 (length (u 0) - j 0) + min 10 (length (u 1) - j 1) = length ts"
    using assms(4) by (auto simp: u_def j_def)
  have "min (j i + 10) (length (u i)) = length (u i)" for i using assms(4) by (simp add: u_def j_def)
  then show ?thesis unfolding r_def [symmetric] u_def [symmetric] using f' holds by (simp only: new) auto
qed

text \<open>
  C6. The trades of an order reach the listeners: when a group works off an admissible order (of at most ten trades, what the feed reads from a ring in one pass), the feed, up to date before, reads from
  the group's ring exactly the trades the order should cause, the sender's datagrams carry them numbered without a gap, and a listener that receives the datagrams reads just these messages and asks for none
  again. The feed is up to date and in step with the listener afterwards, so that the same holds for the next order.
\<close>

theorem trades_reach_listeners:
  assumes "wf_group g" "order_ok g order" "length (order_trades g order) \<le> 10"
    "feed_current rings us f" "\<forall>i < 2. length (us i) + 13 < 2 ^ 21" "grp < 2" "rings grp = g_ring g" "handle_at (g_trade_buffer g) (length (us grp))"
    "batch_ok b" "length pad = 24" "recv_batch_ok lb" "in_step f l"
  shows "\<exists>g' f' q b' off n lb' l'. process_order g order = Some (Inr g') \<and>
    readThread_pass (rings(grp := g_ring g')) True f = Some f' \<and> fill_batch pad b (mf_queue f') = Some (q, b', off, n) \<and>
    concat (map packet_messages (map (packet_bytes b') [0..<n])) = numbered (mf_seq_num f) (order_trades g order) \<and>
    recv_round (map (packet_bytes b') [0..<n]) (lb, l) = Some (lb', l') \<and> li_queue l' = li_queue l \<and>
    handle_at (g_trade_buffer g') (length (us grp @ order_trades g order)) \<and> batch_ok b' \<and> recv_batch_ok lb' \<and>
    feed_current (rings(grp := g_ring g')) (us(grp := us grp @ order_trades g order)) (f'\<lparr>mf_queue := q\<rparr>) \<and> in_step f' l'"
proof -
  let ?ts = "order_trades g order"
  obtain g' where g': "process_order g order = Some (Inr g')" using process_order_simulation [OF assms(1,2)] by blast
  have ring: "ring_holds (g_ring g') (us grp @ ?ts) \<and> handle_at (g_trade_buffer g') (length (us grp @ ?ts))"
  proof (rule publish_all_ok [OF assms(8)])
    show "ring_holds (g_ring g) (us grp)" using assms(4,6,7) by (auto simp: feed_current_def)
    show "length (us grp) + length ?ts + 2 \<le> 2 ^ 60" using assms(3,5,6) by (auto dest!: spec [of _ grp])
    show "publish_all (g_ring g, g_trade_buffer g) ?ts = (g_ring g', g_trade_buffer g')" using published [OF assms(1,2) g'] by simp
  qed
  obtain f' where f': "readThread_pass (rings(grp := g_ring g')) True f = Some f'" "spsc_contents 20 (mf_queue f') = numbered (mf_seq_num f) ?ts"
      "mf_seq_num f' = mf_seq_num f + of_nat (length ?ts)" "spsc_inv 20 (mf_queue f')" "length (mf_trb_vec f') = 2"
      "\<forall>i < 2. ring_holds ((rings(grp := g_ring g')) i) ((us(grp := us grp @ ?ts)) i) \<and> handle_at (mf_trb_vec f' ! i) (length ((us(grp := us grp @ ?ts)) i))"
    using feed_reads_new [OF assms(4,6) conjunct1 [OF ring] assms(3,5)] by blast
  have l: "\<not> li_done l" "li_last_seq_num l + 1 = mf_seq_num f \<or> mf_seq_num f = 0 \<and> li_last_seq_num l = 0" using assms(12) by (auto simp: in_step_def)
  have small: "take 1472 (numbered (mf_seq_num f) ?ts) = numbered (mf_seq_num f) ?ts" "drop 1472 (numbered (mf_seq_num f) ?ts) = []" using assms(3) by simp_all
  obtain q b' off n lb' where m: "fill_batch pad b (mf_queue f') = Some (q, b', off, n)" "batch_ok b'" "recv_batch_ok lb'" "spsc_inv 20 q" "spsc_contents 20 q = []"
      "concat (map packet_messages (map (packet_bytes b') [0..<n])) = numbered (mf_seq_num f) ?ts"
      "recv_round (map (packet_bytes b') [0..<n]) (lb, l) = map_option (Pair lb') (receive_messages (numbered (mf_seq_num f) ?ts) l)"
    using market_data_crosses [OF f'(4) assms(9-11) l(1)] unfolding f'(2) small by blast
  define l' where "l' = (if ?ts = [] then l else l\<lparr>li_last_seq_num := mf_seq_num f + of_nat (length ?ts) - 1\<rparr>)"
  have r: "recv_round (map (packet_bytes b') [0..<n]) (lb, l) = Some (lb', l')" using m(7) receive_numbered [OF l(2), of ?ts] by (simp add: l'_def)
  have "li_queue l' = li_queue l" "in_step f' l'" using l by (auto simp: l'_def in_step_def f'(3))
  moreover have "feed_current (rings(grp := g_ring g')) (us(grp := us grp @ ?ts)) (f'\<lparr>mf_queue := q\<rparr>)"
    using f'(5,6) m(4,5) by (simp add: feed_current_def)
  ultimately show ?thesis using g' f'(1) m(1-3,6) r ring by blast
qed

text \<open>A buy order hits the demo group's resting sell order.\<close>

lemma demo_group1_ring: "g_ring demo_group1 = zero_ring" "handle_at (g_trade_buffer demo_group1) 0"
proof -
  have ok: "order_ok demo_group demo_sell" unfolding demo_sell_def by (rule demo_ok) simp
  have "(g_ring demo_group1, g_trade_buffer demo_group1) = (g_ring demo_group, g_trade_buffer demo_group)"
    using published [OF demo_group_wf(1) ok demo_group1_wf(1)] by (simp add: order_trades_def demo_spec1)
  then show "g_ring demo_group1 = zero_ring" "handle_at (g_trade_buffer demo_group1) 0"
    by (simp_all add: demo_group_def GroupProcessor_new_def handle_at_new)
qed

theorem trades_reach_listeners_witness:
  "\<exists>g' f' q b' off n. process_order demo_group1 (demo_order 2 LIMIT BUY 12 4) = Some (Inr g') \<and>
    readThread_pass ((\<lambda>_. zero_ring)(0 := g_ring g')) True (MarketFeedReader_new (\<lambda>_. demo_message 0)) = Some f' \<and>
    fill_batch (replicate 24 0) (init_batch 64 (\<lambda>_. 0) (\<lambda>_. 0)) (mf_queue f') = Some (q, b', off, n) \<and>
    map md_price (concat (map packet_messages (map (packet_bytes b') [0..<n]))) = [11]"
proof -
  let ?f = "MarketFeedReader_new (\<lambda>_. demo_message 0)" and ?b = "init_batch 64 (\<lambda>_. 0) (\<lambda>_. 0)" and ?lb = "Listener_init_batch 64 (\<lambda>_. 0)"
  let ?order = "demo_order 2 LIMIT BUY 12 4" and ?pad = "replicate 24 0"
  have ok: "order_ok demo_group1 ?order" by (rule demo_ok1) simp_all
  have buffers: "batch_ok ?b" "length ?pad = 24" "recv_batch_ok ?lb"
    using init_batch_ok Listener_init_batch_ok by (simp_all add: batch_capacity_def)
  have g: "[0..<GROUP_COUNT] = [0, 1]" by (simp add: GROUP_COUNT_def numeral_2_eq_2)
  have feed: "feed_current (\<lambda>_. zero_ring) (\<lambda>_. []) ?f"
    using spsc_inv_new [of 20 "\<lambda>_. demo_message 0"] by (auto simp: feed_current_def MarketFeedReader_new_def g ring_holds_zero handle_at_new less_2_cases_iff)
  have step: "in_step ?f (Listener_new (\<lambda>_. 0))" by (simp add: in_step_def MarketFeedReader_new_def Listener_new_def)
  have few: "length (order_trades demo_group1 ?order) \<le> 10" "\<forall>i < 2 :: nat. length ((\<lambda>_. []) i) + 13 < 2 ^ 21" by (simp_all add: demo_trades2)
  have h: "handle_at (g_trade_buffer demo_group1) (length ((\<lambda>_. [] :: Trade list) 0))" by (simp add: demo_group1_ring)
  from trades_reach_listeners [OF demo_group1_wf(2) ok few(1) feed few(2) _ demo_group1_ring(1) [symmetric] h buffers step]
  show ?thesis by (fastforce simp: demo_trades2)
qed

end
