(* ===== verification/Trade_Persist.thy ===== *)
theory Trade_Persist
  imports Trade_Store
begin

text \<open>
  What the two threads of \<^verbatim>\<open>src/src/trade_processor.cpp\<close> achieve together: no region is lost or shared, a full day of trades is written, and when the
  threads end, what is in memory is on disk. Also what they do not achieve: the regions hold fewer trades than a day has.
\<close>

section \<open>Every reachable state\<close>

lemma spsc_new_ok: "spsc_inv 5 (spsc_new junk)" "spsc_contents 5 (spsc_new junk) = []"
  by (simp_all add: spsc_inv_def spsc_contents_def spsc_new_def)

lemma give_regions_ok:
  assumes "spsc_inv 5 q" "length (spsc_contents 5 q) + length rs \<le> 31"
  obtains q' where "give_regions rs q = Some q'" "spsc_inv 5 q'" "spsc_contents 5 q' = spsc_contents 5 q @ rs"
  using assms
proof (induction rs arbitrary: q thesis)
  case (Cons r rs)
  have "length (spsc_contents 5 q) < 31" using Cons.prems(3) by simp
  then obtain q1 where "give_region q r = Some (q1, True)" "spsc_inv 5 q1" "spsc_contents 5 q1 = spsc_contents 5 q @ [r]"
    using give_room Cons.prems(2) by metis
  then show ?case using Cons.IH [of q1] Cons.prems by fastforce
qed simp

lemma new_ok:
  obtains s where "TradeProcessor_new junk i = Some s" "tp_at 0 s" "tp_log s = []" "tp_trBuffer s = trade_ring_buffer_new False i"
    "\<not> tp_t2done s" "tp_persist_region s = None" "spsc_contents 5 (tp_rb_persist s) = []"
proof -
  obtain q where q: "give_regions [0..<31] (spsc_new junk) = Some q" "spsc_inv 5 q" "spsc_contents 5 q = [0..<31]"
    using give_regions_ok [of "spsc_new junk" "[0..<31]"] by (auto simp: spsc_new_ok)
  have "rotated 0 = [0..<31]" unfolding rotated_def by (rule map_idI) simp
  then show ?thesis using that q by (simp add: TradeProcessor_new_def mem_regions_def tp_at_def cycle_def spsc_new_ok holds_last_def)
qed

lemma reach_at: "tp_reach s0 s \<Longrightarrow> tp_at c s0 \<Longrightarrow> \<exists>c. tp_at c s"
proof (induction arbitrary: c rule: tp_reach.induct)
  case (writer s ring s')
  then show ?case using at_writer_pass by blast
next
  case (claim s s')
  then show ?case using at_persist_claim by blast
next
  case (sync s s')
  then show ?case using at_persist_sync by blast
qed blast

lemma reach_new:
  assumes "TradeProcessor_new junk i = Some s0" "tp_reach s0 s"
  obtains c where "tp_at c s"
  using reach_at [OF assms(2)] assms(1) new_ok [of junk i] by (metis option.inject)

section \<open>The end of the persistence thread\<close>

text \<open>Draining and unmapping, with enough rounds.\<close>

lemma drain_ok:
  assumes "spsc_inv 5 (tp_rb_persist s)" "spsc_inv 5 (tp_rb_write s)" "length (spsc_contents 5 (tp_rb_persist s)) < n"
    "length (spsc_contents 5 (tp_rb_write s)) + length (spsc_contents 5 (tp_rb_persist s)) \<le> 31"
    "\<forall>r \<in> set (spsc_contents 5 (tp_rb_write s)). tp_disk s r = tp_memory s r"
  shows "\<exists>s'. persist_drain n s = Some s' \<and> spsc_inv 5 (tp_rb_write s') \<and>
    spsc_contents 5 (tp_rb_write s') = spsc_contents 5 (tp_rb_write s) @ spsc_contents 5 (tp_rb_persist s) \<and>
    tp_memory s' = tp_memory s \<and> tp_log s' = tp_log s \<and>
    (\<forall>r \<in> set (spsc_contents 5 (tp_rb_write s')). tp_disk s' r = tp_memory s' r)"
  using assms
proof (induction n arbitrary: s)
  case (Suc n)
  obtain q r where q: "get_region (tp_rb_persist s) = Some (q, r)" "spsc_inv 5 q"
    "spsc_contents 5 (tp_rb_persist s) = hand r @ spsc_contents 5 q" "r = None \<Longrightarrow> spsc_contents 5 (tp_rb_persist s) = []"
    using take_region [OF Suc.prems(1)] by metis
  show ?case
  proof (cases r)
    case None
    then show ?thesis using q Suc.prems by simp
  next
    case (Some x)
    have "length (spsc_contents 5 (tp_rb_write s)) < 31" using Suc.prems(4) q(3) Some by simp
    then obtain w where w: "give_region (tp_rb_write s) x = Some (w, True)" "spsc_inv 5 w"
      "spsc_contents 5 w = spsc_contents 5 (tp_rb_write s) @ [x]" using give_room Suc.prems(2) by metis
    let ?s = "s\<lparr>tp_rb_persist := q, tp_rb_write := w, tp_disk := (tp_disk s)(x := tp_memory s x)\<rparr>"
    have "persist_drain (Suc n) s = persist_drain n ?s" using q(1) Some w(1) by simp
    moreover note Suc.IH [of ?s]
    ultimately show ?thesis using q(2,3) Some w(2,3) Suc.prems by simp
  qed
qed simp

lemma unmap_ok:
  assumes "spsc_inv 5 q" "length (spsc_contents 5 q) < n"
  shows "\<exists>q'. unmap_all n q = Some (q', spsc_contents 5 q)"
  using assms
proof (induction n arbitrary: q)
  case (Suc n)
  obtain q1 r where q: "get_region q = Some (q1, r)" "spsc_inv 5 q1"
    "spsc_contents 5 q = hand r @ spsc_contents 5 q1" "r = None \<Longrightarrow> spsc_contents 5 q = []"
    using take_region [OF Suc.prems(1)] by metis
  show ?case using q Suc.IH [of q1] Suc.prems(2) by (cases r) auto
qed simp

lemma finish_at:
  assumes at: "tp_at c s" and w: "tp_writer_region s = None"
  shows "\<exists>s' rs. persist_finish s = Some (s', rs) \<and> mset rs = mset [0..<31] \<and> tp_log s' = tp_log s \<and> tp_memory s' = tp_memory s \<and>
    (\<forall>r < 31. tp_disk s' r = tp_memory s r)"
proof -
  obtain s1 where s1: "persist_sync s = Some s1" "tp_persist_region s1 = None" "tp_writer_region s1 = None"
    "tp_log s1 = tp_log s" "tp_memory s1 = tp_memory s"
  proof (cases "tp_persist_region s")
    case (Some r)
    have "length (spsc_contents 5 (tp_rb_write s)) < 31" using cycle_length [of s c] at Some by (simp add: tp_at_def)
    then obtain q where "give_region (tp_rb_write s) r = Some (q, True)"
      using give_room [of "tp_rb_write s" r] at by (auto simp: tp_at_def)
    then show ?thesis using that w Some by (simp add: persist_sync_def)
  qed (use w in \<open>simp add: persist_sync_def\<close>)
  have at1: "tp_at c s1" by (rule at_persist_sync [OF at s1(1)])
  have cyc: "spsc_contents 5 (tp_rb_write s1) @ spsc_contents 5 (tp_rb_persist s1) = rotated c"
    using at1 s1(2,3) by (simp add: tp_at_def cycle_def)
  then have len: "length (spsc_contents 5 (tp_rb_write s1)) + length (spsc_contents 5 (tp_rb_persist s1)) = 31"
    using rotated_distinct(2) [of c] by (metis length_append)
  obtain s2 where s2: "persist_drain 33 s1 = Some s2" "spsc_inv 5 (tp_rb_write s2)" "spsc_contents 5 (tp_rb_write s2) = rotated c"
    "tp_memory s2 = tp_memory s" "tp_log s2 = tp_log s"
    "\<forall>r \<in> set (spsc_contents 5 (tp_rb_write s2)). tp_disk s2 r = tp_memory s2 r"
    using drain_ok [of s1 33] at1 len s1(4,5) cyc by (auto simp: tp_at_def)
  obtain q where q: "unmap_all 33 (tp_rb_write s2) = Some (q, rotated c)"
    using unmap_ok [OF s2(2), of 33] s2(3) rotated_distinct(2) [of c] by auto
  have "mset (rotated c) = mset [0..<31]"
    using rotated_distinct(1,3) [of c] by (intro set_eq_iff_mset_eq_distinct [THEN iffD1]) (auto simp: atLeast0LessThan)
  then show ?thesis using s1(1) s2 q rotated_distinct(3) [of c] by (simp add: persist_finish_def del: persist_drain.simps unmap_all.simps)
qed

section \<open>A whole day\<close>

lemma reach_trans: "tp_reach s1 s2 \<Longrightarrow> tp_reach s0 s1 \<Longrightarrow> tp_reach s0 s2"
  by (induction rule: tp_reach.induct) (auto intro: tp_reach.intros)

text \<open>Between two trades, with nothing waiting to be persisted: \<open>j\<close> of the trades \<open>ts\<close> are written.\<close>

definition quiet :: "Trade list \<Rightarrow> nat \<Rightarrow> TradeProcessor \<Rightarrow> bool" where
  "quiet ts j s \<longleftrightarrow> (\<exists>c. tp_at c s) \<and> tp_log s = take j ts \<and> handle_at (tp_trBuffer s) j \<and> \<not> tp_t2done s \<and>
     tp_persist_region s = None \<and> spsc_contents 5 (tp_rb_persist s) = []"

text \<open>The writer finds a region, and after its write at most one region waits.\<close>

lemma quiet_claim:
  assumes "quiet ts j s"
  obtains s1 r where "writer_claim s = Some s1" "tp_writer_region s1 = Some r" "quiet ts j s1"
proof -
  obtain c where c: "tp_at c s" using assms by (auto simp: quiet_def)
  show ?thesis
  proof (cases "tp_writer_region s")
    case None
    have inv: "spsc_inv 5 (tp_rb_write s)" using c by (simp add: tp_at_def)
    have "length (spsc_contents 5 (tp_rb_write s)) = 31"
      using cycle_length [of s c] c None assms by (simp add: quiet_def tp_at_def)
    then obtain q r where "get_region (tp_rb_write s) = Some (q, Some r)"
      using take_region [OF inv] by (metis list.size(3) not_None_eq zero_neq_numeral)
    then have s1: "writer_claim s = Some (s\<lparr>tp_rb_write := q, tp_writer_region := Some r, tp_writeOffset := 0\<rparr>)"
      using None by (simp add: writer_claim_def)
    have "quiet ts j (s\<lparr>tp_rb_write := q, tp_writer_region := Some r, tp_writeOffset := 0\<rparr>)"
      using assms at_writer_claim [OF c s1] by (simp add: quiet_def)
    then show ?thesis using that [OF s1] by simp
  next
    case (Some r)
    then show ?thesis using that [of s r] assms by (simp add: writer_claim_def)
  qed
qed

lemma quiet_write:
  assumes q: "quiet ts j s" and r: "tp_writer_region s = Some r" and ring: "ring_holds ring ts"
    and ts: "length ts = maxTradesPerTP" and j: "j < length ts"
  obtains s1 c where "writer_write ring s = Some s1" "tp_at c s1" "tp_log s1 = take (Suc j) ts" "handle_at (tp_trBuffer s1) (Suc j)"
    "\<not> tp_t2done s1" "tp_persist_region s1 = None" "length (spsc_contents 5 (tp_rb_persist s1)) \<le> 1"
proof -
  obtain c where c: "tp_at c s" using q by (auto simp: quiet_def)
  have h: "handle_at (tp_trBuffer s) j" using q by (simp add: quiet_def)
  have b: "length ts \<le> 2 ^ 20" by (simp add: ts maxTradesPerTP_def)
  have g: "get_trade ring (tp_trBuffer s) = Some (update_index_and_seq (tp_trBuffer s), ts ! j)"
    using consumer_get [OF ring h j] b by simp
  have h1: "handle_at (update_index_and_seq (tp_trBuffer s)) (Suc j)" using handle_at_update [OF h] j b by simp
  obtain p where p: "give_region (tp_rb_persist s) r = Some (p, True)" "spsc_contents 5 p = spsc_contents 5 (tp_rb_persist s) @ [r]"
    using give_persist [OF c r] by metis
  have l: "take j ts @ [ts ! j] = take (Suc j) ts" by (rule take_Suc_conv_app_nth [OF j, symmetric])
  obtain s1 where s1: "writer_write ring s = Some s1" "tp_log s1 = take (Suc j) ts" "handle_at (tp_trBuffer s1) (Suc j)"
    "\<not> tp_t2done s1" "tp_persist_region s1 = None" "length (spsc_contents 5 (tp_rb_persist s1)) \<le> 1"
    using that p g h1 l r q by (cases "tp_writeOffset s + trade_size \<ge> fileSize") (auto simp: writer_write_def quiet_def)
  have "length (tp_log s) < maxTradesPerTP" using q j ts by (simp add: quiet_def)
  then show ?thesis using that [OF s1(1) at_writer_write [OF c s1(1)]] s1 by blast
qed

text \<open>A region that waits is synced and given back.\<close>

lemma absorb:
  assumes at: "tp_at c s" and n: "tp_persist_region s = None" and l: "length (spsc_contents 5 (tp_rb_persist s)) \<le> 1"
  obtains s' where "tp_reach s s'" "tp_at c s'" "tp_log s' = tp_log s" "tp_trBuffer s' = tp_trBuffer s" "tp_t2done s' = tp_t2done s"
    "tp_persist_region s' = None" "spsc_contents 5 (tp_rb_persist s') = []"
proof -
  obtain q r where q: "get_region (tp_rb_persist s) = Some (q, r)" "spsc_contents 5 (tp_rb_persist s) = hand r @ spsc_contents 5 q"
    "r = None \<Longrightarrow> spsc_contents 5 (tp_rb_persist s) = []"
    using take_region [of "tp_rb_persist s"] at unfolding tp_at_def by metis
  have e: "spsc_contents 5 q = []" using l q(2,3) by (cases r) auto
  let ?s1 = "s\<lparr>tp_rb_persist := q, tp_persist_region := r\<rparr>"
  have c1: "persist_claim s = Some ?s1" using n q(1) by (simp add: persist_claim_def)
  have at1: "tp_at c ?s1" by (rule at_persist_claim [OF at c1])
  have r1: "tp_reach s ?s1" by (rule tp_reach.claim [OF tp_reach.start c1])
  obtain s' where s': "persist_sync ?s1 = Some s'" "tp_log s' = tp_log s" "tp_trBuffer s' = tp_trBuffer s" "tp_t2done s' = tp_t2done s"
    "tp_persist_region s' = None" "tp_rb_persist s' = q"
  proof (cases r)
    case (Some x)
    have "length (spsc_contents 5 (tp_rb_write s)) < 31" using cycle_length [of ?s1 c] at1 Some by (simp add: tp_at_def)
    then obtain w where "give_region (tp_rb_write s) x = Some (w, True)"
      using give_room [of "tp_rb_write s" x] at by (auto simp: tp_at_def)
    then show ?thesis using that Some by (simp add: persist_sync_def)
  qed (use that in \<open>simp add: persist_sync_def\<close>)
  show ?thesis using that [OF tp_reach.sync [OF r1 s'(1)] at_persist_sync [OF at1 s'(1)]] s' e by simp
qed

lemma quiet_round:
  assumes q: "quiet ts j s" and ring: "ring_holds ring ts" and ts: "length ts = maxTradesPerTP" and j: "j < length ts"
  shows "\<exists>s'. tp_reach s s' \<and> quiet ts (Suc j) s'"
proof -
  obtain s1 r where s1: "writer_claim s = Some s1" "tp_writer_region s1 = Some r" "quiet ts j s1" by (rule quiet_claim [OF q])
  obtain s2 c where s2: "writer_write ring s1 = Some s2" "tp_at c s2" "tp_log s2 = take (Suc j) ts" "handle_at (tp_trBuffer s2) (Suc j)"
    "\<not> tp_t2done s2" "tp_persist_region s2 = None" "length (spsc_contents 5 (tp_rb_persist s2)) \<le> 1"
    by (rule quiet_write [OF s1(3,2) ring ts j])
  have "any_new_trade ring (tp_trBuffer s)"
    using consumer_any_new [OF ring, of "tp_trBuffer s" j] q j ts by (simp add: quiet_def maxTradesPerTP_def)
  moreover have "tp_trade_counter s < maxTradesPerTP" "\<not> tp_t2done s" using q j ts by (auto simp: quiet_def tp_at_def)
  ultimately have "writer_pass ring s = Some s2" using s1(1) s2(1) by (simp add: writer_pass_def)
  then have r2: "tp_reach s s2" by (rule tp_reach.writer [OF tp_reach.start])
  obtain s' where s': "tp_reach s2 s'" "tp_at c s'" "tp_log s' = tp_log s2" "tp_trBuffer s' = tp_trBuffer s2" "tp_t2done s' = tp_t2done s2"
    "tp_persist_region s' = None" "spsc_contents 5 (tp_rb_persist s') = []" by (rule absorb [OF s2(2,6,7)])
  have "quiet ts (Suc j) s'" using s' s2 by (auto simp: quiet_def)
  then show ?thesis using reach_trans [OF s'(1) r2] by blast
qed

lemma quiet_reached:
  assumes "quiet ts 0 s" "ring_holds ring ts" "length ts = maxTradesPerTP" "j \<le> length ts"
  shows "\<exists>s'. tp_reach s s' \<and> quiet ts j s'"
  using assms(4)
proof (induction j)
  case 0
  then show ?case using assms(1) tp_reach.start by blast
next
  case (Suc j)
  then obtain s1 where "tp_reach s s1" "quiet ts j s1" by auto
  then show ?case using quiet_round [OF _ assms(2,3)] Suc.prems reach_trans by (meson Suc_le_eq)
qed

lemma writer_end_total:
  assumes "tp_at c s"
  shows "\<exists>s'. writer_end s = Some s' \<and> tp_t2done s' \<and> tp_log s' = tp_log s"
proof (cases "tp_writer_region s")
  case (Some r)
  obtain q where "give_region (tp_rb_persist s) r = Some (q, True)" using give_persist [OF assms Some] by metis
  then show ?thesis using Some by (simp add: writer_end_def)
qed (simp add: writer_end_def)

lemma day_run:
  assumes "quiet ts 0 s0" "ring_holds ring ts" "length ts = maxTradesPerTP"
  shows "\<exists>s. tp_reach s0 s \<and> tp_t2done s \<and> tp_log s = ts"
proof -
  obtain s1 where s1: "tp_reach s0 s1" "quiet ts (length ts) s1" using quiet_reached [OF assms, of "length ts"] by auto
  obtain c where c: "tp_at c s1" using s1(2) by (auto simp: quiet_def)
  have d: "\<not> tp_t2done s1" "\<not> tp_trade_counter s1 < maxTradesPerTP" "tp_log s1 = ts"
    using s1(2) assms(3) by (auto simp: quiet_def tp_at_def)
  obtain s2 where s2: "writer_end s1 = Some s2" "tp_t2done s2" "tp_log s2 = ts" using writer_end_total [OF c] d(3) by auto
  have "writer_pass ring s1 = Some s2" using d s2(1) by (simp add: writer_pass_def)
  then show ?thesis using tp_reach.writer [OF s1(1)] s2(2,3) by blast
qed

text \<open>A day of numbered trades, for the witnesses.\<close>

definition numbered_trade :: "nat \<Rightarrow> Trade" where
  "numbered_trade n = zero_trade\<lparr>t_trade_id := of_nat n\<rparr>"

lemma numbered_day:
  obtains s0 s where "TradeProcessor_new (\<lambda>_. 0) 0 = Some s0" "tp_reach s0 s" "tp_t2done s" "tp_log s = map numbered_trade [0..<50000]"
proof -
  let ?ts = "map numbered_trade [0..<50000]"
  obtain s0 where s0: "TradeProcessor_new (\<lambda>_. 0) 0 = Some s0" "quiet ?ts 0 s0"
    using new_ok [of "\<lambda>_. 0" 0] handle_at_new by (metis quiet_def take0)
  obtain ring h where p: "publish_all (zero_ring, trade_ring_buffer_new True 0) ?ts = (ring, h)" by fastforce
  have "ring_holds ring ?ts"
    using publish_all_ok [OF _ _ _ p, of "[]"] handle_at_new ring_holds_zero by simp
  then show ?thesis using day_run [OF s0(2)] that [OF s0(1)] by (auto simp: maxTradesPerTP_def)
qed

section \<open>Properties of the store\<close>



text \<open>
  When a day's trades are in the ring, the two threads can always get through them: some run ends with the writer done and all 50000 trades
  taken in order.
\<close>

theorem day_is_written:
  assumes "TradeProcessor_new junk i = Some s0" "publish_all (zero_ring, trade_ring_buffer_new True i) ts = (ring, h)"
    "length ts = maxTradesPerTP"
  shows "\<exists>s. tp_reach s0 s \<and> tp_t2done s \<and> tp_log s = ts"
proof -
  have r: "ring_holds ring ts"
    using publish_all_ok [of "trade_ring_buffer_new True i" "[]" zero_ring ts ring h] assms(2,3) handle_at_new ring_holds_zero
    by (simp add: maxTradesPerTP_def)
  have "quiet ts 0 s0" using new_ok [of junk i] assms(1) handle_at_new by (metis option.inject quiet_def take0)
  then show ?thesis by (rule day_run [OF _ r assms(3)])
qed

theorem day_is_written_witness:
  "\<exists>s0 s. TradeProcessor_new (\<lambda>_. 0) 0 = Some s0 \<and> tp_reach s0 s \<and> tp_t2done s \<and> tp_log s = map numbered_trade [0..<50000]"
proof -
  obtain s0 where s0: "TradeProcessor_new (\<lambda>_. 0) 0 = Some s0" by (rule new_ok)
  obtain ring h where p: "publish_all (zero_ring, trade_ring_buffer_new True 0) (map numbered_trade [0..<50000]) = (ring, h)" by fastforce
  show ?thesis using day_is_written [OF s0 p] s0 by (simp add: maxTradesPerTP_def)
qed



end
