(* ===== verification/Shared_Files.thy ===== *)
theory Shared_Files
  imports Symbol_Loader Trade_Store State_Machine
begin

text \<open>
  The names and the life of what the processes share: the shared memory objects of the trade rings (\<^verbatim>\<open>src/include/trade_ring_buffer.h\<close>, constructor and destructor in
  \<^verbatim>\<open>src/src/trade_ring_buffer.cpp\<close>) and the files of the trade store (\<^verbatim>\<open>src/src/trade_processor.cpp\<close>, \<^verbatim>\<open>src/src/live_tp.cpp\<close>).
\<close>

section \<open>The table of ring names\<close>

text \<open>The loop that takes the digits of an index, lowest first.\<close>

fun low_digits :: "nat \<Rightarrow> char list" where
  "low_digits x = digit_char (x mod 10) # (if x div 10 > 0 then low_digits (x div 10) else [])"

declare low_digits.simps [simp del]

text \<open>An array of 32 characters, zeroed; \<open>None\<close> if a store would leave it.\<close>

definition put_chars :: "char list \<Rightarrow> nat \<Rightarrow> char list \<Rightarrow> char list option" where
  "put_chars cs p arr = (if p + length cs \<le> length arr then Some (take p arr @ cs @ drop (p + length cs) arr) else None)"

definition ring_prefix :: string where "ring_prefix = ''/Trade_Ring_Buffer_''"

text \<open>Entry \<open>i\<close>: the array and the length of the view.\<close>

definition filename_entry :: "nat \<Rightarrow> (char list \<times> nat) option" where
  "filename_entry i = do {
     a1 \<leftarrow> put_chars ring_prefix 0 (replicate 32 (CHR 0x00));
     let p = length ring_prefix;
     let ds = rev (low_digits i);
     a2 \<leftarrow> put_chars ds p a1;
     a3 \<leftarrow> put_chars [CHR 0x00] (p + length ds) a2;
     Some (a3, p + length ds)
   }"

text \<open>The C string the table hands to \<open>shm_open\<close>: the characters before the first zero.\<close>

definition filename :: "nat \<Rightarrow> string option" where
  "filename i = map_option (\<lambda>(a, p). takeWhile (\<lambda>c. c \<noteq> CHR 0x00) a) (filename_entry i)"

lemma low_digits_dec: "rev (low_digits n) = dec_string n"
proof (induction n rule: low_digits.induct)
  case (1 n)
  then show ?case by (subst low_digits.simps, subst dec_string.simps) (auto simp: div_eq_0_iff)
qed

lemma dec_string_length: "n < 10 ^ Suc k \<Longrightarrow> length (dec_string n) \<le> Suc k"
proof (induction k arbitrary: n)
  case (Suc k)
  then have "n div 10 < 10 ^ Suc k" by (simp add: less_mult_imp_div_less mult.commute)
  from Suc.IH [OF this] show ?case by (subst dec_string.simps) auto
qed (simp add: dec_string.simps)

lemma dec_string_inj: "dec_string m = dec_string n \<Longrightarrow> m = n"
  by (metis dec_value_dec_string)

lemma digit_nonzero: "is_digit c \<Longrightarrow> c \<noteq> CHR 0x00"
  by (auto simp: is_digit_def)

lemma put_chars_append: "length cs \<le> n \<Longrightarrow> put_chars cs (length p) (p @ replicate n z) = Some (p @ cs @ replicate (n - length cs) z)"
  by (simp add: put_chars_def)

lemma takeWhile_upto: "\<forall>x \<in> set xs. P x \<Longrightarrow> \<not> P c \<Longrightarrow> takeWhile P (xs @ c # cs) = xs"
  by (subst takeWhile_append2) auto

lemma filename_eq:
  assumes "i < 10 ^ 12" shows "filename i = Some (ring_prefix @ dec_string i)"
proof -
  have len: "length (dec_string i) \<le> 12" using dec_string_length [of i 11] assms by simp
  have nz: "\<forall>c \<in> set (ring_prefix @ dec_string i). c \<noteq> CHR 0x00"
    using dec_string_digits [of i] digit_nonzero by (auto simp: ring_prefix_def)
  have p: "length ring_prefix = 19" by (simp add: ring_prefix_def)
  have "put_chars ring_prefix 0 (replicate 32 (CHR 0x00)) = Some (ring_prefix @ replicate 13 (CHR 0x00))"
    using put_chars_append [of ring_prefix 32 "[]" "CHR 0x00"] by (simp add: p)
  moreover have "put_chars (dec_string i) 19 (ring_prefix @ replicate 13 (CHR 0x00)) = Some (ring_prefix @ dec_string i @ replicate (13 - length (dec_string i)) (CHR 0x00))"
    using put_chars_append [of "dec_string i" 13 ring_prefix "CHR 0x00"] len by (simp add: p)
  moreover have "put_chars [CHR 0x00] (19 + length (dec_string i)) ((ring_prefix @ dec_string i) @ replicate (13 - length (dec_string i)) (CHR 0x00)) =
      Some ((ring_prefix @ dec_string i) @ [CHR 0x00] @ replicate (13 - length (dec_string i) - 1) (CHR 0x00))"
    using put_chars_append [of "[CHR 0x00]" "13 - length (dec_string i)" "ring_prefix @ dec_string i" "CHR 0x00"] len by (simp only: length_append p) simp
  ultimately have "\<exists>cs. filename_entry i = Some (ring_prefix @ dec_string i @ CHR 0x00 # cs, 19 + length (dec_string i))"
    by (simp add: filename_entry_def low_digits_dec p Let_def)
  then obtain cs where "filename_entry i = Some ((ring_prefix @ dec_string i) @ CHR 0x00 # cs, 19 + length (dec_string i))" by (simp only: append_assoc) blast
  then show ?thesis using takeWhile_upto [OF nz, of "CHR 0x00" cs] by (simp only: filename_def option.map prod.case) simp
qed

section \<open>The files of the store\<close>

definition store_path :: string where "store_path = ''./file_output/''"

text \<open>
  The constructor of the write queue, for the \<open>mem_regions - 1\<close> results of opening, allocating and mapping a file: the names, each with its number, or the exit status. The
  counter \<open>fileNumber\<close> is shared by all stores of a process.
\<close>

datatype region_result = OpenFails | AllocFails | MapFails | Mapped

fun make_regions :: "string \<Rightarrow> region_result list \<Rightarrow> nat \<Rightarrow> int + string list \<times> nat" where
  "make_regions base [] fileNumber = Inr ([], fileNumber)"
| "make_regions base (r # rs) fileNumber =
     (let file_name = store_path @ base @ dec_string fileNumber in
      if r \<noteq> Mapped then Inl (- 1)
      else case make_regions base rs (fileNumber + 1) of
          Inl n \<Rightarrow> Inl n
        | Inr (names, k) \<Rightarrow> Inr (file_name # names, k))"

text \<open>The loop of \<open>main\<close> in \<open>live_tp.cpp\<close> that makes the processors, from number \<open>i\<close>.\<close>

fun make_processors :: "nat \<Rightarrow> region_result list list \<Rightarrow> nat \<Rightarrow> int + string list list" where
  "make_processors i [] fileNumber = Inr []"
| "make_processors i (rs # rss) fileNumber =
     (case make_regions (''file_'' @ dec_string i @ ''_'') rs fileNumber of
        Inl n \<Rightarrow> Inl n
      | Inr (names, k) \<Rightarrow> (case make_processors (i + 1) rss k of
            Inl n \<Rightarrow> Inl n
          | Inr nss \<Rightarrow> Inr (names # nss)))"

text \<open>The number at the end of a name.\<close>

definition name_number :: "string \<Rightarrow> nat" where
  "name_number s = dec_value (rev (takeWhile is_digit (rev s)))"

lemma name_number_end:
  assumes "\<not> is_digit c" shows "name_number (p @ c # dec_string n) = n"
proof -
  have "takeWhile is_digit (rev (dec_string n) @ c # rev p) = rev (dec_string n)"
    using assms dec_string_digits [of n] by (subst takeWhile_append2) auto
  then show ?thesis by (simp add: name_number_def dec_value_dec_string)
qed

lemma make_regions_numbers:
  "make_regions (p @ ''_'') rs n = Inr (names, k) \<Longrightarrow>
    k = n + length rs \<and> map name_number names = [n..<n + length rs] \<and> (\<forall>s \<in> set names. \<exists>t. s = store_path @ p @ ''_'' @ t) \<and> list_all (\<lambda>r. r = Mapped) rs"
proof (induction rs arbitrary: n names)
  case (Cons r rs)
  obtain names1 where r: "r = Mapped" "make_regions (p @ ''_'') rs (n + 1) = Inr (names1, k)" "names = (store_path @ p @ ''_'' @ dec_string n) # names1"
    using Cons.prems by (auto simp: Let_def split: if_splits sum.splits)
  have "name_number ((store_path @ p) @ CHR ''_'' # dec_string n) = n" by (rule name_number_end) (simp add: is_digit_def)
  moreover have "[n..<n + length (r # rs)] = n # [n + 1..<n + 1 + length rs]" by (subst upt_rec) simp
  ultimately show ?case using Cons.IH [OF r(2)] r(1,3) by (auto simp del: upt_Suc)
qed simp

lemma make_processors_numbers:
  "make_processors i rss n = Inr nss \<Longrightarrow> length nss = length rss \<and> map name_number (concat nss) = [n..<n + length (concat rss)] \<and>
    (\<forall>j < length nss. \<forall>s \<in> set (nss ! j). \<exists>t. s = store_path @ ''file_'' @ dec_string (i + j) @ ''_'' @ t)"
proof (induction rss arbitrary: i n nss)
  case (Cons rs rss)
  obtain names k nss1 where r: "make_regions (''file_'' @ dec_string i @ ''_'') rs n = Inr (names, k)" "make_processors (i + 1) rss k = Inr nss1"
      "nss = names # nss1"
    using Cons.prems by (auto split: sum.splits prod.splits)
  have names: "k = n + length rs" "map name_number names = [n..<n + length rs]" "\<forall>s \<in> set names. \<exists>t. s = store_path @ ''file_'' @ dec_string i @ ''_'' @ t"
    using make_regions_numbers [of "''file_'' @ dec_string i" rs n names k] r(1) by simp_all
  have "[n..<n + length (concat (rs # rss))] = [n..<n + length rs] @ [k..<k + length (concat rss)]"
    using upt_add_eq_append [of n "n + length rs" "length (concat rss)"] by (simp add: names(1) add.assoc)
  moreover have "\<exists>t. s = store_path @ ''file_'' @ dec_string (i + j) @ ''_'' @ t" if "j < length nss" "s \<in> set (nss ! j)" for j s
    using Cons.IH [OF r(2)] names(3) that r(3) by (cases j) auto
  ultimately show ?case using Cons.IH [OF r(2)] names(2) r(3) by auto
qed simp

text \<open>
  No two trade regions share a file and no two rings a memory object: the files of all the processors of a day are pairwise different, those of processor \<open>j\<close> carry its number, and the names of the
  rings differ from index to index and fit into their arrays. The digit loop of the table prints the index in decimal.
\<close>

theorem shared_names_distinct:
  assumes "make_processors 0 rss n = Inr nss" "i < 10 ^ 12" "j < 10 ^ 12"
  shows "distinct (concat nss) \<and> length (concat nss) = length (concat rss) \<and>
    (\<forall>k < length nss. \<forall>s \<in> set (nss ! k). \<exists>t. s = ''./file_output/file_'' @ dec_string k @ ''_'' @ t) \<and>
    filename i = Some (''/Trade_Ring_Buffer_'' @ dec_string i) \<and> (filename i = filename j \<longleftrightarrow> i = j)"
proof -
  note m = make_processors_numbers [OF assms(1)]
  have "distinct (map name_number (concat nss))" using m by (simp only: distinct_upt)
  then have "distinct (concat nss)" by (simp add: distinct_map)
  moreover have "length (concat nss) = length (concat rss)" using arg_cong [OF m [THEN conjunct2, THEN conjunct1], of length] by simp
  ultimately show ?thesis using m filename_eq [OF assms(2)] filename_eq [OF assms(3)] dec_string_inj by (auto simp: ring_prefix_def store_path_def)
qed

theorem shared_names_distinct_witness:
  "\<exists>nss. make_processors 0 (replicate 2 (replicate 31 Mapped)) 1 = Inr nss \<and> distinct (concat nss) \<and> filename 0 \<noteq> filename 1"
proof -
  obtain nss where nss: "make_processors 0 (replicate 2 (replicate 31 Mapped)) 1 = Inr nss"
    by (simp add: numeral_2_eq_2 eval_nat_numeral Let_def)
  have "(0 :: nat) < 10 ^ 12" "(1 :: nat) < 10 ^ 12" by simp_all
  from shared_names_distinct [OF nss this] show ?thesis using nss by (metis zero_neq_one)
qed

section \<open>Attaching to a ring\<close>

text \<open>
  The constructor makes four system calls, between which other processes run. The state has the object the name stands for, the sizes of all objects made so far, and how far each process has come:
  the first \<open>shm_open\<close> creates the object or fails because it exists, the second opens the existing one, \<open>ftruncate\<close> follows a creation, \<open>mmap\<close> and \<open>close\<close> end it.
\<close>

datatype attach_pc = Unattached | Reopening | Truncating nat | Mapping nat | NoFd | Attached nat | MapFailed | Detached

record shm_state =
  shm_named :: "nat option"
  shm_sizes :: "nat list"
  shm_pcs :: "attach_pc list"

datatype shm_event = Shm_open_excl nat | Shm_open nat | Ftruncate nat bool | Mmap nat | Destroy nat bool

definition ring_bytes :: nat where "ring_bytes = 2 ^ 20 * 64"

definition set_pc :: "nat \<Rightarrow> attach_pc \<Rightarrow> shm_state \<Rightarrow> shm_state" where
  "set_pc i pc s = s\<lparr>shm_pcs := (shm_pcs s)[i := pc]\<rparr>"

text \<open>The destructor; that of a producer removes the name.\<close>

definition shm_destroy :: "nat \<Rightarrow> bool \<Rightarrow> shm_state \<Rightarrow> shm_state option" where
  "shm_destroy i producer s = (if i < length (shm_pcs s) \<and> (case shm_pcs s ! i of Attached k \<Rightarrow> True | MapFailed \<Rightarrow> True | _ \<Rightarrow> False)
     then Some (set_pc i Detached (if producer then s\<lparr>shm_named := None\<rparr> else s)) else None)"

text \<open>The step of process \<open>i\<close>. After a failed \<open>ftruncate\<close> the descriptor is closed and mapped all the same; the result of \<open>mmap\<close> is not checked.\<close>

definition shm_step :: "shm_event \<Rightarrow> shm_state \<Rightarrow> shm_state option" where
  "shm_step e s = (case e of
     Shm_open_excl i \<Rightarrow> (if i < length (shm_pcs s) \<and> shm_pcs s ! i = Unattached then (case shm_named s of
         None \<Rightarrow> Some (set_pc i (Truncating (length (shm_sizes s))) (s\<lparr>shm_named := Some (length (shm_sizes s)), shm_sizes := shm_sizes s @ [0]\<rparr>))
       | Some _ \<Rightarrow> Some (set_pc i Reopening s)) else None)
   | Shm_open i \<Rightarrow> (if i < length (shm_pcs s) \<and> shm_pcs s ! i = Reopening then (case shm_named s of
         None \<Rightarrow> Some (set_pc i NoFd s)
       | Some k \<Rightarrow> Some (set_pc i (Mapping k) s)) else None)
   | Ftruncate i ok \<Rightarrow> (if i < length (shm_pcs s) then (case shm_pcs s ! i of
         Truncating k \<Rightarrow> Some (if ok then set_pc i (Mapping k) (s\<lparr>shm_sizes := (shm_sizes s)[k := ring_bytes]\<rparr>) else set_pc i NoFd s)
       | _ \<Rightarrow> None) else None)
   | Mmap i \<Rightarrow> (if i < length (shm_pcs s) then (case shm_pcs s ! i of
         Mapping k \<Rightarrow> Some (set_pc i (Attached k) s)
       | NoFd \<Rightarrow> Some (set_pc i MapFailed s)
       | _ \<Rightarrow> None) else None)
   | Destroy i producer \<Rightarrow> shm_destroy i producer s)"

definition shm_start :: "nat \<Rightarrow> shm_state" where
  "shm_start n = \<lparr>shm_named = None, shm_sizes = [], shm_pcs = replicate n Unattached\<rparr>"

text \<open>The part of a day in which the producer lives and the memory suffices.\<close>

definition calm :: "shm_state \<Rightarrow> shm_event \<Rightarrow> bool" where
  "calm s e \<longleftrightarrow> (\<forall>i ok. e = Ftruncate i ok \<longrightarrow> ok) \<and> (\<forall>i. e \<noteq> Destroy i True)"

definition pc_ok :: "attach_pc \<Rightarrow> bool" where
  "pc_ok pc \<longleftrightarrow> pc \<in> {Unattached, Reopening, Truncating 0, Mapping 0, Attached 0, Detached}"

definition truncating :: "shm_state \<Rightarrow> nat \<Rightarrow> bool" where
  "truncating s i \<longleftrightarrow> i < length (shm_pcs s) \<and> shm_pcs s ! i = Truncating 0"

definition shm_inv :: "shm_state \<Rightarrow> bool" where
  "shm_inv s \<longleftrightarrow>
     (shm_sizes s = [] \<and> shm_named s = None \<and> (\<forall>i < length (shm_pcs s). shm_pcs s ! i = Unattached)) \<or>
     (shm_named s = Some 0 \<and> (\<forall>i < length (shm_pcs s). pc_ok (shm_pcs s ! i)) \<and>
       (shm_sizes s = [ring_bytes] \<and> (\<forall>i. \<not> truncating s i) \<or> shm_sizes s = [0] \<and> (\<exists>i. truncating s i \<and> (\<forall>j. truncating s j \<longrightarrow> j = i))))"

lemma set_pc_simps [simp]:
  "shm_named (set_pc i pc s) = shm_named s" "shm_sizes (set_pc i pc s) = shm_sizes s" "length (shm_pcs (set_pc i pc s)) = length (shm_pcs s)"
  "i < length (shm_pcs s) \<Longrightarrow> shm_pcs (set_pc i pc s) ! j = (if j = i then pc else shm_pcs s ! j)"
  "i < length (shm_pcs s) \<Longrightarrow> truncating (set_pc i pc s) j = (if j = i then pc = Truncating 0 else truncating s j)"
  by (auto simp: set_pc_def truncating_def)

text \<open>A step that neither begins nor ends the truncation, and the two that do.\<close>

lemma set_pc_inv:
  assumes "shm_inv s" "shm_named s = Some n" "i < length (shm_pcs s)" "shm_pcs s ! i \<noteq> Truncating 0" "pc_ok pc" "pc \<noteq> Truncating 0"
  shows "shm_inv (set_pc i pc s)"
proof -
  have t: "truncating (set_pc i pc s) j \<longleftrightarrow> truncating s j" for j using assms(3,4,6) by (auto simp: truncating_def)
  show ?thesis using assms(1-3,5) unfolding shm_inv_def t by auto
qed

lemma create_inv:
  assumes "shm_inv s" "shm_named s = None" "i < length (shm_pcs s)"
  shows "shm_inv (set_pc i (Truncating (length (shm_sizes s))) (s\<lparr>shm_named := Some (length (shm_sizes s)), shm_sizes := shm_sizes s @ [0]\<rparr>))"
  using assms by (auto simp: shm_inv_def pc_ok_def truncating_def)

lemma truncate_inv:
  assumes "shm_inv s" "i < length (shm_pcs s)" "shm_pcs s ! i = Truncating k"
  shows "shm_inv (set_pc i (Mapping k) (s\<lparr>shm_sizes := (shm_sizes s)[k := ring_bytes]\<rparr>))"
proof -
  have k: "k = 0" "shm_named s = Some 0" "truncating s i" using assms by (auto simp: shm_inv_def truncating_def pc_ok_def)
  then have "shm_sizes s = [0]" "\<forall>j. truncating s j \<longrightarrow> j = i" "\<forall>j < length (shm_pcs s). pc_ok (shm_pcs s ! j)" using assms(1) by (auto simp: shm_inv_def)
  then show ?thesis using k(1,2) assms(2) by (auto simp: shm_inv_def pc_ok_def truncating_def)
qed

lemma inv_pc:
  assumes "shm_inv s" "i < length (shm_pcs s)" "shm_pcs s ! i \<noteq> Unattached"
  shows "shm_named s = Some 0" "pc_ok (shm_pcs s ! i)"
  using assms by (auto simp: shm_inv_def)

lemma shm_step_inv:
  assumes "shm_inv s" "calm s e" "shm_step e s = Some s'" shows "shm_inv s'"
proof (cases e)
  case (Shm_open_excl i)
  then show ?thesis using assms(1,3) create_inv [of s i] set_pc_inv [of s _ i Reopening]
    by (auto simp: shm_step_def pc_ok_def split: if_splits option.splits)
next
  case (Shm_open i)
  then show ?thesis using assms(1,3) inv_pc [of s i] set_pc_inv [of s 0 i "Mapping 0"]
    by (auto simp: shm_step_def pc_ok_def split: if_splits option.splits)
next
  case (Ftruncate i ok)
  then show ?thesis using assms truncate_inv [of s i] by (auto simp: shm_step_def calm_def split: if_splits attach_pc.splits)
next
  case (Mmap i)
  then show ?thesis using assms(1,3) inv_pc [of s i] set_pc_inv [of s 0 i "Attached 0"]
    by (auto simp: shm_step_def pc_ok_def split: if_splits attach_pc.splits)
next
  case (Destroy i producer)
  then show ?thesis using assms inv_pc [of s i] set_pc_inv [of s 0 i Detached]
    by (auto simp: shm_step_def shm_destroy_def pc_ok_def calm_def split: if_splits attach_pc.splits)
qed

interpretation ring_object: step_invariant calm shm_step shm_inv
  by unfold_locales (rule shm_step_inv)



end
