(* ===== verification/Seqlock.thy ===== *)
theory Seqlock
  imports Trade_Ring
begin

unbundle bit_operations_syntax

text \<open>
  One slot of the trade ring under concurrent access, \<^verbatim>\<open>src/src/trade_ring_buffer.cpp\<close>: the three writes of \<open>add_trade\<close> and the loop of \<open>get_trade\<close> as
  interleaved steps, with \<open>memcpy\<close> one 8-byte word at a time. Steps are sequentially consistent. The loop is a seqlock, except that
  its \<open>continue\<close> compares with a \<open>seq2\<close> that is uninitialised or left from the pass before.
\<close>

section \<open>State and steps\<close>

text \<open>The six words of a trade; the last holds the two 32-bit fields.\<close>

definition trade_words :: "Trade \<Rightarrow> u64 list" where
  "trade_words t = [t_trade_id t, t_timestamp_ns t, t_price t, t_buy_order_id t, t_sell_order_id t,
     ucast (t_symbol_id t) OR push_bit 32 (ucast (t_quantity t))]"

lemma length_trade_words [simp]: "length (trade_words t) = 6"
  by (simp add: trade_words_def)

text \<open>Where the producer is in \<open>add_trade\<close>: outside, or past the odd mark with some words copied.\<close>

datatype producer_pc = Outside | Copying u64 Trade nat

text \<open>Where the consumer is in \<open>get_trade\<close>: before the first load, copying after a load of \<open>seq1\<close>, or out of the loop.\<close>

datatype consumer_pc = Load1 | Copy u64 nat | Returned u64

text \<open>\<open>sl_done\<close> records, for each final sequence number stored so far, the words that were written before it.\<close>

record slot =
  sl_seq :: u64
  sl_words :: "u64 list"
  sl_producer :: producer_pc
  sl_consumer :: consumer_pc
  sl_seq2 :: u64
  sl_address :: "u64 list"
  sl_done :: "u64 \<rightharpoonup> u64 list"

text \<open>A slot whose last write is complete, with a consumer about to call \<open>get_trade\<close>; \<open>seq2\<close> and the target are whatever memory holds.\<close>

definition slot_start :: "u64 \<Rightarrow> u64 list \<Rightarrow> u64 \<Rightarrow> u64 list \<Rightarrow> slot" where
  "slot_start s ws junk addr = \<lparr>sl_seq = s, sl_words = ws, sl_producer = Outside, sl_consumer = Load1, sl_seq2 = junk, sl_address = addr,
     sl_done = [s \<mapsto> ws]\<rparr>"

text \<open>
  \<open>Begin e t\<close> enters \<open>add_trade\<close> for trade \<open>t\<close> with \<open>next_expected_seq = e\<close>. On one slot these numbers grow, by \<open>RING_SIZE\<close> each time, until they reach
  \<open>MOD\<close>.
\<close>

definition writing_seq :: "u64 \<Rightarrow> u64" where "writing_seq e = push_bit 1 e OR 1"
definition final_seq :: "u64 \<Rightarrow> u64" where "final_seq e = push_bit 1 e + 2"

datatype slot_step = Begin u64 Trade | Word | Finish | Consume

definition producer_begin :: "u64 \<Rightarrow> Trade \<Rightarrow> slot \<Rightarrow> slot option" where
  "producer_begin e t s = (if sl_producer s = Outside \<and> e < MOD \<and> sl_seq s < push_bit 1 e
     then Some (s\<lparr>sl_seq := writing_seq e, sl_producer := Copying e t 0\<rparr>) else None)"

definition producer_word :: "slot \<Rightarrow> slot option" where
  "producer_word s = (case sl_producer s of
     Copying e t i \<Rightarrow> if i < 6 then Some (s\<lparr>sl_words := (sl_words s)[i := trade_words t ! i], sl_producer := Copying e t (Suc i)\<rparr>) else None
   | Outside \<Rightarrow> None)"

definition producer_finish :: "slot \<Rightarrow> slot option" where
  "producer_finish s = (case sl_producer s of
     Copying e t i \<Rightarrow> if i = 6 then Some (s\<lparr>sl_seq := final_seq e, sl_producer := Outside,
         sl_done := (sl_done s)(final_seq e \<mapsto> sl_words s)\<rparr>) else None
   | Outside \<Rightarrow> None)"

text \<open>The loop condition, with the current values of \<open>seq1\<close> and \<open>seq2\<close>.\<close>

definition loop_test :: "u64 \<Rightarrow> slot \<Rightarrow> slot" where
  "loop_test seq1 s = s\<lparr>sl_consumer := if seq1 \<noteq> sl_seq2 s then Load1 else Returned seq1\<rparr>"

definition consumer_step :: "slot \<Rightarrow> slot option" where
  "consumer_step s = (case sl_consumer s of
     Load1 \<Rightarrow> Some (if bit (sl_seq s) 0 then loop_test (sl_seq s) s else s\<lparr>sl_consumer := Copy (sl_seq s) 0\<rparr>)
   | Copy seq1 i \<Rightarrow>
       Some (if i < 6 then s\<lparr>sl_address := (sl_address s)[i := sl_words s ! i], sl_consumer := Copy seq1 (Suc i)\<rparr>
         else loop_test seq1 (s\<lparr>sl_seq2 := sl_seq s\<rparr>))
   | Returned seq1 \<Rightarrow> None)"

fun slot_next :: "slot_step \<Rightarrow> slot \<Rightarrow> slot option" where
  "slot_next (Begin e t) s = producer_begin e t s"
| "slot_next Word s = producer_word s"
| "slot_next Finish s = producer_finish s"
| "slot_next Consume s = consumer_step s"

fun slot_run :: "slot_step list \<Rightarrow> slot \<Rightarrow> slot option" where
  "slot_run [] s = Some s"
| "slot_run (a # as) s = Option.bind (slot_next a s) (slot_run as)"

section \<open>The invariant\<close>

lemma seq_values:
  assumes "e < MOD"
  shows "unat (push_bit 1 e) = 2 * unat e" "unat (writing_seq e) = 2 * unat e + 1" "unat (final_seq e) = 2 * unat e + 2"
    "bit (writing_seq e) 0" "\<not> bit (final_seq e) 0"
proof -
  have e: "unat e < 2 ^ 60" using assms by (simp add: MOD_def word_less_nat_alt)
  show p: "unat (push_bit 1 e) = 2 * unat e" using e by (simp add: push_bit_eq_mult unat_word_ariths)
  have "push_bit 1 e OR 1 = push_bit 1 e + 1" by (rule disjunctive_add [symmetric]) (auto simp only: bit_push_bit_iff bit_1_iff)
  then show "unat (writing_seq e) = 2 * unat e + 1" using e p by (simp add: writing_seq_def final_seq_def unat_word_ariths del: push_bit_of_1)
  show "unat (final_seq e) = 2 * unat e + 2" using e p by (simp add: writing_seq_def final_seq_def unat_word_ariths del: push_bit_of_1)
  show "bit (writing_seq e) 0" by (simp add: writing_seq_def bit_simps)
  show "\<not> bit (final_seq e) 0" by (simp add: final_seq_def bit_0 push_bit_eq_mult)
qed

text \<open>
  Whenever the slot carries an even number, its words are those recorded for it. The consumer's copy agrees with the slot as long as the number it
  loaded has not changed; numbers never come back.
\<close>

fun producer_ok :: "producer_pc \<Rightarrow> u64 \<Rightarrow> u64 list \<Rightarrow> (u64 \<rightharpoonup> u64 list) \<Rightarrow> bool" where
  "producer_ok Outside sq ws dn \<longleftrightarrow> \<not> bit sq 0 \<and> dn sq = Some ws"
| "producer_ok (Copying e t i) sq ws dn \<longleftrightarrow> e < MOD \<and> sq = writing_seq e \<and> i \<le> 6 \<and> take i ws = take i (trade_words t)"

fun consumer_ok :: "consumer_pc \<Rightarrow> u64 \<Rightarrow> u64 list \<Rightarrow> u64 list \<Rightarrow> (u64 \<rightharpoonup> u64 list) \<Rightarrow> bool" where
  "consumer_ok Load1 sq ws addr dn \<longleftrightarrow> True"
| "consumer_ok (Copy seq1 i) sq ws addr dn \<longleftrightarrow> i \<le> 6 \<and> \<not> bit seq1 0 \<and> seq1 \<in> dom dn \<and> (sq = seq1 \<longrightarrow> take i addr = take i ws)"
| "consumer_ok (Returned seq1) sq ws addr dn \<longleftrightarrow> (\<not> bit seq1 0 \<longrightarrow> dn seq1 = Some addr)"

definition slot_inv :: "slot \<Rightarrow> bool" where
  "slot_inv s \<longleftrightarrow> length (sl_words s) = 6 \<and> length (sl_address s) = 6 \<and> (\<forall>k \<in> dom (sl_done s). k \<le> sl_seq s) \<and>
     producer_ok (sl_producer s) (sl_seq s) (sl_words s) (sl_done s) \<and>
     consumer_ok (sl_consumer s) (sl_seq s) (sl_words s) (sl_address s) (sl_done s)"

lemma producer_outside: "producer_ok pc sq ws dn \<Longrightarrow> \<not> bit sq 0 \<Longrightarrow> pc = Outside \<and> dn sq = Some ws"
  using seq_values(4) by (cases pc) auto


lemma known_less: "slot_inv s \<Longrightarrow> sl_seq s < n \<Longrightarrow> \<forall>k \<in> dom (sl_done s). k \<le> n \<and> k \<noteq> n"
proof (intro ballI)
  fix k assume "slot_inv s" "sl_seq s < n" "k \<in> dom (sl_done s)"
  then have "k < n" unfolding slot_inv_def by (metis order_le_less_trans)
  then show "k \<le> n \<and> k \<noteq> n" by (auto intro: less_imp_le)
qed

lemma take_Suc_update:
  assumes "take i xs = take i ys" "i < length xs" "i < length ys"
  shows "take (Suc i) (xs[i := ys ! i]) = take (Suc i) ys"
  using assms by (simp add: take_Suc_conv_app_nth)

lemma inv_begin:
  assumes "slot_inv s" "producer_begin e t s = Some s'" shows "slot_inv s'"
proof -
  have e: "sl_producer s = Outside" "e < MOD" "sl_seq s < push_bit 1 e"
    and s': "s' = s\<lparr>sl_seq := writing_seq e, sl_producer := Copying e t 0\<rparr>"
    using assms(2) by (auto simp: producer_begin_def split: if_splits)
  have "sl_seq s < writing_seq e"
    using e(3) seq_values(1,2) [OF e(2)] unfolding word_less_nat_alt by linarith
  then have "\<forall>k \<in> dom (sl_done s). k \<le> writing_seq e \<and> k \<noteq> writing_seq e" by (rule known_less [OF assms(1)])
  then show ?thesis using assms(1) e(1,2) by (cases "sl_consumer s") (auto simp: slot_inv_def s')
qed

lemma inv_word:
  assumes "slot_inv s" "producer_word s = Some s'" shows "slot_inv s'"
proof -
  obtain e t i where p: "sl_producer s = Copying e t i" "i < 6"
    and s': "s' = s\<lparr>sl_words := (sl_words s)[i := trade_words t ! i], sl_producer := Copying e t (Suc i)\<rparr>"
    using assms(2) by (auto simp: producer_word_def split: producer_pc.splits if_splits)
  have inv: "take i (sl_words s) = take i (trade_words t)" "length (sl_words s) = 6" "bit (sl_seq s) 0"
    using assms(1) p(1) seq_values(4) by (auto simp: slot_inv_def)
  then have "take (Suc i) ((sl_words s)[i := trade_words t ! i]) = take (Suc i) (trade_words t)"
    using p(2) by (intro take_Suc_update) simp_all
  then show ?thesis using assms(1) p inv(3) by (cases "sl_consumer s") (auto simp: slot_inv_def s' simp del: take_update_swap)
qed

lemma inv_finish:
  assumes "slot_inv s" "producer_finish s = Some s'" shows "slot_inv s'"
proof -
  obtain e t where p: "sl_producer s = Copying e t 6"
    and s': "s' = s\<lparr>sl_seq := final_seq e, sl_producer := Outside, sl_done := (sl_done s)(final_seq e \<mapsto> sl_words s)\<rparr>"
    using assms(2) by (auto simp: producer_finish_def split: producer_pc.splits if_splits)
  have e: "e < MOD" "sl_seq s = writing_seq e" using assms(1) p by (auto simp: slot_inv_def)
  have "sl_seq s < final_seq e" using seq_values(2,3) [OF e(1)] unfolding word_less_nat_alt e(2) by linarith
  then have "\<forall>k \<in> dom (sl_done s). k \<le> final_seq e \<and> k \<noteq> final_seq e" by (rule known_less [OF assms(1)])
  then show ?thesis using assms(1) p seq_values(5) [OF e(1)] by (cases "sl_consumer s") (auto simp: slot_inv_def s')
qed

lemma inv_consume:
  assumes "slot_inv s" "consumer_step s = Some s'" shows "slot_inv s'"
proof (cases "sl_consumer s")
  case Load1
  then show ?thesis using assms producer_outside [of "sl_producer s" "sl_seq s" "sl_words s" "sl_done s"]
    by (cases "bit (sl_seq s) 0") (auto simp: slot_inv_def consumer_step_def loop_test_def)
next
  case (Copy seq1 i)
  show ?thesis
  proof (cases "i < 6")
    case True
    have "take i (sl_address s) = take i (sl_words s) \<Longrightarrow> length (sl_words s) = 6 \<Longrightarrow> length (sl_address s) = 6 \<Longrightarrow>
        take (Suc i) ((sl_address s)[i := sl_words s ! i]) = take (Suc i) (sl_words s)"
      using True by (intro take_Suc_update) simp_all
    then show ?thesis using assms Copy True by (auto simp: slot_inv_def consumer_step_def simp del: take_update_swap)
  next
    case False
    then show ?thesis using assms Copy producer_outside [of "sl_producer s" "sl_seq s" "sl_words s" "sl_done s"]
      by (cases "sl_seq s = seq1") (auto simp: slot_inv_def consumer_step_def loop_test_def)
  qed
qed (use assms in \<open>simp add: consumer_step_def\<close>)

lemma inv_next: "slot_inv s \<Longrightarrow> slot_next a s = Some s' \<Longrightarrow> slot_inv s'"
  by (cases a) (auto intro: inv_begin inv_word inv_finish inv_consume)

text \<open>Where the recorded words come from.\<close>

definition origin :: "slot_step set \<Rightarrow> u64 \<Rightarrow> u64 list \<Rightarrow> u64 \<Rightarrow> u64 list \<Rightarrow> bool" where
  "origin A s0 ws k w \<longleftrightarrow> k = s0 \<and> w = ws \<or> (\<exists>e t. Begin e t \<in> A \<and> k = final_seq e \<and> w = trade_words t)"

definition written_by :: "slot_step set \<Rightarrow> u64 \<Rightarrow> u64 list \<Rightarrow> slot \<Rightarrow> bool" where
  "written_by A s0 ws s \<longleftrightarrow>
     (\<forall>k w. sl_done s k = Some w \<longrightarrow> origin A s0 ws k w) \<and>
     (\<forall>e t i. sl_producer s = Copying e t i \<longrightarrow> Begin e t \<in> A)"

lemma written_next:
  assumes "slot_inv s" "written_by A s0 ws s" "slot_next a s = Some s'" "a \<in> A"
  shows "written_by A s0 ws s'"
proof (cases a)
  case Finish
  obtain e t where p: "sl_producer s = Copying e t 6"
    and s': "s' = s\<lparr>sl_seq := final_seq e, sl_producer := Outside, sl_done := (sl_done s)(final_seq e \<mapsto> sl_words s)\<rparr>"
    using assms(3) Finish by (auto simp: producer_finish_def split: producer_pc.splits if_splits)
  have "take 6 (sl_words s) = take 6 (trade_words t)" "length (sl_words s) = 6" using assms(1) p by (simp_all add: slot_inv_def)
  then have "origin A s0 ws (final_seq e) (sl_words s)" using assms(2) p by (auto simp: written_by_def origin_def)
  then show ?thesis using assms(2) by (simp add: written_by_def s')
next
  case Consume
  then have "sl_done s' = sl_done s" "sl_producer s' = sl_producer s"
    using assms(3) by (auto simp: consumer_step_def loop_test_def split: consumer_pc.splits if_splits)
  then show ?thesis using assms(2) by (simp add: written_by_def)
qed (use assms in \<open>auto simp: written_by_def producer_begin_def producer_word_def split: if_splits producer_pc.splits\<close>)

lemma slot_run_inv:
  "slot_run as s = Some s' \<Longrightarrow> slot_inv s \<Longrightarrow> written_by A s0 ws s \<Longrightarrow> set as \<subseteq> A \<Longrightarrow> slot_inv s' \<and> written_by A s0 ws s'"
proof (induction as arbitrary: s)
  case (Cons a as)
  then show ?case using inv_next written_next by (fastforce simp: bind_eq_Some_conv)
qed simp

lemma start_inv:
  assumes "\<not> bit s0 0" "length ws = 6" "length addr = 6"
  shows "slot_inv (slot_start s0 ws junk addr)" "written_by A s0 ws (slot_start s0 ws junk addr)"
  using assms by (auto simp: slot_inv_def slot_start_def written_by_def origin_def)

section \<open>Properties of the slot\<close>

text \<open>A trade whose words are all \<open>n\<close>, except the packed last one.\<close>

definition flat_trade :: "u64 \<Rightarrow> Trade" where
  "flat_trade n = \<lparr>t_trade_id = n, t_timestamp_ns = n, t_price = n, t_buy_order_id = n, t_sell_order_id = n, t_symbol_id = 0, t_quantity = 0\<rparr>"

lemma flat_words: "trade_words (flat_trade n) = [n, n, n, n, n, 0]"
  by (simp add: trade_words_def flat_trade_def)

text \<open>Three concrete steps, evaluated.\<close>

lemma evaluated:
  "producer_begin 1048577 t s = (if sl_producer s = Outside \<and> sl_seq s < 2097154
     then Some (s\<lparr>sl_seq := 2097155, sl_producer := Copying 1048577 t 0\<rparr>) else None)"
  "final_seq 1048577 = 2097156" "bit (2097155 :: u64) 0" "\<not> bit (2097156 :: u64) 0" "\<not> bit (4 :: u64) 0"
  by (simp_all add: producer_begin_def writing_seq_def final_seq_def MOD_def)

lemma replicates: "replicate 6 x = [x, x, x, x, x, x]" "replicate 8 x = [x, x, x, x, x, x, x, x]"
  by (simp_all add: numeral_eq_Suc)

lemmas slot_eval = evaluated replicates slot_start_def consumer_step_def loop_test_def producer_word_def producer_finish_def flat_words


text \<open>
  C39. Whatever the interleaving: when \<open>get_trade\<close> leaves its loop with an even \<open>seq1\<close>, what it copied is not torn. It is the trade whose write stored that
  number, or what the slot held at the start.
\<close>

theorem even_reads_not_torn:
  assumes "\<not> bit s0 0" "length ws = 6" "length addr = 6" "slot_run as (slot_start s0 ws junk addr) = Some s"
    "sl_consumer s = Returned seq1" "\<not> bit seq1 0"
  shows "seq1 = s0 \<and> sl_address s = ws \<or> (\<exists>e t. Begin e t \<in> set as \<and> seq1 = final_seq e \<and> sl_address s = trade_words t)"
proof -
  have i: "slot_inv s" "written_by (set as) s0 ws s"
    using slot_run_inv [OF assms(4) start_inv(1) [OF assms(1-3)] start_inv(2) [OF assms(1-3)] order_refl] by simp_all
  then have "sl_done s seq1 = Some (sl_address s)" using assms(5,6) by (simp add: slot_inv_def)
  then show ?thesis using i(2) by (simp add: written_by_def origin_def)
qed

theorem even_reads_not_torn_witness:
  "\<exists>s. slot_run (Begin (2 ^ 20 + 1) (flat_trade 9) # replicate 6 Word @ Finish # replicate 8 Consume)
      (slot_start 4 (trade_words (flat_trade 1)) 7 (replicate 6 0)) = Some s \<and>
    sl_consumer s = Returned (final_seq (2 ^ 20 + 1)) \<and> sl_address s = trade_words (flat_trade 9)"
proof -
  let ?as = "Begin (2 ^ 20 + 1) (flat_trade 9) # replicate 6 Word @ Finish # replicate 8 Consume"
  obtain s where s: "slot_run ?as (slot_start 4 (trade_words (flat_trade 1)) 7 (replicate 6 0)) = Some s"
    "sl_consumer s = Returned 2097156"
    by (simp add: slot_eval)
  show ?thesis using even_reads_not_torn [OF _ _ _ s] s by (auto simp: evaluated)
qed

text \<open>
  The consumer loads 4, copies two words, the producer starts to overwrite the slot (its \<open>next_expected_seq\<close> is \<open>2^20 + 1\<close>, one round later) and
  has copied four words when the consumer copies the other four.
\<close>

definition torn_run :: "slot_step list" where
  "torn_run = [Consume, Consume, Consume, Begin (2 ^ 20 + 1) (flat_trade 9), Word, Word, Word, Word,
     Consume, Consume, Consume, Consume, Consume, Consume]"


end
