(* ===== verification/Spec2Isabelle.thy ===== *)
theory Spec2Isabelle
  imports Book_Cancel Oms_Symbols Queue_Threads Order_Path Feed_Process Price_Memory Side_Tools Order_Server Retransmit_Server Market_Data_Path Trade_Persist Shared_Files Seqlock
begin

text \<open>
  TradeX is an exchange in C++. Clients send orders over TCP to an order management system, which passes them to a matching engine of two
  groups; the engine publishes its trades in shared-memory rings, from which a feed sends them to listeners by multicast (with a
  retransmitter for lost messages) and a store writes them to files. This development models these programs and proves what makes
  them correct, and where they are not, what goes wrong.

  \<^bold>\<open>The parts and their theories.\<close>

  \<^item> \<open>Prelude\<close>: machine integers, masked counters, list and option lemmas. An operation returns \<open>None\<close> where the C++ code would leave an array
    or would never return; sums carry the exceptions the code throws.

  \<^item> \<open>Ring_Queue\<close>: \<open>RingBuffer\<close> (\<^verbatim>\<open>src/src/producer_consumer.cpp\<close>) and the \<open>spsc_queue\<close> classes (\<^verbatim>\<open>src/src/spsc_queue.cpp\<close>, \<^verbatim>\<open>listener.cpp\<close>,
    \<^verbatim>\<open>trade_processor.cpp\<close>), with their 32-bit and 64-bit counters. The locale \<open>bounded_fifo\<close> is their interface; it is interpreted for all of them,
    and the clients (groups, order management, feed, listener, store) use its facts. \<open>Queue_Threads\<close> cuts the operations at their accesses to shared memory and lets a producer and a consumer
    interleave; the locale \<open>split_queue\<close>, which extends \<open>bounded_fifo\<close>, says what makes every interleaving look like whole operations. It also has \<open>enqueueClientOrder\<close> with its mutex under any number of
    sessions.

  \<^item> \<open>Market_Types\<close>, \<open>Mem_Pool\<close>, \<open>Price_Heap\<close>, \<open>Order_Book\<close>: the data of \<^verbatim>\<open>src/include/order.h\<close> and the order book of \<^verbatim>\<open>src/include/order_book.h\<close>, down to the node
    array with its free list and the doubly linked level queues. \<open>std::priority_queue\<close> and \<open>std::push_heap\<close> are lists in priority order, behind the locale
    \<open>priority_queue\<close>.

  \<^item> \<open>Book_View\<close>, \<open>Book_Sides\<close>, \<open>Book_Wf\<close>, \<open>Book_Cancel\<close>: the invariant of a book (disjoint queues and free list, id map, heaps, totals, not crossed), the
    abstraction to two resting lists in priority order, and the effect of every operation on them.

  \<^item> \<open>Price_Time\<close> is the specification of matching: price-time priority over two lists. \<open>Matching\<close> is \<open>GroupProcessor\<close>, \<open>Match_Refine\<close> proves that it implements the
    specification (the locale \<open>matching_loop\<close> is the body the four matching loops share; each loop is an interpretation), \<open>Engine_Run\<close> has the
    consequences for sequences of orders and for the group thread.

  \<^item> \<open>Dispatcher\<close>: \<open>MatchingEngineDispatcher\<close>, that is initialisation from the symbol limits, routing, the wait for a full queue.

  \<^item> \<open>Trade_Ring\<close>: \<^verbatim>\<open>src/src/trade_ring_buffer.cpp\<close> with whole operations; \<open>Seqlock\<close>: one slot of it with the producer's and the consumer's accesses
    interleaved, the copies word by word.

  \<^item> \<open>Symbol_Loader\<close>: \<^verbatim>\<open>src/src/symbol_loader.cpp\<close>, reading and writing the symbol file character by character.

  \<^item> \<open>Oms\<close>, \<open>Oms_Run\<close>, \<open>Oms_Symbols\<close>, \<open>Oms_Stops\<close>, \<open>Oms_Icebergs\<close>: the order management system, \<^verbatim>\<open>src/src/oms.cpp\<close>. Its reachable states are those of client threads
    that enqueue and of passes of its loop under any trades and prices; the locales \<open>oms_kept\<close> and \<open>oms_invariant\<close> say what an invariant must withstand and are
    interpreted for ids, contents, stops and icebergs. \<open>Oms_Progress\<close>: the passes return, and no order is lost in them. \<open>Price_Memory\<close>:
    the last prices in the shared memory that the dispatcher and the order management system map, and the two interleaved over it.

  \<^item> \<open>Byte_Layout\<close>, \<open>Client_Wire\<close>, \<open>Bots\<close>: the struct of an order as bytes, sending and receiving it (\<^verbatim>\<open>src/bots/run.cpp\<close>,
    \<^verbatim>\<open>src/src/oms_order_receiving_server.cpp\<close>), and the orders the bots generate. \<open>Bot_Runner\<close>: the bot program with its command line, its workers and their connections.
    \<open>Order_Path\<close>: from a bot's rounds over the wire and the session through the order management system to the books.

  \<^item> \<open>State_Machine\<close>: components whose threads interleave, as partial step functions on events; the locale \<open>step_invariant\<close> is the contract of an invariant. It is
    interpreted for the order server, the retransmitter, the bots, the shared memory of a ring and that of the prices.

  \<^item> \<open>Order_Server\<close>: the accept loop, the sessions and \<open>stop\<close> of \<^verbatim>\<open>src/src/oms_order_receiving_server.cpp\<close>, step by step.

  \<^item> \<open>Endpoints\<close>: how the programs set up and connect their sockets. A program is a function of the kernel, which gives the result of each system call from the calls before it.

  \<^item> \<open>Market_Feed\<close>, \<open>Feed_Recovery\<close>: \<^verbatim>\<open>src/src/MarketFeedReader.cpp\<close>, \<^verbatim>\<open>src/src/listener.cpp\<close> and \<^verbatim>\<open>src/src/retransmitter.cpp\<close> over lists of messages;
    \<open>Retransmit_Server\<close>: the poll loop of the retransmitter with its clients; \<open>Batch_Memory\<close>: the buffers of the three programs byte by byte, with pointers as offsets and checked copies, refining the lists;
    \<open>Market_Data_Path\<close>: from the engine's order to the listener's message; \<open>Feed_Process\<close>: the threads of \<^verbatim>\<open>src/src/live_mfr.cpp\<close> interleaved pass by pass, and the sender's loop to its end.

  \<^item> \<open>Trade_Store\<close>, \<open>Trade_Persist\<close>: \<^verbatim>\<open>src/src/trade_processor.cpp\<close>, the two threads as interleaved steps. \<open>Shared_Files\<close>: the names of its files and of the rings, and the
    constructors that create or attach to a ring's shared memory, interleaved.

  \<^item> \<open>Side_Tools\<close>: the \<open>DemoBot\<close> of \<^verbatim>\<open>src/bots/bots.h\<close>, the statistics of the processing times, destructors, and the main function of \<^verbatim>\<open>src/src/live_tp.cpp\<close>.

  \<^bold>\<open>What is shown.\<close> The engine refines the price-time specification for every sequence of admissible orders, from which priority, conservation of quantity,
  price protection and the uncrossed book follow; queues are bounded FIFOs, also when the accesses of their threads interleave, and their threads drain them; the symbol file and the order struct
  survive their round trips; the order management system gives unique ids, sends only known symbols, fires exactly the stops that are reached, by every trade of the engine, and slices
  icebergs completely; its passes always return, and every order a bot sends gets through to the books; a consumer of the ring reads every trade; the trades of an order reach a listener through four programs and their buffers, none of which is
  overrun, and a lost message is recovered; the feed never repeats or reorders a message and sends everything before it ends; the retransmitter answers only what was asked and closes every connection once; the order server can always be stopped and leaves no session behind; a bot accounts for
  every order and leaks no descriptor; all processes map one ring; the store never loses a region, takes a whole day of trades and ends with memory on disk. Where the code has a flaw, a theorem pins it down:
  a torn read that is accepted, a feed that never ends, prices cleared by a second engine, trades of a day that are overwritten, a cancelled price that hides later orders, a consumer that sees phantom trades,
  two symbols that share their stops.

  \<^bold>\<open>Bounds and fuel.\<close> Matching loops, dispatch and the session loop are \<open>partial_function (option)\<close>, and their theorems state that a result exists. The queue
  loops at the end of the store carry a counter of 33 rounds, and at most 31 regions exist; \<open>Trade_Persist\<close> proves that it never runs out. The loops over trades,
  packets and bytes recurse over the list of what they receive.

  \<^bold>\<open>What is assumed of the environment.\<close> Clock, random numbers, results of system calls and the bytes a socket delivers are parameters. Where a
  theorem needs their documented behaviour, it is a named predicate: \<open>sends_ok\<close>, \<open>chunks_ok\<close> (\<open>send\<close> and \<open>recv\<close> transfer at most what was asked for),
  \<open>makes_room\<close> and \<open>served_by\<close> (the other threads work off the queue; passes of the order management system do), \<open>input_ok\<close> (the rings hold what the engines published, at most one ring ahead of the reader),
  \<open>udp_takes\<close> and \<open>tcp_takes\<close> (the kernel takes what it is given, in portions), \<open>kernel_ok\<close> and \<open>fresh_fds\<close> (a new descriptor is not in use), \<open>poll_ok\<close> (\<open>poll\<close> announces as many events as there are),
  \<open>calm\<close> (\<open>ftruncate\<close> succeeds and the producer lives). Steps of different threads are sequentially consistent; what a step is, is said in each theory: an access for the queues and a ring's slot, a system call for the server and the
  shared memory, a pass for the feed and the order management system, whose use of the queues in between \<open>Queue_Threads\<close> justifies.

  \<^bold>\<open>Not modelled.\<close> Error messages, thread affinity, sleeping, timing statistics and console output; floating point (the average of the processing times); weak memory effects beyond sequential
  consistency; the tests and benchmarks.
\<close>

end
